(* ===== verification/CK_Prelude.thy ===== *)
theory CK_Prelude
  imports "HOL-Library.Word" "HOL-Library.Monad_Syntax" "HOL-Library.Multiset"
begin

text \<open>
  The prelude of the development: the machine types of
  \<^verbatim>\<open>development/include/typewrappers.h\<close> on the 32-bit target, the circular
  comparisons and the exchange primitive of
  \<^verbatim>\<open>CK/include/architecture/I80X86/arith.h\<close>, the polled mutex of
  \<^verbatim>\<open>CK/include/mutex.h\<close>, the error codes of \<^verbatim>\<open>CK/include/ckerror.h\<close>, and the lemmas on
  lists and words that the components share.

  A stateful call that may fail to return is a value of an \<open>option\<close> type: \<open>None\<close> stands
  for a call that polls a mutex nobody releases, or that runs off the end of an array.
\<close>

unbundle bit_operations_syntax

section \<open>Automation collections\<close>

named_theorems ck_defs "definitions of the straight-line operations"
named_theorems ck_inv "invariant preservation facts"

section \<open>Machine types\<close>

type_synonym u8 = "8 word"
type_synonym u32 = "32 word"
type_synonym addr = "32 word"
type_synonym TIME = "32 word"

abbreviation NIL :: addr where
  "NIL \<equiv> 0"

abbreviation ADDRSIZE :: nat where
  "ADDRSIZE \<equiv> 4"

section \<open>Circular comparison and exchange (arith.h)\<close>

definition CLESS :: "u32 \<Rightarrow> u32 \<Rightarrow> bool" where
  "CLESS x y \<longleftrightarrow> sint (x - y) < 0"

definition CLSE :: "u32 \<Rightarrow> u32 \<Rightarrow> bool" where
  "CLSE x y \<longleftrightarrow> sint (x - y) \<le> 0"

text \<open>The old contents of the cell, and its new contents.\<close>

definition XCHG :: "u32 \<Rightarrow> u32 \<Rightarrow> u32 \<times> u32" where
  "XCHG cell v = (cell, v)"

section \<open>Mutexes (mutex.h)\<close>

type_synonym CKMutex = u32

text \<open>
  \<open>CKenterCritical\<close> exchanges a one into the mutex until the old value was zero. Nothing
  but another thread can make it zero in between, so for the calling thread a held mutex
  is a call that does not return.
\<close>

definition CKenterCritical :: "CKMutex \<Rightarrow> CKMutex option" where
  "CKenterCritical m = (let (old, new) = XCHG m 1 in if old \<noteq> 0 then None else Some new)"

definition CKexitCritical :: "CKMutex \<Rightarrow> CKMutex" where
  "CKexitCritical m = 0"

lemma CKenterCritical_free [simp]: "CKenterCritical 0 = Some 1"
  by (simp add: CKenterCritical_def XCHG_def)

lemma CKenterCritical_held: "m \<noteq> 0 \<Longrightarrow> CKenterCritical m = None"
  by (simp add: CKenterCritical_def XCHG_def)

lemma CKenterCritical_Some: "CKenterCritical m = Some m' \<longleftrightarrow> m = 0 \<and> m' = 1"
  by (auto simp: CKenterCritical_def XCHG_def)

lemma CKexitCritical_free [simp]: "CKexitCritical m = 0"
  by (simp add: CKexitCritical_def)

section \<open>Error codes (ckerror.h)\<close>

datatype ckerror =
    ENOVALIDADDRSPC | ENOVALIDKERNEL | EINSCHEDPARMS | ENOMEM | EUNDEFOBJ | ELOCKED
  | ENOLOCKPERMS | ENOSECURITY | ENOVIRTMEM | ESEGMENTATION | ENOPHYSMEM | ENOVALIDTHREAD
  | ENOSIGHANDL | EINKRNLTHREAD | EINRESOURCE | ERESOURCEBUSY | ENOVALIDSHMEM | EINVALIDPARAMS

text \<open>A system call returns 0 or an error code.\<close>

type_synonym ckresult = "ckerror option"

abbreviation CK_OK :: ckresult where
  "CK_OK \<equiv> None"

text \<open>The numbers the codes stand for.\<close>

primrec ckerror_code :: "ckerror \<Rightarrow> int" where
  "ckerror_code ENOVALIDADDRSPC = -1"
| "ckerror_code ENOVALIDKERNEL = -2"
| "ckerror_code EINSCHEDPARMS = -3"
| "ckerror_code ENOMEM = -4"
| "ckerror_code EUNDEFOBJ = -5"
| "ckerror_code ELOCKED = -6"
| "ckerror_code ENOLOCKPERMS = -7"
| "ckerror_code ENOSECURITY = -8"
| "ckerror_code ENOVIRTMEM = -9"
| "ckerror_code ESEGMENTATION = -10"
| "ckerror_code ENOPHYSMEM = -11"
| "ckerror_code ENOVALIDTHREAD = -12"
| "ckerror_code ENOSIGHANDL = -13"
| "ckerror_code EINKRNLTHREAD = -14"
| "ckerror_code EINRESOURCE = -15"
| "ckerror_code ERESOURCEBUSY = -16"
| "ckerror_code ENOVALIDSHMEM = -17"
| "ckerror_code EINVALIDPARAMS = -18"

section \<open>Circular order inside a half-range window\<close>

text \<open>
  \<open>CLESS\<close> is no order on all words. On times that lie within half the range after a base
  time \<open>b\<close> it is the order of the distances from \<open>b\<close>.
\<close>

definition tkey :: "TIME \<Rightarrow> TIME \<Rightarrow> nat" where
  "tkey b t = unat (t - b)"

definition in_window :: "TIME \<Rightarrow> TIME \<Rightarrow> bool" where
  "in_window b t \<longleftrightarrow> tkey b t < 2 ^ 31"

lemma sint_diff_small:
  fixes x y :: u32
  assumes "unat x < 2 ^ 31" and "unat y < 2 ^ 31"
  shows "sint (x - y) = uint x - uint y"
proof -
  have "int (unat x) < int (2 ^ 31)" and "int (unat y) < int (2 ^ 31)"
    using assms by (simp_all only: of_nat_less_iff)
  then have ux: "uint x < 2 ^ 31" and uy: "uint y < 2 ^ 31"
    by simp_all
  have lo: "- (2 ^ 31) \<le> uint x - uint y" and hi: "uint x - uint y < 2 ^ 31"
    using ux uy uint_ge_0[of x] uint_ge_0[of y] by linarith+
  have "sint (x - y) = signed_take_bit (LENGTH(32) - 1) (uint x - uint y)"
    unfolding word_sub_wi by (rule sint_sbintrunc')
  also have "\<dots> = signed_take_bit 31 (uint x - uint y)"
    by simp
  also have "\<dots> = uint x - uint y"
    by (rule signed_take_bit_int_eq_self [OF lo hi])
  finally show ?thesis .
qed

lemma unat_less_uint: "uint x < uint y \<longleftrightarrow> unat x < unat (y :: u32)"
  unfolding uint_nat by (rule of_nat_less_iff)

lemma unat_le_uint: "uint x \<le> uint y \<longleftrightarrow> unat x \<le> unat (y :: u32)"
  unfolding uint_nat by (rule of_nat_le_iff)

lemma CLESS_tkey: "in_window b x \<Longrightarrow> in_window b y \<Longrightarrow> CLESS x y \<longleftrightarrow> tkey b x < tkey b y"
  using sint_diff_small[of "x - b" "y - b"]
  by (simp add: in_window_def tkey_def CLESS_def unat_less_uint)

lemma CLSE_tkey: "in_window b x \<Longrightarrow> in_window b y \<Longrightarrow> CLSE x y \<longleftrightarrow> tkey b x \<le> tkey b y"
  using sint_diff_small[of "x - b" "y - b"]
  by (simp add: in_window_def tkey_def CLSE_def unat_le_uint)

section \<open>Unsigned arithmetic without overflow\<close>

lemma unat_add_small: "unat a + unat b < 2 ^ 32 \<Longrightarrow> unat (a + b :: u32) = unat a + unat b"
  by (simp add: unat_word_ariths)

lemma unat_sub_le: "unat b \<le> unat a \<Longrightarrow> unat (a - b :: u32) = unat a - unat b"
  by (simp add: unat_sub word_le_nat_alt)

lemma unat_less_32: "unat (a :: u32) < 2 ^ 32"
  using unsigned_less[of a] by simp

section \<open>Lists\<close>

lemma mset_take_list_update:
  assumes "i < n" and "n \<le> length xs"
  shows "mset (take n (xs[i := x])) = add_mset x (mset (take n xs) - {#xs ! i#})"
  using assms by (simp add: take_update_swap mset_update)

lemma mset_take_swap:
  assumes "i < n" "j < n" "n \<le> length xs"
  shows "mset (take n (xs[i := xs ! j, j := xs ! i])) = mset (take n xs)"
proof -
  have "take n (xs[i := xs ! j, j := xs ! i])
      = (take n xs)[i := take n xs ! j, j := take n xs ! i]"
    using assms by (simp add: take_update_swap)
  then show ?thesis
    using assms mset_swap[of j "take n xs" i] by (simp add: list_update_swap)
qed

lemma nth_list_update_if:
  "i < length xs \<Longrightarrow> xs[i := x] ! j = (if i = j then x else xs ! j)"
  by simp

end
