(* ===== verification/CK_Heap.thy ===== *)
theory CK_Heap
  imports CK_Prelude
begin

text \<open>
  The scheduler's priority heaps: \<^verbatim>\<open>CK/pri_heap.c\<close> and \<^verbatim>\<open>CK/include/pri_heap.h\<close>, over the
  thread objects of \<^verbatim>\<open>CK/include/ckobjects.h\<close>. A heap is an array of \<open>MAXEVENTS\<close> event
  pointers and the address of its last used element; every event in it carries a
  backpointer to its slot. The code walks the array with pointers; here a slot is an index,
  and \<open>LCHILD_ptr\<close>, \<open>RCHILD_ptr\<close> and \<open>PARENT_ptr\<close> are the address macros, proved to be
  the index arithmetic.
\<close>

section \<open>Thread objects (ckobjects.h)\<close>

datatype ThreadState = ts_Running | ts_RealTime | ts_Idle | ts_Blocked

datatype TunnelType = tt_Conservative | tt_Swapping | tt_Unblocking

text \<open>
  A pending signal. The list node's address is kept because the node is CK memory; the
  \<open>next\<close> pointers are the order of the list that holds it.
\<close>

record SIGNAL =
  sig_addr :: addr
  sig_signal :: u32
  sig_extra :: u32
  sig_priority :: u32
  sig_sender :: addr

text \<open>The processor state (taskstate.h), without the contents of the FPU registers.\<close>

record TSS =
  tss_back :: u32
  tss_esp0 :: u32
  tss_ss0 :: u32
  tss_esp1 :: u32
  tss_ss1 :: u32
  tss_esp2 :: u32
  tss_ss2 :: u32
  tss_cr3 :: u32
  tss_eip :: u32
  tss_eflags :: u32
  tss_regs :: "u32 list"
  tss_esp :: u32
  tss_es :: u32
  tss_cs :: u32
  tss_ss :: u32
  tss_ds :: u32
  tss_fs :: u32
  tss_gs :: u32
  tss_ldt :: u32
  tss_trap :: "16 word"
  tss_io :: "16 word"
  i387_used :: u32

text \<open>The object header is in a store of its own (all object types share it).\<close>

record CKThreadObject =
  addressSpace :: addr
  parentKernel :: addr
  quantum :: TIME
  defer_time :: TIME
  etime :: TIME
  eheap :: nat
  ts :: ThreadState
  signals :: "SIGNAL list"
  trap_res :: addr
  dmachan_res :: addr
  ioregion_res :: addr
  taskState :: TSS

type_synonym EVENTS = "addr \<Rightarrow> CKThreadObject"

section \<open>The heap selector (pri_heap.h)\<close>

definition MAXEVENTS :: nat where
  "MAXEVENTS = 1024"

datatype HeapType = ht_timesharing | ht_realtime | ht_idle

text \<open>\<open>hcount\<close> is \<open>heapLast - heap + 1\<close>, the number of used elements.\<close>

record HeapSelector =
  harr :: "addr list"
  hcount :: nat

definition CKisHeapEmpty :: "HeapSelector \<Rightarrow> bool" where
  "CKisHeapEmpty H \<longleftrightarrow> hcount H = 0"

definition CKgetNextEvent :: "HeapSelector \<Rightarrow> addr" where
  "CKgetNextEvent H = harr H ! 0"

definition CKgetNextQuantum :: "HeapSelector \<Rightarrow> EVENTS \<Rightarrow> TIME" where
  "CKgetNextQuantum H ev = quantum (ev (CKgetNextEvent H))"

definition CKgetNextTime :: "HeapSelector \<Rightarrow> EVENTS \<Rightarrow> TIME" where
  "CKgetNextTime H ev = etime (ev (CKgetNextEvent H))"

definition CKsetupHeaps :: "(HeapType \<Rightarrow> HeapSelector) \<Rightarrow> HeapType \<Rightarrow> HeapSelector" where
  "CKsetupHeaps hs = (\<lambda>c. (hs c)\<lparr>hcount := 0\<rparr>)"

section \<open>Addressing the tree\<close>

definition LCHILD :: "nat \<Rightarrow> nat" where
  "LCHILD i = 2 * i + 1"

definition RCHILD :: "nat \<Rightarrow> nat" where
  "RCHILD i = 2 * i + 2"

definition PARENT :: "nat \<Rightarrow> nat" where
  "PARENT i = (i - 1) div 2"

definition LCHILD_ptr :: "addr \<Rightarrow> addr \<Rightarrow> addr" where
  "LCHILD_ptr hp x = push_bit 1 x - hp + 4"

definition RCHILD_ptr :: "addr \<Rightarrow> addr \<Rightarrow> addr" where
  "RCHILD_ptr hp x = push_bit 1 x - hp + 2 * 4"

definition PARENT_ptr :: "addr \<Rightarrow> addr \<Rightarrow> addr" where
  "PARENT_ptr hp x = (drop_bit 1 (x + hp - 4) AND NOT (drop_bit 1 4)) OR 0x80000000"

text \<open>The address of slot \<open>i\<close> of a heap array at address \<open>hp\<close>.\<close>

definition slot_ptr :: "addr \<Rightarrow> nat \<Rightarrow> addr" where
  "slot_ptr hp i = hp + 4 * of_nat i"

subsection \<open>The address macros are the index arithmetic\<close>

text \<open>
  \<open>PARENT\<close> halves the sum of two addresses in the upper half of the address space, so the
  sum loses its top bit, which the macro puts back: it needs the array to be linked at or
  above 0x80000000, aligned to a word.
\<close>

lemma CHILD_ptr_slot:
  "LCHILD_ptr hp (slot_ptr hp i) = slot_ptr hp (LCHILD i)"
  "RCHILD_ptr hp (slot_ptr hp i) = slot_ptr hp (RCHILD i)"
  by (simp_all add: LCHILD_ptr_def RCHILD_ptr_def LCHILD_def RCHILD_def slot_ptr_def
      push_bit_eq_mult algebra_simps)

lemma mask_even:
  fixes w :: addr assumes "r = 0 \<or> r = (2::addr)"
  shows "(push_bit 2 w + r) AND NOT 2 = push_bit 2 w"
proof -
  have b: "bit (2::addr) n \<longleftrightarrow> n = 1" for n
    by (auto simp: bit_2_iff)
  have "push_bit 2 w + r = push_bit 2 w OR r"
    using assms by (intro disjunctive_add_eq_or) (auto intro!: bit_eqI simp: bit_simps b)
  then show ?thesis using assms
    by (auto intro!: bit_eqI simp: bit_simps b)
qed




lemma unat_less_not_bit: "unat (w :: addr) < 2 ^ n \<Longrightarrow> \<not> bit w n"
proof
  assume a: "unat w < 2 ^ n" and "bit w n"
  then have "bit (unat w) n" by (simp add: bit_unsigned_iff)
  then show False using a by (simp add: bit_iff_odd)
qed

lemma unat_eq_of_nat: "unat w = n \<Longrightarrow> (w :: addr) = of_nat n"
  by (auto simp: of_nat_unat)

lemma top_bit:
  fixes w :: addr assumes "unat w < 2 ^ 31"
  shows "w OR 0x80000000 = w + 0x80000000"
proof -
  have e: "(0x80000000 :: addr) = push_bit 31 1" by (simp add: push_bit_eq_mult)
  have "bit (0x80000000 :: addr) n \<longleftrightarrow> n = 31" for n
    unfolding e bit_push_bit_iff bit_1_iff by auto
  note bb = this
  have "w AND 0x80000000 = 0"
  proof (rule bit_eqI)
    fix n
    show "bit (w AND 0x80000000) n \<longleftrightarrow> bit (0 :: addr) n"
      unfolding bit_and_iff bb bit_0_eq using unat_less_not_bit[OF assms] by auto
  qed
  then show ?thesis by (rule disjunctive_add_eq_or[symmetric])
qed

lemma drop_bit_1_of_nat: "n < 2 ^ 32 \<Longrightarrow> drop_bit 1 (of_nat n :: addr) = of_nat (n div 2)"
proof -
  assume n: "n < 2 ^ 32"
  have "unat (drop_bit 1 (of_nat n :: addr)) = drop_bit 1 n"
    using n unfolding unat_drop_bit_eq by (simp add: unat_of_nat)
  then have "drop_bit 1 (of_nat n :: addr) = of_nat (drop_bit 1 n)"
    by (rule unat_eq_of_nat)
  moreover have "drop_bit 1 n = n div 2" by (simp add: drop_bit_eq_div)
  ultimately show ?thesis by simp
qed
lemma PARENT_ptr_slot:
  fixes hp :: addr
  assumes "2 ^ 31 \<le> unat hp" "4 dvd unat hp" "unat hp + 4096 \<le> 2 ^ 32" "0 < i" "i < 1024"
  shows "PARENT_ptr hp (slot_ptr hp i) = slot_ptr hp (PARENT i)"
proof -
  obtain k where k: "unat hp = 4 * k" using assms(2) by (rule dvdE)
  define m where "m = k - 2 ^ 29"
  have m: "unat hp = 2 ^ 31 + 4 * m" using k assms(1) by (simp add: m_def)
  have hp: "hp = of_nat (2 ^ 31 + 4 * m)" by (rule unat_eq_of_nat[OF m])
  have bm: "m + 1024 \<le> 2 ^ 29" using m assms(3) by simp
  obtain j where i: "i = Suc j" using assms(4) by (cases i) auto
  define q r where "q = m + j div 2" and "r = j mod 2"
  have j: "j = 2 * (j div 2) + r" by (simp add: r_def)
  have qb: "q < 2 ^ 29" and rb: "r < 2" using bm assms(5) i unfolding q_def r_def by simp_all
  have "slot_ptr hp i + hp - 4 = of_nat (2 ^ 31 + 4 * m + 4 * Suc j + (2 ^ 31 + 4 * m)) - 4"
    unfolding slot_ptr_def hp i by (simp only: of_nat_add of_nat_mult of_nat_numeral)
  also have "2 ^ 31 + 4 * m + 4 * Suc j + (2 ^ 31 + 4 * m) = 2 ^ 32 + (8 * q + 4 * r) + 4"
    unfolding q_def using j by simp
  also have "of_nat (2 ^ 32 + (8 * q + 4 * r) + 4) - 4 = (of_nat (8 * q + 4 * r) :: addr)"
    by simp
  finally have s: "slot_ptr hp i + hp - 4 = (of_nat (8 * q + 4 * r) :: addr)" .
  have "8 * q + 4 * r < 2 ^ 32" using qb rb by simp
  then have "drop_bit 1 (of_nat (8 * q + 4 * r) :: addr) = of_nat (4 * q + 2 * r)"
    using drop_bit_1_of_nat[of "8 * q + 4 * r"] by (simp add: algebra_simps)
  also have "\<dots> = push_bit 2 (of_nat q) + of_nat (2 * r)"
    by (simp add: push_bit_eq_mult)
  finally have d: "drop_bit 1 (of_nat (8 * q + 4 * r) :: addr) = push_bit 2 (of_nat q) + of_nat (2 * r)" .
  have two: "drop_bit 1 (4 :: addr) = 2" by simp
  have "of_nat (2 * r) = 0 \<or> of_nat (2 * r) = (2 :: addr)" using rb by (auto simp: less_2_cases_iff)
  then have a: "drop_bit 1 (of_nat (8 * q + 4 * r) :: addr) AND NOT (drop_bit 1 4) = push_bit 2 (of_nat q)"
    unfolding d two by (rule mask_even)
  have pq: "push_bit 2 (of_nat q :: addr) = of_nat (4 * q)" by (simp add: push_bit_eq_mult)
  have "unat (of_nat (4 * q) :: addr) < 2 ^ 31" unfolding unat_of_nat using qb by simp
  then have "PARENT_ptr hp (slot_ptr hp i) = of_nat (4 * q) + 0x80000000"
    unfolding PARENT_ptr_def s a pq by (rule top_bit)
  also have "\<dots> = slot_ptr hp (PARENT i)"
    unfolding slot_ptr_def hp i q_def PARENT_def by simp
  finally show ?thesis .
qed

text \<open>The right child is compared only when the left one is not the last element.\<close>

definition MINCHILD :: "addr list \<Rightarrow> EVENTS \<Rightarrow> nat \<Rightarrow> nat \<Rightarrow> nat" where
  "MINCHILD h ev n i =
     (if LCHILD i + 1 < n \<and> CLSE (etime (ev (h ! RCHILD i))) (etime (ev (h ! LCHILD i)))
      then RCHILD i else LCHILD i)"

lemma MINCHILD_gt: "i < MINCHILD h ev n i"
  by (simp add: MINCHILD_def LCHILD_def RCHILD_def)

lemma PARENT_less: "0 < i \<Longrightarrow> PARENT i < i"
  by (simp add: PARENT_def)

section \<open>Sifting\<close>

definition set_heap :: "addr \<Rightarrow> nat \<Rightarrow> EVENTS \<Rightarrow> EVENTS" where
  "set_heap e i ev = ev(e := (ev e)\<lparr>eheap := i\<rparr>)"

text \<open>
  The two loops. \<open>nxt\<close> is the free slot and \<open>e\<close> the event looking for its place;
  \<open>siftup_loop\<close> is the loop of \<open>CKsiftup\<close> and \<open>CKprioritise\<close>, \<open>siftdown_loop\<close> the one
  of \<open>CKsiftdown\<close> and \<open>CKremoveEvent\<close>.
\<close>

function siftup_loop :: "nat \<Rightarrow> addr \<Rightarrow> addr list \<Rightarrow> EVENTS \<Rightarrow> addr list \<times> EVENTS" where
  "siftup_loop nxt e h ev =
     (if 0 < nxt \<and> CLESS (etime (ev e)) (etime (ev (h ! PARENT nxt)))
      then siftup_loop (PARENT nxt) e (h[nxt := h ! PARENT nxt]) (set_heap (h ! PARENT nxt) nxt ev)
      else (h[nxt := e], set_heap e nxt ev))"
  by pat_completeness auto
termination
  by (relation "measure (\<lambda>(nxt, e, h, ev). nxt)") (auto simp: PARENT_less)

function siftdown_loop :: "nat \<Rightarrow> nat \<Rightarrow> addr \<Rightarrow> addr list \<Rightarrow> EVENTS \<Rightarrow> addr list \<times> EVENTS" where
  "siftdown_loop n nxt e h ev =
     (let c = MINCHILD h ev n nxt in
      if c < n \<and> CLESS (etime (ev (h ! c))) (etime (ev e))
      then siftdown_loop n c e (h[nxt := h ! c]) (set_heap (h ! c) nxt ev)
      else (h[nxt := e], set_heap e nxt ev))"
  by pat_completeness auto
termination
  by (relation "measure (\<lambda>(n, nxt, e, h, ev). n - nxt)")
     (auto simp: MINCHILD_gt diff_less_mono2 order.strict_trans[OF MINCHILD_gt])

declare siftup_loop.simps [simp del] siftdown_loop.simps [simp del]

section \<open>The operations (pri_heap.c)\<close>

text \<open>\<open>None\<close>: the array has no slot left for the new event (the code does not check).\<close>

definition CKsiftup :: "addr \<Rightarrow> HeapSelector \<times> EVENTS \<Rightarrow> (HeapSelector \<times> EVENTS) option" where
  "CKsiftup newEvt = (\<lambda>(H, ev).
     let last = hcount H in
     if last < MAXEVENTS then
       (let (h, ev') = siftup_loop last newEvt (harr H) ev
        in Some (H\<lparr>harr := h, hcount := Suc last\<rparr>, ev'))
     else None)"

definition CKsiftdown :: "HeapSelector \<times> EVENTS \<Rightarrow> HeapSelector \<times> EVENTS" where
  "CKsiftdown = (\<lambda>(H, ev).
     let (h, ev') = siftdown_loop (hcount H) 0 (harr H ! 0) (harr H) ev
     in (H\<lparr>harr := h\<rparr>, ev'))"

text \<open>
  \<open>evt\<close> is the slot of the event to remove. \<open>None\<close>: the heap is empty, or the slot is
  outside the array.
\<close>

definition CKremoveEvent :: "nat \<Rightarrow> HeapSelector \<times> EVENTS \<Rightarrow> (HeapSelector \<times> EVENTS) option" where
  "CKremoveEvent evt = (\<lambda>(H, ev).
     if hcount H = 0 \<or> MAXEVENTS \<le> evt then None
     else
       let last = hcount H - 1;
           h1 = (harr H)[evt := harr H ! last];
           ev1 = set_heap (h1 ! evt) evt ev;
           (h, ev') = siftdown_loop last evt (h1 ! evt) h1 ev1
       in Some (H\<lparr>harr := h, hcount := last\<rparr>, ev'))"

text \<open>
  The argument heap is the timesharing heap, the only one the code prioritises in.
  \<open>None\<close>: the event's backpointer is outside the array.
\<close>

definition CKprioritise :: "addr \<Rightarrow> HeapSelector \<times> EVENTS \<Rightarrow> (HeapSelector \<times> EVENTS) option" where
  "CKprioritise e = (\<lambda>(H, ev).
     if ts (ev e) = ts_Running then
       (let ev1 = ev(e := (ev e)\<lparr>etime := CKgetNextTime H ev\<rparr>) in
        if eheap (ev1 e) < MAXEVENTS then
          (let (h, ev') = siftup_loop (eheap (ev1 e)) e (harr H) ev1
           in Some (H\<lparr>harr := h\<rparr>, ev'))
        else None)
     else Some (H, ev))"

section \<open>Structure: occupancy and backpointers\<close>

definition events_of :: "HeapSelector \<Rightarrow> addr list" where
  "events_of H = take (hcount H) (harr H)"

definition backptrs :: "nat \<Rightarrow> addr list \<Rightarrow> EVENTS \<Rightarrow> bool" where
  "backptrs n h ev \<longleftrightarrow> (\<forall>i<n. eheap (ev (h ! i)) = i)"

definition heap_wf :: "HeapSelector \<Rightarrow> EVENTS \<Rightarrow> bool" where
  "heap_wf H ev \<longleftrightarrow> length (harr H) = MAXEVENTS \<and> hcount H \<le> MAXEVENTS
     \<and> distinct (events_of H) \<and> backptrs (hcount H) (harr H) ev"

text \<open>Two event stores that differ in backpointers only.\<close>

definition same_but_heap :: "EVENTS \<Rightarrow> EVENTS \<Rightarrow> bool" where
  "same_but_heap ev ev' \<longleftrightarrow> (\<forall>a. (ev' a)\<lparr>eheap := 0\<rparr> = (ev a)\<lparr>eheap := 0\<rparr>)"

lemma same_but_heap_refl [simp]: "same_but_heap ev ev"
  by (simp add: same_but_heap_def)

lemma same_but_heap_trans: "same_but_heap a b \<Longrightarrow> same_but_heap b c \<Longrightarrow> same_but_heap a c"
  by (simp add: same_but_heap_def)

lemma same_but_heap_set [simp]: "same_but_heap ev (set_heap e i ev)"
  by (simp add: same_but_heap_def set_heap_def)

lemma same_but_heap_fields:
  assumes "same_but_heap ev ev'"
  shows "etime (ev' a) = etime (ev a)" "ts (ev' a) = ts (ev a)" "quantum (ev' a) = quantum (ev a)"
    "signals (ev' a) = signals (ev a)" "addressSpace (ev' a) = addressSpace (ev a)"
    "parentKernel (ev' a) = parentKernel (ev a)" "defer_time (ev' a) = defer_time (ev a)"
    "taskState (ev' a) = taskState (ev a)"
  using arg_cong[where f = etime, OF spec[OF assms[unfolded same_but_heap_def], of a]]
    arg_cong[where f = ts, OF spec[OF assms[unfolded same_but_heap_def], of a]]
    arg_cong[where f = quantum, OF spec[OF assms[unfolded same_but_heap_def], of a]]
    arg_cong[where f = signals, OF spec[OF assms[unfolded same_but_heap_def], of a]]
    arg_cong[where f = addressSpace, OF spec[OF assms[unfolded same_but_heap_def], of a]]
    arg_cong[where f = parentKernel, OF spec[OF assms[unfolded same_but_heap_def], of a]]
    arg_cong[where f = defer_time, OF spec[OF assms[unfolded same_but_heap_def], of a]]
    arg_cong[where f = taskState, OF spec[OF assms[unfolded same_but_heap_def], of a]]
  by simp_all

lemma set_heap_fields [simp]:
  "etime (set_heap e i ev a) = etime (ev a)"
  "ts (set_heap e i ev a) = ts (ev a)"
  "eheap (set_heap e i ev a) = (if a = e then i else eheap (ev a))"
  by (simp_all add: set_heap_def)

text \<open>
  What a sifting loop does that starts with a hole at slot \<open>nxt\<close> and carries \<open>e\<close>: it
  permutes the first \<open>n\<close> slots of \<open>h[nxt := e]\<close>, leaves the others alone, and sets
  backpointers only.
\<close>

definition placed ::
  "nat \<Rightarrow> addr \<Rightarrow> addr list \<Rightarrow> EVENTS \<Rightarrow> nat \<Rightarrow> addr list \<Rightarrow> EVENTS \<Rightarrow> bool" where
  "placed n e h ev nxt h' ev' \<longleftrightarrow> length h' = length h
     \<and> mset (take n h') = mset (take n (h[nxt := e])) \<and> drop n h' = drop n h
     \<and> same_but_heap ev ev' \<and> (\<forall>a. a \<notin> set (take n (h[nxt := e])) \<longrightarrow> ev' a = ev a)
     \<and> backptrs n h' ev'"

definition hole_ok :: "nat \<Rightarrow> addr \<Rightarrow> addr list \<Rightarrow> EVENTS \<Rightarrow> nat \<Rightarrow> bool" where
  "hole_ok n e h ev nxt \<longleftrightarrow> nxt < n \<and> n \<le> length h \<and> distinct (take n (h[nxt := e]))
     \<and> (\<forall>i<n. i \<noteq> nxt \<longrightarrow> eheap (ev (h ! i)) = i)"

lemma take_nth_distinct:
  assumes "distinct (take n xs)" "i < n" "j < n" "n \<le> length xs"
  shows "xs ! i = xs ! j \<longleftrightarrow> i = j"
  using assms nth_eq_iff_index_eq[of "take n xs" i j] by simp

lemma hole_ok_neq:
  assumes "hole_ok n e h ev nxt" "i < n" "i \<noteq> nxt"
  shows "h ! i \<noteq> e" and "j < n \<Longrightarrow> j \<noteq> nxt \<Longrightarrow> h ! i = h ! j \<longleftrightarrow> i = j"
proof -
  have *: "distinct (take n (h[nxt := e]))" "nxt < n" "n \<le> length (h[nxt := e])" "nxt < length h"
    using assms(1) by (auto simp: hole_ok_def)
  show "h ! i \<noteq> e"
    using take_nth_distinct[OF *(1) assms(2) *(2,3)] assms(2,3) *(4) by auto
  show "j < n \<Longrightarrow> j \<noteq> nxt \<Longrightarrow> h ! i = h ! j \<longleftrightarrow> i = j"
    using take_nth_distinct[OF *(1) assms(2) _ *(3), of j] assms(3) *(4) by simp
qed

text \<open>Moving the event of slot \<open>q\<close> into the hole makes \<open>q\<close> the hole.\<close>

lemma hole_move:
  assumes "hole_ok n e h ev nxt" "q < n" "q \<noteq> nxt"
  shows "hole_ok n e (h[nxt := h ! q]) (set_heap (h ! q) nxt ev) q"
    and "mset (take n (h[nxt := h ! q, q := e])) = mset (take n (h[nxt := e]))"
proof -
  let ?g = "h[nxt := e]"
  have l: "nxt < n" "n \<le> length h" using assms(1) by (auto simp: hole_ok_def)
  have sw: "h[nxt := h ! q, q := e] = ?g[nxt := ?g ! q, q := ?g ! nxt]"
    using assms(2,3) l by simp
  show m: "mset (take n (h[nxt := h ! q, q := e])) = mset (take n ?g)"
    unfolding sw using assms(2) l by (intro mset_take_swap) auto
  have "distinct (take n (h[nxt := h ! q, q := e]))"
    using assms(1) mset_eq_imp_distinct_iff[OF m] by (simp add: hole_ok_def)
  moreover have "\<forall>i<n. i \<noteq> q \<longrightarrow> eheap (set_heap (h ! q) nxt ev (h[nxt := h ! q] ! i)) = i"
  proof (intro allI impI)
    fix i assume i: "i < n" "i \<noteq> q"
    show "eheap (set_heap (h ! q) nxt ev (h[nxt := h ! q] ! i)) = i"
    proof (cases "i = nxt")
      case True then show ?thesis using l by simp
    next
      case False
      then have "h ! i \<noteq> h ! q" "eheap (ev (h ! i)) = i"
        using hole_ok_neq(2)[OF assms(1) i(1) False assms(2,3)] i assms(1)
        by (auto simp: hole_ok_def)
      then show ?thesis using False by simp
    qed
  qed
  ultimately show "hole_ok n e (h[nxt := h ! q]) (set_heap (h ! q) nxt ev) q"
    using assms(2) l by (simp add: hole_ok_def)
qed

lemma placed_final:
  assumes "hole_ok n e h ev nxt"
  shows "placed n e h ev nxt (h[nxt := e]) (set_heap e nxt ev)"
  using assms hole_ok_neq(1)[OF assms] same_but_heap_set[of ev e nxt]
  by (auto simp: placed_def hole_ok_def backptrs_def nth_list_update set_heap_def
      in_set_conv_nth)

lemma placed_step:
  assumes "hole_ok n e h ev nxt" "q < n" "q \<noteq> nxt"
    and "placed n e (h[nxt := h ! q]) (set_heap (h ! q) nxt ev) q h' ev'"
  shows "placed n e h ev nxt h' ev'"
proof -
  have m: "mset (take n (h[nxt := h ! q, q := e])) = mset (take n (h[nxt := e]))"
    by (rule hole_move(2)[OF assms(1-3)])
  then have s: "set (take n (h[nxt := h ! q, q := e])) = set (take n (h[nxt := e]))"
    by (rule mset_eq_setD)
  have l: "nxt < n" "n \<le> length h" using assms(1) by (auto simp: hole_ok_def)
  have "h ! q \<in> set (take n (h[nxt := e]))"
    using assms(2,3) l by (auto simp: in_set_conv_nth intro!: exI[of _ q])
  then show ?thesis
    using assms(4) m s l
    by (auto simp: placed_def set_heap_def intro: same_but_heap_trans[OF same_but_heap_set])
qed

lemma siftup_loop_placed:
  assumes "hole_ok n e h ev nxt" and "siftup_loop nxt e h ev = (h', ev')"
  shows "placed n e h ev nxt h' ev'"
  using assms
proof (induction nxt e h ev rule: siftup_loop.induct)
  case (1 nxt e h ev)
  show ?case
  proof (cases "0 < nxt \<and> CLESS (etime (ev e)) (etime (ev (h ! PARENT nxt)))")
    case True
    then have p: "PARENT nxt < n" "PARENT nxt \<noteq> nxt"
      using PARENT_less[of nxt] "1.prems"(1) by (auto simp: hole_ok_def)
    show ?thesis
      using True "1.prems" p
      by (intro placed_step[OF "1.prems"(1) p] "1.IH" hole_move(1))
         (simp_all add: siftup_loop.simps[of nxt])
  next
    case False
    then show ?thesis
      using "1.prems" placed_final by (auto simp: siftup_loop.simps[of nxt])
  qed
qed

lemma siftdown_loop_placed:
  assumes "hole_ok n e h ev nxt" and "siftdown_loop n nxt e h ev = (h', ev')"
  shows "placed n e h ev nxt h' ev'"
  using assms
proof (induction n nxt e h ev rule: siftdown_loop.induct)
  case (1 n nxt e h ev)
  let ?c = "MINCHILD h ev n nxt"
  show ?case
  proof (cases "?c < n \<and> CLESS (etime (ev (h ! ?c))) (etime (ev e))")
    case True
    then have c: "?c < n" "?c \<noteq> nxt"
      using MINCHILD_gt[of nxt h ev n] by auto
    show ?thesis
      using True "1.prems" c
      by (intro placed_step[OF "1.prems"(1) c] "1.IH"[OF refl] hole_move(1))
         (simp_all add: siftdown_loop.simps[of n nxt] Let_def)
  next
    case False
    then show ?thesis
      using "1.prems" placed_final by (auto simp: siftdown_loop.simps[of n nxt] Let_def)
  qed
qed

section \<open>Order: no event is due before its parent\<close>

definition heap_ord :: "HeapSelector \<Rightarrow> EVENTS \<Rightarrow> bool" where
  "heap_ord H ev \<longleftrightarrow> (\<forall>i<hcount H. 0 < i \<longrightarrow>
     \<not> CLESS (etime (ev (harr H ! i))) (etime (ev (harr H ! PARENT i))))"

text \<open>All events of the list are due within half the clock's range after \<open>b\<close>.\<close>

definition times_in :: "TIME \<Rightarrow> addr set \<Rightarrow> EVENTS \<Rightarrow> bool" where
  "times_in b A ev \<longleftrightarrow> (\<forall>a\<in>A. in_window b (etime (ev a)))"

definition hord :: "(addr \<Rightarrow> nat) \<Rightarrow> nat \<Rightarrow> addr list \<Rightarrow> bool" where
  "hord k n g \<longleftrightarrow> (\<forall>i<n. 0 < i \<longrightarrow> k (g ! PARENT i) \<le> k (g ! i))"

definition up_inv :: "(addr \<Rightarrow> nat) \<Rightarrow> nat \<Rightarrow> addr list \<Rightarrow> nat \<Rightarrow> bool" where
  "up_inv k n g x \<longleftrightarrow> (\<forall>i<n. 0 < i \<longrightarrow> i \<noteq> x \<longrightarrow> k (g ! PARENT i) \<le> k (g ! i))
     \<and> (\<forall>i<n. 0 < i \<longrightarrow> PARENT i = x \<longrightarrow> 0 < x \<longrightarrow> k (g ! PARENT x) \<le> k (g ! i))"

definition down_inv :: "(addr \<Rightarrow> nat) \<Rightarrow> nat \<Rightarrow> addr list \<Rightarrow> nat \<Rightarrow> bool" where
  "down_inv k n g x \<longleftrightarrow> (\<forall>i<n. 0 < i \<longrightarrow> PARENT i \<noteq> x \<longrightarrow> k (g ! PARENT i) \<le> k (g ! i))
     \<and> (\<forall>i<n. 0 < i \<longrightarrow> PARENT i = x \<longrightarrow> 0 < x \<longrightarrow> k (g ! PARENT x) \<le> k (g ! i))"

lemma PARENT_children: "0 < i \<Longrightarrow> PARENT i = x \<longleftrightarrow> i = LCHILD x \<or> i = RCHILD x"
  by (auto simp: PARENT_def LCHILD_def RCHILD_def)

lemma up_inv_done:
  assumes "up_inv k n g x" and "0 < x \<Longrightarrow> k (g ! PARENT x) \<le> k (g ! x)"
  shows "hord k n g"
  using assms by (auto simp: up_inv_def hord_def)

lemma up_inv_step:
  assumes "up_inv k n (h[x := e]) x" "x < n" "n \<le> length h" "0 < x"
    and lt: "k e < k (h ! PARENT x)"
  shows "up_inv k n (h[x := h ! PARENT x, PARENT x := e]) (PARENT x)"
proof -
  let ?p = "PARENT x" and ?g = "h[x := e]"
  let ?g' = "h[x := h ! ?p, ?p := e]"
  have p: "?p < x" using PARENT_less[OF assms(4)] .
  have g: "?g ! i = (if i = x then e else h ! i)" if "i < n" for i
    using that assms(2,3) by (simp add: nth_list_update)
  have g': "?g' ! i = (if i = ?p then e else if i = x then h ! ?p else h ! i)" if "i < n" for i
    using that assms(2,3) p by (simp add: nth_list_update)
  have par: "PARENT i < n" if "i < n" "0 < i" for i
    using PARENT_less[OF that(2)] that(1) by simp
  have A: "k (?g ! PARENT i) \<le> k (?g ! i)" if "i < n" "0 < i" "i \<noteq> x" for i
    using assms(1) that by (simp add: up_inv_def)
  have B: "k (?g ! ?p) \<le> k (?g ! i)" if "i < n" "0 < i" "PARENT i = x" for i
    using assms(1,4) that by (simp add: up_inv_def)
  have "k (?g' ! PARENT i) \<le> k (?g' ! i)" if i: "i < n" "0 < i" "i \<noteq> ?p" for i
  proof -
    consider "i = x" | "i \<noteq> x" "PARENT i = ?p" | "i \<noteq> x" "PARENT i = x" | "i \<noteq> x" "PARENT i \<noteq> ?p" "PARENT i \<noteq> x"
      by blast
    then show ?thesis
    proof cases
      case 1 then show ?thesis using lt g'[of x] g'[of ?p] p assms(2) by simp
    next
      case 2
      then show ?thesis using lt A[of i] g'[of i] g'[of "PARENT i"] g[of i] g[of ?p] i p assms(2) by simp
    next
      case 3
      then show ?thesis using B[of i] g'[of i] g'[of x] g[of i] g[of ?p] i p assms(2) by simp
    next
      case 4
      then show ?thesis using A[of i] par[OF i(1,2)] g' g i by simp
    qed
  qed
  moreover have "k (?g' ! PARENT ?p) \<le> k (?g' ! i)" if i: "i < n" "0 < i" "PARENT i = ?p" "0 < ?p" for i
  proof -
    have pp: "PARENT ?p < ?p" using PARENT_less[OF i(4)] .
    have "k (h ! PARENT ?p) \<le> k (h ! ?p)"
      using A[of ?p] g[of ?p] g[of "PARENT ?p"] pp p assms(2) i(4) by simp
    moreover have "k (h ! ?p) \<le> k (h ! i)" if "i \<noteq> x"
      using A[of i] that g[of i] g[of ?p] i p assms(2) by simp
    moreover have "i \<noteq> ?p" using PARENT_less[OF i(2)] i(3) by auto
    ultimately show ?thesis
      using g'[of i] g'[of "PARENT ?p"] pp p assms(2) i by (cases "i = x") auto
  qed
  ultimately show ?thesis by (simp add: up_inv_def)
qed

lemma siftup_loop_ord:
  assumes "siftup_loop x e h ev = (h', ev')" "x < n" "n \<le> length h"
    and "\<And>a. k a = tkey b (etime (ev a))" "times_in b (set (take n (h[x := e]))) ev"
    and "distinct (take n (h[x := e]))"
    and "up_inv k n (h[x := e]) x"
  shows "hord k n h'"
  using assms
proof (induction x e h ev rule: siftup_loop.induct)
  case (1 x e h ev)
  have mem: "e \<in> set (take n (h[x := e]))" "\<And>i. i < n \<Longrightarrow> i \<noteq> x \<Longrightarrow> h ! i \<in> set (take n (h[x := e]))"
    using "1.prems"(2,3) by (auto simp: in_set_conv_nth intro: exI[of _ x])
  show ?case
  proof (cases "0 < x")
    case False
    then show ?thesis
      using "1.prems"(1,7) up_inv_done[of k n "h[x := e]" x] by (simp add: siftup_loop.simps[of 0])
  next
    case True
    let ?p = "PARENT x"
    have p: "?p < x" using PARENT_less[OF True] .
    have less: "CLESS (etime (ev e)) (etime (ev (h ! ?p))) \<longleftrightarrow> k e < k (h ! ?p)"
      unfolding "1.prems"(4)
      using "1.prems"(2,5) mem p by (intro CLESS_tkey) (auto simp: times_in_def)
    show ?thesis
    proof (cases "k e < k (h ! ?p)")
      case lt: True
      have m: "mset (take n (h[x := h ! ?p, ?p := e])) = mset (take n (h[x := e]))"
        using "1.prems"(2,3) p mset_take_swap[of x n ?p "h[x := e]"] by simp
      show ?thesis
      proof (rule "1.IH")
        show "0 < x \<and> CLESS (etime (ev e)) (etime (ev (h ! ?p)))"
          using True lt less by simp
        show "siftup_loop ?p e (h[x := h ! ?p]) (set_heap (h ! ?p) x ev) = (h', ev')"
          using "1.prems"(1) True lt less by (simp add: siftup_loop.simps[of x])
        show "times_in b (set (take n (h[x := h ! ?p, ?p := e]))) (set_heap (h ! ?p) x ev)"
          using "1.prems"(5) by (simp add: times_in_def mset_eq_setD[OF m])
        show "distinct (take n (h[x := h ! ?p, ?p := e]))"
          using "1.prems"(6) mset_eq_imp_distinct_iff[OF m] by simp
        show "up_inv k n (h[x := h ! ?p, ?p := e]) ?p"
          by (rule up_inv_step[OF "1.prems"(7,2,3) True lt])
      qed (use "1.prems"(2,3,4) p in auto)
    next
      case False
      then have "h' = h[x := e]"
        using "1.prems"(1) less by (simp add: siftup_loop.simps[of x])
      then show ?thesis
        using False p "1.prems"(2,3) up_inv_done[OF "1.prems"(7)] by simp
    qed
  qed
qed

lemma down_inv_done:
  assumes "down_inv k n g x" and "\<And>i. i < n \<Longrightarrow> 0 < i \<Longrightarrow> PARENT i = x \<Longrightarrow> k (g ! x) \<le> k (g ! i)"
  shows "hord k n g"
  using assms unfolding down_inv_def hord_def by metis

lemma down_inv_step:
  assumes "down_inv k n (h[x := e]) x" "x < n" "n \<le> length h" "c < n" "0 < c" "PARENT c = x"
    and lt: "k (h ! c) < k e"
    and min: "\<And>i. i < n \<Longrightarrow> 0 < i \<Longrightarrow> PARENT i = x \<Longrightarrow> k (h ! c) \<le> k (h ! i)"
  shows "down_inv k n (h[x := h ! c, c := e]) c"
proof -
  let ?g = "h[x := e]" and ?g' = "h[x := h ! c, c := e]"
  have xc: "x < c" using PARENT_less[OF assms(5)] assms(6) by simp
  have g: "?g ! i = (if i = x then e else h ! i)" if "i < n" for i
    using that assms(2,3) by (simp add: nth_list_update)
  have g': "?g' ! i = (if i = c then e else if i = x then h ! c else h ! i)" if "i < n" for i
    using that assms(2-4) xc by (simp add: nth_list_update)
  have par: "PARENT i < n" "PARENT i < i" if "i < n" "0 < i" for i
    using PARENT_less[OF that(2)] that(1) by simp_all
  have A: "k (?g ! PARENT i) \<le> k (?g ! i)" if "i < n" "0 < i" "PARENT i \<noteq> x" for i
    using assms(1) that by (simp add: down_inv_def)
  have B: "k (?g ! PARENT x) \<le> k (?g ! i)" if "i < n" "0 < i" "PARENT i = x" "0 < x" for i
    using assms(1) that by (simp add: down_inv_def)
  have "k (?g' ! PARENT i) \<le> k (?g' ! i)" if i: "i < n" "0 < i" "PARENT i \<noteq> c" for i
  proof (cases "PARENT i = x")
    case True
    then show ?thesis using min[of i] lt g'[of i] g'[of x] i xc assms(2) par[OF i(1,2)] by auto
  next
    case False
    then have "i \<noteq> c" using assms(6) by auto
    show ?thesis
    proof (cases "i = x")
      case True
      then have "PARENT x < x" "0 < x" using par i by auto
      then show ?thesis
        using B[of c] g'[of x] g'[of "PARENT x"] g[of c] g[of "PARENT x"] True i xc assms(2,4,5,6) by simp
    next
      case False
      then show ?thesis using A[OF i(1,2) \<open>PARENT i \<noteq> x\<close>] g' g i par[OF i(1,2)] \<open>i \<noteq> c\<close> \<open>PARENT i \<noteq> x\<close> by simp
    qed
  qed
  moreover have "k (?g' ! PARENT c) \<le> k (?g' ! i)" if i: "i < n" "0 < i" "PARENT i = c" for i
  proof -
    have "k (h ! c) \<le> k (h ! i)"
      using A[of i] i xc g[of i] g[of c] par[OF i(1,2)] assms(4) by simp
    then show ?thesis
      using g'[of x] g'[of i] i xc assms(2,6) par[OF i(1,2)] by simp
  qed
  ultimately show ?thesis by (simp add: down_inv_def)
qed

lemma MINCHILD_min:
  assumes "MINCHILD h ev n x < n" "\<And>a. k a = tkey b (etime (ev a))"
    and "\<And>i. i < n \<Longrightarrow> 0 < i \<Longrightarrow> PARENT i = x \<Longrightarrow> in_window b (etime (ev (h ! i)))"
    and "i < n" "0 < i" "PARENT i = x"
  shows "k (h ! MINCHILD h ev n x) \<le> k (h ! i)"
proof -
  have P: "PARENT (LCHILD x) = x" "PARENT (RCHILD x) = x" "LCHILD x < RCHILD x" "0 < LCHILD x"
    by (simp_all add: PARENT_def LCHILD_def RCHILD_def)
  have i: "i = LCHILD x \<or> i = RCHILD x" using assms(5,6) PARENT_children by blast
  show ?thesis
  proof (cases "RCHILD x < n")
    case True
    then have "CLSE (etime (ev (h ! RCHILD x))) (etime (ev (h ! LCHILD x)))
        \<longleftrightarrow> k (h ! RCHILD x) \<le> k (h ! LCHILD x)"
      unfolding assms(2) using assms(3) P by (intro CLSE_tkey) auto
    then show ?thesis using i True P by (auto simp: MINCHILD_def LCHILD_def RCHILD_def)
  next
    case False
    then show ?thesis using i assms(4) by (auto simp: MINCHILD_def LCHILD_def RCHILD_def)
  qed
qed

lemma siftdown_loop_ord:
  assumes "siftdown_loop n x e h ev = (h', ev')" "x < n" "n \<le> length h"
    and "\<And>a. k a = tkey b (etime (ev a))" "times_in b (set (take n (h[x := e]))) ev"
    and "down_inv k n (h[x := e]) x"
  shows "hord k n h'"
  using assms
proof (induction n x e h ev rule: siftdown_loop.induct)
  case (1 n x e h ev)
  let ?c = "MINCHILD h ev n x"
  have mem: "e \<in> set (take n (h[x := e]))" "\<And>i. i < n \<Longrightarrow> i \<noteq> x \<Longrightarrow> h ! i \<in> set (take n (h[x := e]))"
    using "1.prems"(2,3) by (auto simp: in_set_conv_nth intro: exI[of _ x])
  have w: "in_window b (etime (ev (h ! i)))" if "i < n" "0 < i" "PARENT i = x" for i
    using that PARENT_less[OF that(2)] mem "1.prems"(5) by (auto simp: times_in_def)
  have min: "k (h ! ?c) \<le> k (h ! i)" if "?c < n" "i < n" "0 < i" "PARENT i = x" for i
    by (rule MINCHILD_min[where b = b, OF that(1) "1.prems"(4) w that(2-4)])
  have c: "0 < ?c" "PARENT ?c = x" "?c \<noteq> x"
    by (auto simp: MINCHILD_def PARENT_def LCHILD_def RCHILD_def)
  show ?case
  proof (cases "?c < n \<and> k (h ! ?c) < k e")
    case True
    then have less: "CLESS (etime (ev (h ! ?c))) (etime (ev e))"
      using "1.prems"(4,5) mem(1) w[OF _ c(1,2)] by (subst CLESS_tkey[of b]) (auto simp: times_in_def)
    have m: "mset (take n (h[x := h ! ?c, ?c := e])) = mset (take n (h[x := e]))"
      using "1.prems"(2,3) c(3) True mset_take_swap[of x n ?c "h[x := e]"] by simp
    show ?thesis
    proof (rule "1.IH"[OF refl])
      show "?c < n \<and> CLESS (etime (ev (h ! ?c))) (etime (ev e))"
        using True less by simp
      show "siftdown_loop n ?c e (h[x := h ! ?c]) (set_heap (h ! ?c) x ev) = (h', ev')"
        using "1.prems"(1) True less by (simp add: siftdown_loop.simps[of n x] Let_def)
      show "times_in b (set (take n (h[x := h ! ?c, ?c := e]))) (set_heap (h ! ?c) x ev)"
        using "1.prems"(5) by (simp add: times_in_def mset_eq_setD[OF m])
      show "down_inv k n (h[x := h ! ?c, ?c := e]) ?c"
        using True min
        by (intro down_inv_step[OF "1.prems"(6,2,3) _ c(1,2)]) auto
    qed (use "1.prems"(3,4) True in auto)
  next
    case False
    then have h': "h' = h[x := e]"
      using "1.prems"(1,4,5) mem(1) w[OF _ c(1,2)] CLESS_tkey[of b "etime (ev (h ! ?c))" "etime (ev e)"]
      by (auto simp: siftdown_loop.simps[of n x] Let_def times_in_def split: if_splits)
    have "k e \<le> k (h ! i)" if "i < n" "0 < i" "PARENT i = x" for i
      using False min[OF _ that] that PARENT_children[of i x]
      by (auto simp: MINCHILD_def LCHILD_def RCHILD_def split: if_splits)
    then show ?thesis
      using h' "1.prems"(2,3) down_inv_done[OF "1.prems"(6)]
      by (metis PARENT_less nat_neq_iff nth_list_update order_less_le_trans)
  qed
qed

section \<open>The operations keep structure and order\<close>

lemma take_snoc_update: "n < length h \<Longrightarrow> take (Suc n) (h[n := e]) = take n h @ [e]"
  by (simp add: take_Suc_conv_app_nth)

lemma heap_wf_eheap: "heap_wf H ev \<Longrightarrow> e \<in> set (events_of H) \<Longrightarrow>
    eheap (ev e) < hcount H \<and> harr H ! eheap (ev e) = e"
  by (auto simp: heap_wf_def events_of_def backptrs_def in_set_conv_nth)

lemma events_of_mem:
  assumes "i < hcount H" "hcount H \<le> length (harr H)"
  shows "harr H ! i \<in> set (events_of H)"
  using nth_mem[of i "events_of H"] assms by (simp add: events_of_def)

lemma heap_wf_frame:
  assumes "heap_wf H ev" "\<And>a. a \<in> set (events_of H) \<Longrightarrow> eheap (ev' a) = eheap (ev a)"
  shows "heap_wf H ev'"
proof -
  have "harr H ! i \<in> set (events_of H)" if "i < hcount H" for i
    using that assms(1) by (intro events_of_mem) (simp_all add: heap_wf_def)
  then show ?thesis using assms by (auto simp: heap_wf_def backptrs_def)
qed

lemma CKsiftup_ok:
  assumes "heap_wf H ev" "e \<notin> set (events_of H)" "hcount H < MAXEVENTS"
  shows "\<exists>H' ev'. CKsiftup e (H, ev) = Some (H', ev') \<and> heap_wf H' ev'
    \<and> hcount H' = Suc (hcount H)
    \<and> mset (events_of H') = add_mset e (mset (events_of H))
    \<and> same_but_heap ev ev' \<and> (\<forall>a. a \<notin> set (events_of H') \<longrightarrow> ev' a = ev a)"
proof -
  let ?n = "hcount H" and ?h = "harr H"
  obtain h' ev' where r: "siftup_loop ?n e ?h ev = (h', ev')" by fastforce
  have l: "?n < length ?h" using assms by (simp add: heap_wf_def)
  have t: "take (Suc ?n) (?h[?n := e]) = events_of H @ [e]"
    using take_snoc_update[OF l] by (simp add: events_of_def)
  have ho: "hole_ok (Suc ?n) e ?h ev ?n"
    using assms l t by (auto simp: hole_ok_def heap_wf_def backptrs_def less_Suc_eq)
  have pl: "placed (Suc ?n) e ?h ev ?n h' ev'"
    by (rule siftup_loop_placed[OF ho r])
  let ?H' = "H\<lparr>harr := h', hcount := Suc ?n\<rparr>"
  have m: "mset (events_of ?H') = add_mset e (mset (events_of H))"
    using pl t by (simp add: placed_def events_of_def)
  have "distinct (events_of ?H')"
    using mset_eq_imp_distinct_iff[of "events_of ?H'" "events_of H @ [e]"] m assms
    by (simp add: heap_wf_def)
  then have "heap_wf ?H' ev'"
    using pl assms(1,3) by (simp add: heap_wf_def placed_def)
  moreover have "set (events_of ?H') = set (take (Suc ?n) (?h[?n := e]))"
    unfolding t by (rule mset_eq_setD) (simp add: m)
  then have "\<forall>a. a \<notin> set (events_of ?H') \<longrightarrow> ev' a = ev a"
    using pl unfolding placed_def by metis
  moreover have "same_but_heap ev ev'"
    using pl unfolding placed_def by metis
  moreover have "CKsiftup e (H, ev) = Some (?H', ev')"
    using r assms(3) by (simp add: CKsiftup_def)
  ultimately have "CKsiftup e (H, ev) = Some (?H', ev') \<and> heap_wf ?H' ev'
      \<and> hcount ?H' = Suc ?n \<and> mset (events_of ?H') = add_mset e (mset (events_of H))
      \<and> same_but_heap ev ev' \<and> (\<forall>a. a \<notin> set (events_of ?H') \<longrightarrow> ev' a = ev a)"
    using m by simp
  then show ?thesis by blast
qed

lemma heap_ord_hord:
  assumes "times_in b (set (events_of H)) ev" "hcount H \<le> length (harr H)"
  shows "heap_ord H ev \<longleftrightarrow> hord (\<lambda>a. tkey b (etime (ev a))) (hcount H) (harr H)"
proof -
  have w: "in_window b (etime (ev (harr H ! i)))" if "i < hcount H" for i
    using events_of_mem[OF that assms(2)] assms(1) by (simp add: times_in_def)
  have "CLESS (etime (ev (harr H ! i))) (etime (ev (harr H ! PARENT i)))
      \<longleftrightarrow> tkey b (etime (ev (harr H ! i))) < tkey b (etime (ev (harr H ! PARENT i)))"
    if "i < hcount H" "0 < i" for i
    using that PARENT_less[of i] by (intro CLESS_tkey w) simp_all
  then show ?thesis by (auto simp: heap_ord_def hord_def not_less)
qed

lemma CKsiftup_ord:
  assumes "heap_wf H ev" "e \<notin> set (events_of H)" "heap_ord H ev"
    and "times_in b (insert e (set (events_of H))) ev"
    and "CKsiftup e (H, ev) = Some (H', ev')"
  shows "heap_ord H' ev'"
proof -
  let ?n = "hcount H" and ?h = "harr H"
  have lt: "?n < MAXEVENTS" using assms(5) by (auto simp: CKsiftup_def Let_def split: if_splits)
  obtain h'' ev'' where r: "siftup_loop ?n e ?h ev = (h'', ev'')" by fastforce
  have H': "H' = H\<lparr>harr := h'', hcount := Suc ?n\<rparr>" "ev'' = ev'"
    using assms(5) r lt by (auto simp: CKsiftup_def)
  have l: "?n < length ?h" using assms(1) lt by (simp add: heap_wf_def)
  have t: "take (Suc ?n) (?h[?n := e]) = events_of H @ [e]"
    using take_snoc_update[OF l] by (simp add: events_of_def)
  let ?k = "\<lambda>a. tkey b (etime (ev a))"
  have ho: "hord ?k ?n ?h"
    using assms(1,3,4) heap_ord_hord[of b H ev] l by (simp add: times_in_def)
  have up: "up_inv ?k (Suc ?n) (?h[?n := e]) ?n"
  proof -
    have "?k (?h[?n := e] ! PARENT i) \<le> ?k (?h[?n := e] ! i)" if "i < Suc ?n" "0 < i" "i \<noteq> ?n" for i
      using that ho PARENT_less[of i] by (simp add: hord_def)
    moreover have "\<not> (PARENT i = ?n \<and> 0 < i \<and> i < Suc ?n)" for i
      using PARENT_less[of i] by auto
    ultimately show ?thesis by (auto simp: up_inv_def)
  qed
  have "hord ?k (Suc ?n) h''"
    using assms(1,2,4) l t up by (intro siftup_loop_ord[OF r]) (auto simp: heap_wf_def)
  moreover obtain H2 ev2 where ok: "CKsiftup e (H, ev) = Some (H2, ev2)"
    "mset (events_of H2) = add_mset e (mset (events_of H))" "same_but_heap ev ev2" "heap_wf H2 ev2"
    using CKsiftup_ok[OF assms(1,2) lt] by blast
  moreover from ok have "set (events_of H2) = insert e (set (events_of H))"
    using mset_eq_setD[of "events_of H2" "e # events_of H"] by simp
  ultimately show ?thesis
    using assms(4,5) H' heap_ord_hord[of b H' ev'] same_but_heap_fields(1)[of ev ev']
    by (auto simp: times_in_def heap_wf_def)
qed

subsection \<open>Removing an event\<close>

lemma CKremoveEvent_unfold:
  assumes "heap_wf H ev" "e \<in> set (events_of H)"
  defines "x \<equiv> eheap (ev e)" and "n \<equiv> hcount H - 1"
  shows "CKremoveEvent x (H, ev) =
    (let (h, ev') = siftdown_loop n x (harr H ! n) ((harr H)[x := harr H ! n])
           (set_heap (harr H ! n) x ev)
     in Some (H\<lparr>harr := h, hcount := n\<rparr>, ev'))"
proof -
  have "x < hcount H" "hcount H \<le> length (harr H)" "hcount H \<le> MAXEVENTS"
    using heap_wf_eheap[OF assms(1,2)] assms(1) by (auto simp: heap_wf_def x_def)
  then show ?thesis
    by (auto simp: CKremoveEvent_def n_def Let_def split: prod.splits)
qed

lemma remove_last_mset:
  assumes "x < n" "n < length h" "distinct (take (Suc n) h)"
  shows "mset (take n (h[x := h ! n])) = mset (take (Suc n) h) - {#h ! x#}"
    and "distinct (take n (h[x := h ! n]))"
proof -
  have t: "take (Suc n) h = take n h @ [h ! n]"
    using assms(2) by (simp add: take_Suc_conv_app_nth)
  have mem: "h ! x \<in># mset (take n h)"
    using nth_mem[of x "take n h"] assms(1,2) by simp
  have "mset (take n (h[x := h ! n])) = add_mset (h ! n) (mset (take n h) - {#h ! x#})"
    using assms(1,2) by (intro mset_take_list_update) simp_all
  also have "\<dots> = add_mset (h ! n) (mset (take n h)) - {#h ! x#}"
    using mem by simp
  finally show m: "mset (take n (h[x := h ! n])) = mset (take (Suc n) h) - {#h ! x#}"
    by (simp add: t)
  have "mset (take n (h[x := h ! n])) + {#h ! x#} = mset (take (Suc n) h)"
    using m mem t by simp
  then have "distinct (h ! x # take n (h[x := h ! n]))"
    using mset_eq_imp_distinct_iff[of "h ! x # take n (h[x := h ! n])" "take (Suc n) h"] assms(3)
    by simp
  then show "distinct (take n (h[x := h ! n]))" by simp
qed

lemma siftdown_loop_stop:
  "n \<le> x \<Longrightarrow> siftdown_loop n x e h ev = (h[x := e], set_heap e x ev)"
  using MINCHILD_gt[of x h ev n] by (simp add: siftdown_loop.simps[of n x] Let_def)

lemma set_heap_same: "eheap (ev e) = i \<Longrightarrow> set_heap e i ev = ev"
  by (cases "ev e") (auto simp: set_heap_def)

lemma CKremoveEvent_ok:
  assumes wf: "heap_wf H ev" and e: "e \<in> set (events_of H)"
  shows "\<exists>H' ev'. CKremoveEvent (eheap (ev e)) (H, ev) = Some (H', ev') \<and> heap_wf H' ev'
    \<and> hcount H' = hcount H - 1
    \<and> mset (events_of H') = mset (events_of H) - {#e#}
    \<and> same_but_heap ev ev' \<and> (\<forall>a. a \<notin> set (events_of H') \<longrightarrow> ev' a = ev a)"
proof -
  let ?x = "eheap (ev e)" and ?n = "hcount H - 1" and ?h = "harr H"
  let ?top = "?h ! ?n"
  have x: "?x < hcount H" "?h ! ?x = e" using heap_wf_eheap[OF assms] by auto
  have l: "Suc ?n = hcount H" "?n < length ?h" "length ?h = MAXEVENTS" "hcount H \<le> MAXEVENTS"
    using x(1) wf by (auto simp: heap_wf_def)
  have d: "distinct (take (Suc ?n) ?h)" using wf l by (simp add: heap_wf_def events_of_def)
  have bp: "eheap (ev (?h ! i)) = i" if "i < Suc ?n" for i
    using wf that l(1) by (simp add: heap_wf_def backptrs_def)
  obtain h' ev' where r: "siftdown_loop ?n ?x ?top (?h[?x := ?top]) (set_heap ?top ?x ev) = (h', ev')"
    by fastforce
  let ?H' = "H\<lparr>harr := h', hcount := ?n\<rparr>"
  have eq: "CKremoveEvent ?x (H, ev) = Some (?H', ev')"
    using CKremoveEvent_unfold[OF assms] r by simp
  have "heap_wf ?H' ev' \<and> mset (events_of ?H') = mset (events_of H) - {#e#}
     \<and> same_but_heap ev ev' \<and> (\<forall>a. a \<notin> set (events_of ?H') \<longrightarrow> ev' a = ev a)"
  proof (cases "?x = ?n")
    case True
    then have top: "?top = e" using x by simp
    have "siftdown_loop ?n ?x ?top (?h[?x := ?top]) (set_heap ?top ?x ev) = (?h, ev)"
      unfolding siftdown_loop_stop[OF eq_refl[OF True[symmetric]]]
      using x top list_update_id[of ?h ?x] by (simp add: set_heap_same)
    then have h': "h' = ?h" and ev': "ev' = ev"
      using r by simp_all
    have t: "take (Suc ?n) ?h = take ?n ?h @ [e]"
      unfolding top[symmetric] by (rule take_Suc_conv_app_nth[OF l(2)])
    then have "events_of H = events_of ?H' @ [e]"
      using h' l by (simp add: events_of_def)
    then show ?thesis
      using wf h' ev' l by (auto simp: heap_wf_def backptrs_def)
  next
    case False
    then have xn: "?x < ?n" using x l by simp
    let ?h1 = "?h[?x := ?top]"
    note m = remove_last_mset[OF xn l(2) d]
    have "eheap (set_heap ?top ?x ev (?h1 ! i)) = i" if i: "i < ?n" "i \<noteq> ?x" for i
    proof -
      have "?h ! i \<noteq> ?top"
        using take_nth_distinct[OF d, of i ?n] i l by auto
      then show ?thesis using bp[of i] i by simp
    qed
    then have ho: "hole_ok ?n ?top ?h1 (set_heap ?top ?x ev) ?x"
      using m(2) xn l by (simp add: hole_ok_def)
    have pl: "placed ?n ?top ?h1 (set_heap ?top ?x ev) ?x h' ev'"
      by (rule siftdown_loop_placed[OF ho r])
    have m': "mset (events_of ?H') = mset (take ?n ?h1)"
      using pl unfolding placed_def by (simp add: events_of_def)
    have s': "set (events_of ?H') = set (take ?n ?h1)"
      using m' by (rule mset_eq_setD)
    have "?h1 ! ?x \<in> set (take ?n ?h1)"
      using nth_mem[of ?x "take ?n ?h1"] xn l by simp
    then have top_in: "?top \<in> set (events_of ?H')" using s' xn l by simp
    have "ev' a = ev a" if "a \<notin> set (events_of ?H')" for a
    proof -
      have "ev' a = set_heap ?top ?x ev a"
        using pl that s' unfolding placed_def by simp
      then show ?thesis using that top_in by (auto simp: set_heap_def)
    qed
    moreover have "same_but_heap ev ev'"
      using pl same_but_heap_trans[OF same_but_heap_set] unfolding placed_def by blast
    moreover have "distinct (events_of ?H')"
      using mset_eq_imp_distinct_iff[OF m'] m(2) by simp
    moreover have "mset (events_of ?H') = mset (events_of H) - {#e#}"
      using m' m(1) x(2) l(1) by (simp add: events_of_def)
    moreover have "length h' = MAXEVENTS" "backptrs ?n h' ev'"
      using pl l(3) unfolding placed_def by simp_all
    ultimately show ?thesis using l(4) by (simp add: heap_wf_def)
  qed
  then show ?thesis using eq by auto
qed

text \<open>
  The loop of \<open>CKremoveEvent\<close> only moves the replacement down. So the order survives exactly
  when the last event, which takes the freed slot, is not due before that slot's parent.
\<close>

lemma CKremoveEvent_ord_iff:
  assumes wf: "heap_wf H ev" and e: "e \<in> set (events_of H)" and ho: "heap_ord H ev"
    and tm: "times_in b (set (events_of H)) ev"
    and rm: "CKremoveEvent (eheap (ev e)) (H, ev) = Some (H', ev')"
  defines "x \<equiv> eheap (ev e)" and "n \<equiv> hcount H - 1"
  shows "heap_ord H' ev' \<longleftrightarrow> x = 0 \<or> x = n
     \<or> \<not> CLESS (etime (ev (harr H ! n))) (etime (ev (harr H ! PARENT x)))"
proof -
  let ?h = "harr H" and ?k = "\<lambda>a. tkey b (etime (ev a))"
  let ?top = "?h ! n"
  let ?g = "?h[x := ?top]"
  have x: "x < hcount H" "?h ! x = e" using heap_wf_eheap[OF wf e] by (auto simp: x_def)
  have l: "Suc n = hcount H" "n < length ?h" "hcount H \<le> length ?h"
    using x(1) wf by (auto simp: heap_wf_def n_def)
  obtain h' ev2 where r: "siftdown_loop n x ?top ?g (set_heap ?top x ev) = (h', ev2)"
    by fastforce
  have H': "H' = H\<lparr>harr := h', hcount := n\<rparr>" "ev2 = ev'"
    using rm CKremoveEvent_unfold[OF wf e] r by (simp_all add: x_def n_def)
  obtain H2 ev3 where ok: "CKremoveEvent (eheap (ev e)) (H, ev) = Some (H2, ev3)" "heap_wf H2 ev3"
      "mset (events_of H2) = mset (events_of H) - {#e#}" "same_but_heap ev ev3"
    using CKremoveEvent_ok[OF wf e] by blast
  have sub: "set (events_of H') \<subseteq> set (events_of H)"
    using ok(1,3) rm by (metis in_diffD option.inject prod.inject set_mset_mset subsetI)
  have et: "etime (ev' a) = etime (ev a)" for a
    using ok(1,4) rm same_but_heap_fields(1)[of ev ev'] by simp
  have tm': "times_in b (set (events_of H')) ev'"
    using tm sub by (auto simp: times_in_def et)
  have w: "in_window b (etime (ev (?h ! i)))" if "i < hcount H" for i
    using events_of_mem[OF that l(3)] tm by (simp add: times_in_def)
  have old: "?k (?h ! PARENT i) \<le> ?k (?h ! i)" if "i < hcount H" "0 < i" for i
    using that ho heap_ord_hord[OF tm l(3)] by (simp add: hord_def)
  have "length (harr H') = length ?h"
    using ok(1,2) rm wf by (simp add: heap_wf_def)
  then have "heap_ord H' ev' \<longleftrightarrow> hord (\<lambda>a. tkey b (etime (ev' a))) (hcount H') (harr H')"
    using l H' by (intro heap_ord_hord[OF tm']) simp
  then have iff: "heap_ord H' ev' \<longleftrightarrow> hord ?k n h'"
    using H' by (simp add: et)
  show ?thesis
  proof (cases "x < n")
    case False
    then have "x = n" using x l by simp
    then have "h' = ?h"
      using r siftdown_loop_stop[of n x] by simp
    then show ?thesis using iff old l \<open>x = n\<close> by (simp add: hord_def)
  next
    case xn: True
    have g: "?g ! i = (if i = x then ?top else ?h ! i)" if "i < n" for i
      using that xn l by (simp add: nth_list_update)
    have par: "PARENT i < i" "PARENT i < n" if "0 < i" "i < n" for i
      using PARENT_less[OF that(1)] that(2) by simp_all
    have cmp: "CLESS (etime (ev ?top)) (etime (ev (?h ! PARENT x))) \<longleftrightarrow> ?k ?top < ?k (?h ! PARENT x)"
      if "0 < x"
      using that par[of x] xn l by (intro CLESS_tkey w) simp_all
    have D: "?k (?g ! PARENT i) \<le> ?k (?g ! i)" if "i < n" "0 < i" "i \<noteq> x" "PARENT i \<noteq> x" for i
      using that g par[of i] old[of i] l by simp
    have G: "?k (?g ! PARENT x) \<le> ?k (?g ! i)" if "i < n" "0 < i" "PARENT i = x" "0 < x" for i
      using that g[of i] g[of "PARENT x"] par[of i] par[of x] old[of i] old[of x] xn l by simp
    show ?thesis
    proof (cases "x = 0 \<or> ?k (?h ! PARENT x) \<le> ?k ?top")
      case True
      have "?k (?g ! PARENT i) \<le> ?k (?g ! i)" if "i < n" "0 < i" "PARENT i \<noteq> x" for i
      proof (cases "i = x")
        case False then show ?thesis using D that by simp
      next
        case i: True
        then show ?thesis using True that g[of x] g[of "PARENT x"] par[of x] by simp
      qed
      then have "down_inv ?k n (?g[x := ?top]) x"
        using G by (simp add: down_inv_def)
      moreover have "times_in b (set (take n ?g)) (set_heap ?top x ev)"
        unfolding times_in_def
      proof
        fix a assume "a \<in> set (take n ?g)"
        then obtain i where "i < n" "a = ?g ! i"
          by (auto simp: in_set_conv_nth)
        then show "in_window b (etime (set_heap ?top x ev a))"
          using w[of i] w[of n] g[of i] l by (auto split: if_splits)
      qed
      ultimately have "hord ?k n h'"
        using xn l by (intro siftdown_loop_ord[OF r]) simp_all
      moreover have "x = 0 \<or> \<not> CLESS (etime (ev ?top)) (etime (ev (?h ! PARENT x)))"
        using True cmp by auto
      ultimately show ?thesis using iff by blast
    next
      case False
      then have x0: "0 < x" and lt: "?k ?top < ?k (?h ! PARENT x)" by auto
      let ?c = "MINCHILD ?g (set_heap ?top x ev) n x"
      have "h' = ?g"
      proof (rule ccontr)
        assume "h' \<noteq> ?g"
        then have c: "?c < n" "CLESS (etime (ev (?g ! ?c))) (etime (ev ?top))"
          using r by (auto simp: siftdown_loop.simps[of n x] Let_def split: if_splits)
        have cx: "0 < ?c" "PARENT ?c = x" "?c \<noteq> x"
          by (auto simp: MINCHILD_def PARENT_def LCHILD_def RCHILD_def)
        have "?k (?g ! ?c) < ?k ?top"
          using c cx CLESS_tkey[OF w w, of ?c n] g[of ?c] l by simp
        moreover have "?k (?h ! x) \<le> ?k (?h ! ?c)" "?k (?h ! PARENT x) \<le> ?k (?h ! x)"
          using old[of ?c] old[of x] c(1) cx x0 x l by simp_all
        ultimately show False using lt g[of ?c] c(1) cx by simp
      qed
      then have "\<not> hord ?k n h'"
        using lt x0 xn g[of x] g[of "PARENT x"] par[of x] by (auto simp: hord_def intro!: exI[of _ x])
      then show ?thesis using iff cmp[OF x0] lt x0 xn by simp
    qed
  qed
qed

subsection \<open>Sifting the root down, and prioritising\<close>

lemma CKsiftdown_ok:
  assumes wf: "heap_wf H ev" and n: "0 < hcount H"
    and r: "CKsiftdown (H, ev) = (H', ev')"
  shows "heap_wf H' ev' \<and> hcount H' = hcount H \<and> mset (events_of H') = mset (events_of H)
    \<and> same_but_heap ev ev' \<and> (\<forall>a. a \<notin> set (events_of H) \<longrightarrow> ev' a = ev a)"
proof -
  let ?n = "hcount H" and ?h = "harr H"
  obtain h' ev2 where l: "siftdown_loop ?n 0 (?h ! 0) ?h ev = (h', ev2)" by fastforce
  have H': "H' = H\<lparr>harr := h'\<rparr>" "ev2 = ev'" using r l by (simp_all add: CKsiftdown_def)
  have ho: "hole_ok ?n (?h ! 0) ?h ev 0"
    using wf n by (simp add: hole_ok_def heap_wf_def events_of_def backptrs_def)
  have "placed ?n (?h ! 0) ?h ev 0 h' ev'"
    using siftdown_loop_placed[OF ho l] H'(2) by simp
  then have pl: "length h' = length ?h" "mset (take ?n h') = mset (take ?n ?h)" "same_but_heap ev ev'"
      "\<forall>a. a \<notin> set (take ?n ?h) \<longrightarrow> ev' a = ev a" "backptrs ?n h' ev'"
    unfolding placed_def by simp_all
  have "distinct (take ?n h')"
    using mset_eq_imp_distinct_iff[OF pl(2)] wf by (simp add: heap_wf_def events_of_def)
  then show ?thesis
    using pl wf H' by (simp add: heap_wf_def events_of_def)
qed

text \<open>The order is restored when only the root may be due too late.\<close>

lemma CKsiftdown_ord:
  assumes wf: "heap_wf H ev" and n: "0 < hcount H"
    and below: "\<And>i. i < hcount H \<Longrightarrow> 0 < i \<Longrightarrow> PARENT i \<noteq> 0 \<Longrightarrow>
       \<not> CLESS (etime (ev (harr H ! i))) (etime (ev (harr H ! PARENT i)))"
    and tm: "times_in b (set (events_of H)) ev"
    and r: "CKsiftdown (H, ev) = (H', ev')"
  shows "heap_ord H' ev'"
proof -
  let ?n = "hcount H" and ?h = "harr H" and ?k = "\<lambda>a. tkey b (etime (ev a))"
  obtain h' ev2 where l: "siftdown_loop ?n 0 (?h ! 0) ?h ev = (h', ev2)" by fastforce
  have H': "H' = H\<lparr>harr := h'\<rparr>" "ev2 = ev'" using r l by (simp_all add: CKsiftdown_def)
  have len: "?n \<le> length ?h" using wf by (simp add: heap_wf_def)
  have w: "in_window b (etime (ev (?h ! i)))" if "i < ?n" for i
    using events_of_mem[OF that len] tm by (simp add: times_in_def)
  have "?k (?h ! PARENT i) \<le> ?k (?h ! i)" if "i < ?n" "0 < i" "PARENT i \<noteq> 0" for i
    using below[OF that] CLESS_tkey[OF w w, of i "PARENT i"] that PARENT_less[of i] by simp
  then have "hord ?k ?n h'"
    using tm n len by (intro siftdown_loop_ord[OF l]) (auto simp: down_inv_def events_of_def)
  moreover note ok = CKsiftdown_ok[OF wf n r]
  moreover have "etime (ev' a) = etime (ev a)" for a
    using ok same_but_heap_fields(1) by blast
  moreover have "times_in b (set (events_of H')) ev'"
    using ok tm mset_eq_setD[of "events_of H'" "events_of H"] calculation(3) by (simp add: times_in_def)
  ultimately show ?thesis
    using H' heap_ord_hord[of b H' ev'] by (simp add: heap_wf_def)
qed

lemma CKprioritise_ok:
  assumes wf: "heap_wf H ev" and e: "e \<in> set (events_of H)" and ts: "ts (ev e) = ts_Running"
  shows "\<exists>H' ev'. CKprioritise e (H, ev) = Some (H', ev') \<and> heap_wf H' ev'
    \<and> hcount H' = hcount H \<and> mset (events_of H') = mset (events_of H)
    \<and> same_but_heap (ev(e := (ev e)\<lparr>etime := CKgetNextTime H ev\<rparr>)) ev' \<and> (\<forall>a. a \<notin> set (events_of H) \<longrightarrow> ev' a = ev a)"
proof -
  let ?n = "hcount H" and ?h = "harr H" and ?x = "eheap (ev e)"
  let ?ev1 = "ev(e := (ev e)\<lparr>etime := CKgetNextTime H ev\<rparr>)"
  obtain h' ev' where l: "siftup_loop ?x e ?h ?ev1 = (h', ev')" by fastforce
  have x: "?x < ?n" "?h ! ?x = e" using heap_wf_eheap[OF wf e] by auto
  have bp: "\<And>a. eheap (?ev1 a) = eheap (ev a)" by simp
  have ho: "hole_ok ?n e ?h ?ev1 ?x"
    using wf x list_update_id[of ?h ?x] bp
    by (simp add: hole_ok_def heap_wf_def events_of_def backptrs_def)
  have "placed ?n e ?h ?ev1 ?x h' ev'"
    by (rule siftup_loop_placed[OF ho l])
  then have pl: "length h' = length ?h" "mset (take ?n h') = mset (take ?n ?h)" "same_but_heap ?ev1 ev'"
      "\<forall>a. a \<notin> set (take ?n ?h) \<longrightarrow> ev' a = ?ev1 a" "backptrs ?n h' ev'"
    unfolding placed_def using x list_update_id[of ?h ?x] by simp_all
  have "distinct (take ?n h')"
    using mset_eq_imp_distinct_iff[OF pl(2)] wf by (simp add: heap_wf_def events_of_def)
  moreover have "\<forall>a. a \<notin> set (events_of H) \<longrightarrow> ev' a = ev a"
    using pl(4) e by (auto simp: events_of_def)
  moreover have "CKprioritise e (H, ev) = Some (H\<lparr>harr := h'\<rparr>, ev')"
    using l ts x wf by (simp add: CKprioritise_def heap_wf_def)
  ultimately show ?thesis
    using pl wf by (intro exI[of _ "H\<lparr>harr := h'\<rparr>"] exI[of _ ev']) (simp add: heap_wf_def events_of_def)
qed

lemma CKprioritise_ord:
  assumes wf: "heap_wf H ev" and e: "e \<in> set (events_of H)" and ts: "ts (ev e) = ts_Running"
    and ord: "heap_ord H ev" and tm: "times_in b (set (events_of H)) ev"
    and p: "CKprioritise e (H, ev) = Some (H', ev')"
  shows "heap_ord H' ev'"
proof -
  let ?n = "hcount H" and ?h = "harr H" and ?x = "eheap (ev e)"
  let ?ev1 = "ev(e := (ev e)\<lparr>etime := CKgetNextTime H ev\<rparr>)"
  let ?ko = "\<lambda>a. tkey b (etime (ev a))" and ?k = "\<lambda>a. tkey b (etime (?ev1 a))"
  obtain h' ev2 where l: "siftup_loop ?x e ?h ?ev1 = (h', ev2)" by fastforce
  have x: "?x < ?n" "?h ! ?x = e" using heap_wf_eheap[OF wf e] by auto
  have len: "?n \<le> length ?h" "?x < MAXEVENTS" using wf x by (simp_all add: heap_wf_def)
  have H': "H' = H\<lparr>harr := h'\<rparr>" "ev2 = ev'"
    using p l ts len by (simp_all add: CKprioritise_def)
  have w: "in_window b (etime (ev (?h ! i)))" if "i < ?n" for i
    using events_of_mem[OF that len(1)] tm by (simp add: times_in_def)
  have old: "?ko (?h ! PARENT i) \<le> ?ko (?h ! i)" if "i < ?n" "0 < i" for i
    using that ord heap_ord_hord[OF tm len(1)] by (simp add: hord_def)
  have root: "?ko (?h ! 0) \<le> ?ko (?h ! i)" if "i < ?n" for i
    using that
  proof (induction i rule: less_induct)
    case (less i)
    show ?case
    proof (cases "i = 0")
      case False
      then show ?thesis using less.IH[of "PARENT i"] PARENT_less[of i] old[of i] less.prems by force
    qed simp
  qed
  have ke: "?k e = ?ko (?h ! 0)" by (simp add: CKgetNextTime_def CKgetNextEvent_def)
  have kne: "?k (?h ! i) = ?ko (?h ! i)" if "i < ?n" "i \<noteq> ?x" for i
    using that take_nth_distinct[of ?n ?h i ?x] wf x len by (simp add: heap_wf_def events_of_def)
  have par: "PARENT i < i" "PARENT i < ?n" if "0 < i" "i < ?n" for i
    using PARENT_less[OF that(1)] that(2) by simp_all
  have up: "up_inv ?k ?n ?h ?x"
    unfolding up_inv_def
  proof (intro conjI allI impI)
    fix i assume i: "i < ?n" "0 < i" "i \<noteq> ?x"
    show "?k (?h ! PARENT i) \<le> ?k (?h ! i)"
    proof (cases "PARENT i = ?x")
      case True then show ?thesis using ke x root[OF i(1)] kne[OF i(1,3)] by simp
    next
      case False
      show ?thesis
        unfolding kne[OF i(1,3)] kne[OF par(2)[OF i(2,1)] False] by (rule old[OF i(1,2)])
    qed
  next
    fix i assume i: "i < ?n" "0 < i" "PARENT i = ?x" "0 < ?x"
    then show "?k (?h ! PARENT ?x) \<le> ?k (?h ! i)"
      using kne[of i] kne[of "PARENT ?x"] par[of i] par[of ?x] old[of i] old[of ?x] x by simp
  qed
  have tm1: "times_in b (set (events_of H)) ?ev1"
    using tm w[of 0] x by (auto simp: times_in_def CKgetNextTime_def CKgetNextEvent_def)
  have id: "?h[?x := e] = ?h" using x list_update_id[of ?h ?x] by simp
  have "hord ?k ?n h'"
    using x len tm1 up wf
    by (intro siftup_loop_ord[OF l]) (simp_all add: id events_of_def heap_wf_def)
  moreover obtain H2 ev3 where ok: "CKprioritise e (H, ev) = Some (H2, ev3)" "heap_wf H2 ev3"
      "mset (events_of H2) = mset (events_of H)"
    using CKprioritise_ok[OF wf e ts] by blast
  moreover have bp: "\<And>a. eheap (?ev1 a) = eheap (ev a)" by simp
  have ho: "hole_ok ?n e ?h ?ev1 ?x"
    using wf x id bp by (simp add: hole_ok_def heap_wf_def events_of_def backptrs_def)
  have et: "etime (ev' a) = etime (?ev1 a)" for a
    using siftup_loop_placed[OF ho l] H'(2) same_but_heap_fields(1)[of ?ev1 ev']
    unfolding placed_def by blast
  moreover have "set (events_of H') = set (events_of H)"
    using ok p mset_eq_setD[of "events_of H2" "events_of H"] by simp
  then have "times_in b (set (events_of H')) ev'"
    using tm1 unfolding times_in_def et by simp
  moreover have "hcount H' = ?n" "harr H' = h'" "hcount H' \<le> length (harr H')"
    using H' ok p wf by (auto simp: heap_wf_def)
  ultimately show ?thesis
    using heap_ord_hord[of b H' ev'] by (simp only: et)
qed

text \<open>In an ordered heap the root is due first: \<open>CKgetNextEvent\<close> is the next event.\<close>

lemma heap_root_min:
  assumes wf: "heap_wf H ev" and ord: "heap_ord H ev" and tm: "times_in b (set (events_of H)) ev"
    and a: "a \<in> set (events_of H)"
  shows "\<not> CLESS (etime (ev a)) (CKgetNextTime H ev)" and "CKgetNextEvent H \<in> set (events_of H)"
proof -
  let ?k = "\<lambda>a. tkey b (etime (ev a))" and ?h = "harr H"
  have len: "hcount H \<le> length ?h" using wf by (simp add: heap_wf_def)
  have root: "?k (?h ! 0) \<le> ?k (?h ! i)" if "i < hcount H" for i
    using that
  proof (induction i rule: less_induct)
    case (less i)
    then show ?case
      using less.IH[of "PARENT i"] PARENT_less[of i] ord heap_ord_hord[OF tm len]
      by (cases "i = 0") (force simp: hord_def)+
  qed
  obtain i where i: "i < hcount H" "a = ?h ! i"
    using a by (auto simp: events_of_def in_set_conv_nth)
  show m: "CKgetNextEvent H \<in> set (events_of H)"
    using events_of_mem[of 0 H] i len by (simp add: CKgetNextEvent_def)
  show "\<not> CLESS (etime (ev a)) (CKgetNextTime H ev)"
    using root[OF i(1)] i(2) tm m a CLESS_tkey[of b "etime (ev a)" "CKgetNextTime H ev"]
    by (simp add: times_in_def CKgetNextTime_def CKgetNextEvent_def)
qed

section \<open>The interface of an event heap\<close>

text \<open>
  What the scheduler relies on: an event goes in while there is room, an event that is in
  comes out through its backpointer, neither touches anything of an event but the
  backpointer, and neither touches events outside the heap. The scheduler has a family of
  heaps over one event store; the laws for the family follow.
\<close>

locale event_heap =
  fixes ins :: "addr \<Rightarrow> 'h \<times> EVENTS \<Rightarrow> ('h \<times> EVENTS) option"
    and del :: "nat \<Rightarrow> 'h \<times> EVENTS \<Rightarrow> ('h \<times> EVENTS) option"
    and elems :: "'h \<Rightarrow> addr list"
    and wf :: "'h \<Rightarrow> EVENTS \<Rightarrow> bool"
    and cap :: nat
  assumes ins_ok: "wf H ev \<Longrightarrow> length (elems H) < cap \<Longrightarrow> e \<notin> set (elems H) \<Longrightarrow>
      \<exists>H' ev'. ins e (H, ev) = Some (H', ev') \<and> wf H' ev'
        \<and> mset (elems H') = add_mset e (mset (elems H)) \<and> same_but_heap ev ev'
        \<and> (\<forall>a. a \<noteq> e \<longrightarrow> a \<notin> set (elems H) \<longrightarrow> ev' a = ev a)"
    and del_ok: "wf H ev \<Longrightarrow> e \<in> set (elems H) \<Longrightarrow>
      \<exists>H' ev'. del (eheap (ev e)) (H, ev) = Some (H', ev') \<and> wf H' ev'
        \<and> mset (elems H') = mset (elems H) - {#e#} \<and> same_but_heap ev ev'
        \<and> (\<forall>a. a \<notin> set (elems H) \<longrightarrow> ev' a = ev a)"
    and wf_frame: "wf H ev \<Longrightarrow> (\<And>a. a \<in> set (elems H) \<Longrightarrow> eheap (ev' a) = eheap (ev a)) \<Longrightarrow> wf H ev'"
    and wf_distinct: "wf H ev \<Longrightarrow> distinct (elems H)"
begin

definition family :: "('k \<Rightarrow> 'h) \<Rightarrow> EVENTS \<Rightarrow> bool" where
  "family hs ev \<longleftrightarrow> (\<forall>k. wf (hs k) ev) \<and> (\<forall>j k. j \<noteq> k \<longrightarrow> set (elems (hs j)) \<inter> set (elems (hs k)) = {})"

lemma family_disjoint:
  "family hs ev \<Longrightarrow> j \<noteq> k \<Longrightarrow> a \<in> set (elems (hs j)) \<Longrightarrow> a \<notin> set (elems (hs k))"
  unfolding family_def by blast

lemma familyI:
  assumes "\<And>j. wf (hs j) ev" and "\<And>j k a. j \<noteq> k \<Longrightarrow> a \<in> set (elems (hs j)) \<Longrightarrow> a \<notin> set (elems (hs k))"
  shows "family hs ev"
  using assms unfolding family_def by blast

lemma family_frame: "family hs ev \<Longrightarrow> (\<And>a. eheap (ev' a) = eheap (ev a)) \<Longrightarrow> family hs ev'"
  using wf_frame unfolding family_def by blast

lemma family_ins:
  assumes f: "family hs ev" and n: "length (elems (hs k)) < cap" and e: "\<And>j. e \<notin> set (elems (hs j))"
  shows "\<exists>H' ev'. ins e (hs k, ev) = Some (H', ev') \<and> family (hs(k := H')) ev'
    \<and> set (elems H') = insert e (set (elems (hs k))) \<and> length (elems H') = Suc (length (elems (hs k)))
    \<and> same_but_heap ev ev' \<and> (\<forall>a. a \<noteq> e \<longrightarrow> a \<notin> set (elems (hs k)) \<longrightarrow> ev' a = ev a)"
proof -
  have w: "wf (hs k) ev" using f by (simp add: family_def)
  obtain H' ev' where r: "ins e (hs k, ev) = Some (H', ev')" "wf H' ev'"
      "mset (elems H') = add_mset e (mset (elems (hs k)))" "same_but_heap ev ev'"
      "\<forall>a. a \<noteq> e \<longrightarrow> a \<notin> set (elems (hs k)) \<longrightarrow> ev' a = ev a"
    using ins_ok[OF w n e] by blast
  have s: "set (elems H') = insert e (set (elems (hs k)))"
    using arg_cong[where f = set_mset, OF r(3)] by simp
  have l: "length (elems H') = Suc (length (elems (hs k)))"
    using arg_cong[where f = size, OF r(3)] by simp
  have "wf (hs j) ev'" if j: "j \<noteq> k" for j
  proof (rule wf_frame)
    show "wf (hs j) ev" using f by (simp add: family_def)
    fix a assume "a \<in> set (elems (hs j))"
    then have "a \<noteq> e" "a \<notin> set (elems (hs k))" using family_disjoint[OF f j] e by auto
    then show "eheap (ev' a) = eheap (ev a)" using r(5) by simp
  qed
  then have "family (hs(k := H')) ev'"
    using r(2) s e family_disjoint[OF f] by (intro familyI) (auto split: if_splits)
  then show ?thesis using r s l by blast
qed

lemma family_del:
  assumes f: "family hs ev" and e: "e \<in> set (elems (hs k))"
  shows "\<exists>H' ev'. del (eheap (ev e)) (hs k, ev) = Some (H', ev') \<and> family (hs(k := H')) ev'
    \<and> set (elems H') = set (elems (hs k)) - {e} \<and> Suc (length (elems H')) = length (elems (hs k))
    \<and> same_but_heap ev ev' \<and> (\<forall>a. a \<notin> set (elems (hs k)) \<longrightarrow> ev' a = ev a)"
proof -
  have w: "wf (hs k) ev" using f by (simp add: family_def)
  obtain H' ev' where r: "del (eheap (ev e)) (hs k, ev) = Some (H', ev')" "wf H' ev'"
      "mset (elems H') = mset (elems (hs k)) - {#e#}" "same_but_heap ev ev'"
      "\<forall>a. a \<notin> set (elems (hs k)) \<longrightarrow> ev' a = ev a"
    using del_ok[OF w e] by blast
  have m: "mset (elems (hs k)) = add_mset e (mset (elems H'))" using r(3) e by simp
  have "distinct (elems (hs k))" using w by (rule wf_distinct)
  then have "e \<notin> set (elems H')"
    using mset_eq_imp_distinct_iff[of "elems (hs k)" "e # elems H'"] m by simp
  then have s: "set (elems H') = set (elems (hs k)) - {e}"
    using arg_cong[where f = set_mset, OF m] by auto
  have l: "Suc (length (elems H')) = length (elems (hs k))"
    using arg_cong[where f = size, OF m] by simp
  have "wf (hs j) ev'" if j: "j \<noteq> k" for j
  proof (rule wf_frame)
    show "wf (hs j) ev" using f by (simp add: family_def)
    fix a assume "a \<in> set (elems (hs j))"
    then have "a \<notin> set (elems (hs k))" by (rule family_disjoint[OF f j])
    then show "eheap (ev' a) = eheap (ev a)" using r(5) by simp
  qed
  then have "family (hs(k := H')) ev'"
    using r(2) s family_disjoint[OF f] by (intro familyI) (auto split: if_splits)
  then show ?thesis using r s l by blast
qed

end

lemma events_of_length: "heap_wf H ev \<Longrightarrow> length (events_of H) = hcount H"
  by (simp add: heap_wf_def events_of_def)

interpretation eh: event_heap CKsiftup CKremoveEvent events_of heap_wf MAXEVENTS
proof unfold_locales
  fix H ev e ev'
  assume w: "heap_wf H ev"
  show "\<exists>H' ev'. CKsiftup e (H, ev) = Some (H', ev') \<and> heap_wf H' ev'
      \<and> mset (events_of H') = add_mset e (mset (events_of H)) \<and> same_but_heap ev ev'
      \<and> (\<forall>a. a \<noteq> e \<longrightarrow> a \<notin> set (events_of H) \<longrightarrow> ev' a = ev a)"
    if ln: "length (events_of H) < MAXEVENTS" and ne: "e \<notin> set (events_of H)"
  proof -
    have "hcount H < MAXEVENTS" using ln events_of_length[OF w] by simp
    then obtain H' ev' where r: "CKsiftup e (H, ev) = Some (H', ev')" "heap_wf H' ev'"
        "mset (events_of H') = add_mset e (mset (events_of H))" "same_but_heap ev ev'"
        "\<forall>a. a \<notin> set (events_of H') \<longrightarrow> ev' a = ev a"
      using CKsiftup_ok[OF w ne] by blast
    have "set (events_of H') = insert e (set (events_of H))"
      using arg_cong[where f = set_mset, OF r(3)] by simp
    then show ?thesis using r by auto
  qed
  show "\<exists>H' ev'. CKremoveEvent (eheap (ev e)) (H, ev) = Some (H', ev') \<and> heap_wf H' ev'
      \<and> mset (events_of H') = mset (events_of H) - {#e#} \<and> same_but_heap ev ev'
      \<and> (\<forall>a. a \<notin> set (events_of H) \<longrightarrow> ev' a = ev a)"
    if en: "e \<in> set (events_of H)"
  proof -
    obtain H' ev' where r: "CKremoveEvent (eheap (ev e)) (H, ev) = Some (H', ev')" "heap_wf H' ev'"
        "mset (events_of H') = mset (events_of H) - {#e#}" "same_but_heap ev ev'"
        "\<forall>a. a \<notin> set (events_of H') \<longrightarrow> ev' a = ev a"
      using CKremoveEvent_ok[OF w en] by blast
    have "set (events_of H') \<subseteq> set (events_of H)"
      by (metis in_diffD r(3) set_mset_mset subsetI)
    then show ?thesis using r by blast
  qed
  show "heap_wf H ev'" if "\<And>a. a \<in> set (events_of H) \<Longrightarrow> eheap (ev' a) = eheap (ev a)"
    using heap_wf_frame[OF w] that by blast
  show "distinct (events_of H)" using w by (simp add: heap_wf_def)
qed

section \<open>The heaps' properties\<close>

text \<open>A heap and the events in it, for the examples: the threads with their times.\<close>

definition heap_of :: "addr list \<Rightarrow> HeapSelector" where
  "heap_of as = \<lparr>harr = as @ replicate (MAXEVENTS - length as) NIL, hcount = length as\<rparr>"

definition no_TSS :: TSS where
  "no_TSS = \<lparr>tss_back = 0, tss_esp0 = 0, tss_ss0 = 0, tss_esp1 = 0, tss_ss1 = 0, tss_esp2 = 0,
     tss_ss2 = 0, tss_cr3 = 0, tss_eip = 0, tss_eflags = 0, tss_regs = [], tss_esp = 0, tss_es = 0,
     tss_cs = 0, tss_ss = 0, tss_ds = 0, tss_fs = 0, tss_gs = 0, tss_ldt = 0, tss_trap = 0,
     tss_io = 0, i387_used = 0\<rparr>"

definition thread_of :: "ThreadState \<Rightarrow> TIME \<Rightarrow> nat \<Rightarrow> CKThreadObject" where
  "thread_of st t i = \<lparr>addressSpace = 0, parentKernel = 0, quantum = 10, defer_time = 20, etime = t,
     eheap = i, ts = st, signals = [], trap_res = 0, dmachan_res = 0, ioregion_res = 0,
     taskState = no_TSS\<rparr>"

text \<open>The thread at address \<open>i\<close> is in slot \<open>i - 1\<close> and its time is the \<open>i\<close>-th of the list.\<close>

definition events_at :: "TIME list \<Rightarrow> EVENTS" where
  "events_at tms = (\<lambda>a. thread_of ts_Running (if unat a \<le> length tms \<and> a \<noteq> 0 then tms ! (unat a - 1) else 0)
     (unat a - 1))"

lemma heap_of_simps [simp]:
  "length as \<le> MAXEVENTS \<Longrightarrow> length (harr (heap_of as)) = MAXEVENTS" "hcount (heap_of as) = length as"
  "events_of (heap_of as) = as" "i < length as \<Longrightarrow> harr (heap_of as) ! i = as ! i"
  by (simp_all add: heap_of_def events_of_def nth_append)

lemma thread_of_simps [simp]:
  "etime (thread_of st t i) = t" "eheap (thread_of st t i) = i" "ts (thread_of st t i) = st"
  by (simp_all add: thread_of_def)

text \<open>Whether a list of events is a heap, computed.\<close>

lemma heap_of_eval:
  "heap_wf (heap_of as) ev \<longleftrightarrow> length as \<le> MAXEVENTS \<and> distinct as
     \<and> list_all (\<lambda>i. eheap (ev (as ! i)) = i) [0..<length as]"
  "heap_ord (heap_of as) ev \<longleftrightarrow>
     list_all (\<lambda>i. 0 < i \<longrightarrow> \<not> CLESS (etime (ev (as ! i))) (etime (ev (as ! PARENT i)))) [0..<length as]"
proof -
  have p: "PARENT i < length as" if "i < length as" for i using that by (auto simp: PARENT_def)
  show "heap_wf (heap_of as) ev \<longleftrightarrow> length as \<le> MAXEVENTS \<and> distinct as
     \<and> list_all (\<lambda>i. eheap (ev (as ! i)) = i) [0..<length as]"
    by (auto simp: heap_wf_def backptrs_def list_all_iff)
  show "heap_ord (heap_of as) ev \<longleftrightarrow>
     list_all (\<lambda>i. 0 < i \<longrightarrow> \<not> CLESS (etime (ev (as ! i))) (etime (ev (as ! PARENT i)))) [0..<length as]"
    using p by (auto simp: heap_ord_def list_all_iff)
qed

lemmas heap_eval = heap_of_eval MAXEVENTS_def events_at_def PARENT_def times_in_def in_window_def
  tkey_def CLESS_def

lemma sample_heap:
  defines "H \<equiv> heap_of [1, 2, 3, 4, 5, 6, 7]" and "ev \<equiv> events_at [1, 10, 2, 11, 12, 3, 4]"
  shows "heap_wf H ev" "heap_ord H ev" "times_in 0 (set (events_of H)) ev"
proof -
  show "heap_wf H ev" unfolding H_def ev_def by (simp add: heap_eval)
  show "heap_ord H ev" unfolding H_def ev_def by (simp add: heap_eval)
  show "times_in 0 (set (events_of H)) ev" unfolding H_def ev_def by (simp add: heap_eval)
qed


text \<open>C15: Inserting an event into a priority heap that has room keeps the heap's
  structure and order, and adds exactly that event (pri_heap.c, \<open>CKsiftup\<close>).\<close>

theorem siftup_inserts:
  assumes "heap_wf H ev" and "heap_ord H ev" and "e \<notin> set (events_of H)" and "hcount H < MAXEVENTS"
    and "times_in b (insert e (set (events_of H))) ev"
  shows "\<exists>H' ev'. CKsiftup e (H, ev) = Some (H', ev') \<and> heap_wf H' ev' \<and> heap_ord H' ev'
    \<and> mset (events_of H') = add_mset e (mset (events_of H)) \<and> same_but_heap ev ev'"
  using CKsiftup_ok[OF assms(1,3,4)] CKsiftup_ord[OF assms(1,3,2,5)] by blast

theorem siftup_inserts_witness:
  "\<exists>H' ev'. CKsiftup 8 (heap_of [1, 2, 3, 4, 5, 6, 7], events_at [1, 10, 2, 11, 12, 3, 4]) = Some (H', ev')
    \<and> heap_wf H' ev' \<and> heap_ord H' ev'
    \<and> mset (events_of H') = {#1, 2, 3, 4, 5, 6, 7, 8#}
    \<and> same_but_heap (events_at [1, 10, 2, 11, 12, 3, 4]) ev'"
  using siftup_inserts[OF sample_heap(1,2), of 8 0]
  by (simp add: heap_eval add_mset_commute)

text \<open>C16: Removing an event by its backpointer keeps the heap's structure and takes out
  exactly that event, but keeps the order only where the event moved into the hole is not
  due before the hole's parent: \<open>CKremoveEvent\<close> sifts down and never up (pri_heap.c).\<close>

theorem remove_event_order:
  assumes "heap_wf H ev" and "heap_ord H ev" and "e \<in> set (events_of H)"
    and "times_in b (set (events_of H)) ev"
  shows "\<exists>H' ev'. CKremoveEvent (eheap (ev e)) (H, ev) = Some (H', ev') \<and> heap_wf H' ev'
    \<and> mset (events_of H') = mset (events_of H) - {#e#}
    \<and> (heap_ord H' ev' \<longleftrightarrow> eheap (ev e) = 0 \<or> eheap (ev e) = hcount H - 1
        \<or> \<not> CLESS (etime (ev (harr H ! (hcount H - 1)))) (etime (ev (harr H ! PARENT (eheap (ev e))))))"
  using CKremoveEvent_ok[OF assms(1,3)] CKremoveEvent_ord_iff[OF assms(1,3,2,4)] by blast

text \<open>Thread 4, of time 11, leaves the heap; thread 7, of time 4, takes its place below 10.\<close>

theorem remove_event_order_witness:
  "\<exists>H' ev'. CKremoveEvent 3 (heap_of [1, 2, 3, 4, 5, 6, 7], events_at [1, 10, 2, 11, 12, 3, 4]) = Some (H', ev')
    \<and> heap_wf H' ev' \<and> mset (events_of H') = {#1, 2, 3, 5, 6, 7#} \<and> \<not> heap_ord H' ev'"
  using remove_event_order[OF sample_heap(1,2), of 4 0] sample_heap(3)
  by (simp add: heap_eval)

text \<open>When only the first event's time has been moved on, sifting it down restores
  the order and keeps the events (pri_heap.c, \<open>CKsiftdown\<close>).\<close>

theorem siftdown_restores:
  assumes "heap_wf H ev" and "0 < hcount H" and "times_in b (set (events_of H)) ev"
    and "\<And>i. i < hcount H \<Longrightarrow> 0 < i \<Longrightarrow> PARENT i \<noteq> 0 \<Longrightarrow>
       \<not> CLESS (etime (ev (harr H ! i))) (etime (ev (harr H ! PARENT i)))"
    and "CKsiftdown (H, ev) = (H', ev')"
  shows "heap_ord H' ev' \<and> heap_wf H' ev' \<and> mset (events_of H') = mset (events_of H)
    \<and> same_but_heap ev ev'"
  using CKsiftdown_ord[OF assms(1,2,4,3,5)] CKsiftdown_ok[OF assms(1,2,5)] by blast

theorem siftdown_restores_witness:
  "case CKsiftdown (heap_of [1, 2, 3], events_at [9, 4, 2]) of (H', ev') \<Rightarrow>
    heap_ord H' ev' \<and> mset (events_of H') = {#1, 2, 3#}"
proof -
  obtain H' ev' where r: "CKsiftdown (heap_of [1, 2, 3], events_at [9, 4, 2]) = (H', ev')" by fastforce
  have w: "heap_wf (heap_of [1, 2, 3]) (events_at [9, 4, 2])" by (simp add: heap_eval)
  have t: "times_in 0 (set (events_of (heap_of [1, 2, 3]))) (events_at [9, 4, 2])" by (simp add: heap_eval)
  have n: "0 < hcount (heap_of [1, 2, 3])" by simp
  have p: "PARENT i = 0" if "i < hcount (heap_of [1, 2, 3])" for i
    using that by (auto simp: PARENT_def)
  have "heap_ord H' ev' \<and> mset (events_of H') = {#1, 2, 3#}"
    using siftdown_restores[OF w n t _ r] p by force
  then show ?thesis unfolding r by simp
qed

text \<open>The event at the root of an ordered heap is in the heap and none of the heap's
  events is due before it (pri_heap.h, \<open>CKgetNextEvent\<close>, \<open>CKgetNextTime\<close>).\<close>

theorem next_event_earliest:
  assumes "heap_wf H ev" and "heap_ord H ev" and "times_in b (set (events_of H)) ev"
    and "a \<in> set (events_of H)"
  shows "CKgetNextEvent H \<in> set (events_of H) \<and> \<not> CLESS (etime (ev a)) (CKgetNextTime H ev)"
  using heap_root_min[OF assms] by blast

theorem next_event_earliest_witness:
  "CKgetNextEvent (heap_of [1, 2, 3, 4, 5, 6, 7]) \<in> {1, 2, 3, 4, 5, 6, 7}
    \<and> \<not> CLESS 4 (CKgetNextTime (heap_of [1, 2, 3, 4, 5, 6, 7]) (events_at [1, 10, 2, 11, 12, 3, 4]))"
  using next_event_earliest[OF sample_heap, of 7] by (simp add: events_at_def)

text \<open>Prioritising a running event gives it the time of the first one, keeps the
  heap's structure and order and its events (pri_heap.c, \<open>CKprioritise\<close>).\<close>

theorem prioritise_keeps:
  assumes "heap_wf H ev" and "heap_ord H ev" and "e \<in> set (events_of H)" and "ts (ev e) = ts_Running"
    and "times_in b (set (events_of H)) ev"
  shows "\<exists>H' ev'. CKprioritise e (H, ev) = Some (H', ev') \<and> heap_wf H' ev' \<and> heap_ord H' ev'
    \<and> mset (events_of H') = mset (events_of H) \<and> etime (ev' e) = CKgetNextTime H ev"
proof -
  obtain H' ev' where r: "CKprioritise e (H, ev) = Some (H', ev')" "heap_wf H' ev'"
      "mset (events_of H') = mset (events_of H)"
      "same_but_heap (ev(e := (ev e)\<lparr>etime := CKgetNextTime H ev\<rparr>)) ev'"
    using CKprioritise_ok[OF assms(1,3,4)] by blast
  have "etime (ev' e) = CKgetNextTime H ev" using same_but_heap_fields(1)[OF r(4), of e] by simp
  then show ?thesis using r(1-3) CKprioritise_ord[OF assms(1,3,4,2,5) r(1)] by blast
qed

theorem prioritise_keeps_witness:
  "\<exists>H' ev'. CKprioritise 7 (heap_of [1, 2, 3, 4, 5, 6, 7], events_at [1, 10, 2, 11, 12, 3, 4]) = Some (H', ev')
    \<and> heap_wf H' ev' \<and> heap_ord H' ev' \<and> mset (events_of H') = {#1, 2, 3, 4, 5, 6, 7#} \<and> etime (ev' 7) = 1"
  using prioritise_keeps[OF sample_heap(1,2) _ _ sample_heap(3), of 7]
  by (simp add: events_at_def CKgetNextTime_def CKgetNextEvent_def)

text \<open>The address arithmetic of the child and parent macros computes the slots of the
  binary tree, for an array of 1024 pointers aligned in the upper half of the address
  space (pri_heap.h).\<close>

theorem heap_pointer_macros:
  fixes hp :: addr
  assumes "2 ^ 31 \<le> unat hp" "4 dvd unat hp" "unat hp + 4096 \<le> 2 ^ 32" "0 < i" "i < 1024"
  shows "PARENT_ptr hp (slot_ptr hp i) = slot_ptr hp (PARENT i)
    \<and> LCHILD_ptr hp (slot_ptr hp i) = slot_ptr hp (LCHILD i)
    \<and> RCHILD_ptr hp (slot_ptr hp i) = slot_ptr hp (RCHILD i)"
  using PARENT_ptr_slot[OF assms] CHILD_ptr_slot by blast

theorem heap_pointer_macros_witness:
  "PARENT_ptr 0xC0100000 (slot_ptr 0xC0100000 1023) = slot_ptr 0xC0100000 511"
  using heap_pointer_macros[of "0xC0100000" 1023] by (simp add: PARENT_def dvd_def)

end
