(* ===== verification/CK_Graph.thy ===== *)
theory CK_Graph
  imports CK_Prelude
begin

text \<open>
  The object dependency graph: \<^verbatim>\<open>CK/graph.c\<close> over the object headers of
  \<^verbatim>\<open>CK/include/ckobjects.h\<close>. The graph is an array of edges, the ODA, sorted by the
  address of the parent, so that the edges of one parent are a subarray; the parent's
  header holds the number of its edges and a pointer to the first. An edge pointer is an
  index of the array here.
\<close>

section \<open>Object headers (ckobjects.h)\<close>

record ObjectHeader =
  objectSignature :: u32
  oflags :: u32
  objectData :: addr
  cap_level :: u32
  cap_instance :: u32
  nextObject :: addr
  prevObject :: addr
  dependencies :: u32
  firstDependency :: "nat option"

record EDGE =
  e_parent :: addr
  e_child :: addr

type_synonym VERTICES = "addr \<Rightarrow> ObjectHeader"

definition MAXDEPS :: nat where
  "MAXDEPS = 4096"

text \<open>
  \<open>oda_used\<close> is \<open>lastDep - ODA + 1\<close>. \<open>oda_before\<close> is the word of memory in front of the
  array that \<open>CKaddObjectDep\<close> reads as \<open>(ODA-1)->parent\<close>.
\<close>

record ODG =
  ODA :: "EDGE list"
  oda_used :: nat
  oda_before :: addr

definition set_first :: "addr \<Rightarrow> nat \<Rightarrow> VERTICES \<Rightarrow> VERTICES" where
  "set_first x i V = V(x := (V x)\<lparr>firstDependency := Some i\<rparr>)"

section \<open>Adding and removing a dependency\<close>

text \<open>
  \<open>j\<close> is \<open>currDep + 1\<close>: the slot that is free to be filled. The test reads the parent of
  the edge before \<open>currDep\<close>, which is the word in front of the array for the first edge.
\<close>

definition prev_parent :: "addr \<Rightarrow> EDGE list \<Rightarrow> nat \<Rightarrow> addr" where
  "prev_parent before A i = (if i = 0 then before else e_parent (A ! (i - 1)))"

fun addDep_loop :: "addr \<Rightarrow> addr \<Rightarrow> nat \<Rightarrow> EDGE list \<Rightarrow> VERTICES \<Rightarrow> nat \<times> EDGE list \<times> VERTICES" where
  "addDep_loop before p 0 A V = (0, A, V)"
| "addDep_loop before p (Suc j) A V =
     (if p < e_parent (A ! j)
      then addDep_loop before p j (A[Suc j := A ! j])
             (if e_parent (A ! j) \<noteq> prev_parent before A j
              then set_first (e_parent (A ! j)) (Suc j) V else V)
      else (Suc j, A, V))"

text \<open>\<open>None\<close>: the array is full, which the code does not check.\<close>

definition CKaddObjectDep :: "addr \<Rightarrow> addr \<Rightarrow> ODG \<times> VERTICES \<Rightarrow> (ODG \<times> VERTICES) option" where
  "CKaddObjectDep parent child = (\<lambda>(G, V).
     if oda_used G < MAXDEPS then
       let V1 = V(parent := (V parent)\<lparr>dependencies := dependencies (V parent) + 1\<rparr>);
           (j, A, V2) = addDep_loop (oda_before G) parent (oda_used G) (ODA G) V1;
           A' = A[j := \<lparr>e_parent = parent, e_child = child\<rparr>];
           V3 = (if j = 0 \<or> e_parent (A' ! (j - 1)) \<noteq> parent then set_first parent j V2 else V2)
       in Some (G\<lparr>ODA := A', oda_used := Suc (oda_used G)\<rparr>, V3)
     else None)"

function removeDep_loop :: "nat \<Rightarrow> nat \<Rightarrow> EDGE list \<Rightarrow> VERTICES \<Rightarrow> EDGE list \<times> VERTICES" where
  "removeDep_loop lst i A V =
     (if i < lst then
        let A' = A[i := A ! Suc i];
            V' = (if i = 0 \<or> e_parent (A' ! i) \<noteq> e_parent (A' ! (i - 1))
                  then set_first (e_parent (A' ! i)) i V else V)
        in removeDep_loop lst (Suc i) A' V'
      else (A, V))"
  by pat_completeness auto
termination
  by (relation "measure (\<lambda>(lst, i, A, V). lst - i)") auto

declare removeDep_loop.simps [simp del]

text \<open>\<open>dep\<close> is the index of the edge; \<open>None\<close> when it is outside the used part.\<close>

definition CKremoveObjectDep :: "nat \<Rightarrow> ODG \<times> VERTICES \<Rightarrow> (ODG \<times> VERTICES) option" where
  "CKremoveObjectDep dep = (\<lambda>(G, V).
     if dep < oda_used G then
       let p = e_parent (ODA G ! dep);
           V1 = V(p := (V p)\<lparr>dependencies := dependencies (V p) - 1\<rparr>);
           (A, V2) = removeDep_loop (oda_used G - 1) dep (ODA G) V1
       in Some (G\<lparr>ODA := A, oda_used := oda_used G - 1\<rparr>, V2)
     else None)"

section \<open>The invariant\<close>

definition edges :: "ODG \<Rightarrow> EDGE list" where
  "edges G = take (oda_used G) (ODA G)"

text \<open>The children of a vertex, in the order of the array.\<close>

definition children :: "ODG \<Rightarrow> addr \<Rightarrow> addr list" where
  "children G p = map e_child (filter (\<lambda>e. e_parent e = p) (edges G))"

text \<open>The children as the clients read them, from the header.\<close>

definition deps_view :: "ODG \<Rightarrow> VERTICES \<Rightarrow> addr \<Rightarrow> addr list" where
  "deps_view G V p = map (\<lambda>i. e_child (ODA G ! (the (firstDependency (V p)) + i)))
     [0..<unat (dependencies (V p))]"

definition group_start :: "EDGE list \<Rightarrow> nat \<Rightarrow> bool" where
  "group_start A i \<longleftrightarrow> i = 0 \<or> e_parent (A ! i) \<noteq> e_parent (A ! (i - 1))"

definition firsts_ok :: "nat \<Rightarrow> EDGE list \<Rightarrow> VERTICES \<Rightarrow> bool" where
  "firsts_ok n A V \<longleftrightarrow>
     (\<forall>i<n. group_start A i \<longrightarrow> firstDependency (V (e_parent (A ! i))) = Some i)"

definition oda_sorted :: "nat \<Rightarrow> EDGE list \<Rightarrow> bool" where
  "oda_sorted n A \<longleftrightarrow> (\<forall>i<n. \<forall>k\<le>i. e_parent (A ! k) \<le> e_parent (A ! i))"

definition degree :: "EDGE list \<Rightarrow> addr \<Rightarrow> nat" where
  "degree es p = length (filter (\<lambda>e. e_parent e = p) es)"

definition odg_wf :: "ODG \<Rightarrow> VERTICES \<Rightarrow> bool" where
  "odg_wf G V \<longleftrightarrow> length (ODA G) = MAXDEPS \<and> oda_used G \<le> MAXDEPS
     \<and> oda_sorted (oda_used G) (ODA G) \<and> firsts_ok (oda_used G) (ODA G) V
     \<and> (\<forall>p. dependencies (V p) = of_nat (degree (edges G) p))"

text \<open>Two vertex stores that differ in the dependency fields only.\<close>

definition same_but_deps :: "VERTICES \<Rightarrow> VERTICES \<Rightarrow> bool" where
  "same_but_deps V V' \<longleftrightarrow> (\<forall>x. (V' x)\<lparr>dependencies := 0, firstDependency := None\<rparr>
     = (V x)\<lparr>dependencies := 0, firstDependency := None\<rparr>)"

lemma same_but_deps_refl [simp]: "same_but_deps V V"
  by (simp add: same_but_deps_def)

lemma same_but_deps_trans: "same_but_deps U V \<Longrightarrow> same_but_deps V W \<Longrightarrow> same_but_deps U W"
  by (simp add: same_but_deps_def)

lemma same_but_deps_set [simp]:
  "same_but_deps V (set_first x i V)"
  "same_but_deps V (V(x := (V x)\<lparr>dependencies := d\<rparr>))"
  by (simp_all add: same_but_deps_def set_first_def)

lemma same_but_deps_fields:
  assumes "same_but_deps V V'"
  shows "objectSignature (V' x) = objectSignature (V x)" "oflags (V' x) = oflags (V x)"
    "objectData (V' x) = objectData (V x)" "nextObject (V' x) = nextObject (V x)"
    "prevObject (V' x) = prevObject (V x)"
  using arg_cong[where f = objectSignature, OF spec[OF assms[unfolded same_but_deps_def], of x]]
    arg_cong[where f = oflags, OF spec[OF assms[unfolded same_but_deps_def], of x]]
    arg_cong[where f = objectData, OF spec[OF assms[unfolded same_but_deps_def], of x]]
    arg_cong[where f = nextObject, OF spec[OF assms[unfolded same_but_deps_def], of x]]
    arg_cong[where f = prevObject, OF spec[OF assms[unfolded same_but_deps_def], of x]]
  by simp_all

lemma set_first_fields [simp]:
  "dependencies (set_first x i V y) = dependencies (V y)"
  "firstDependency (set_first x i V y) = (if y = x then Some i else firstDependency (V y))"
  by (simp_all add: set_first_def)

section \<open>Adding\<close>

lemma addDep_loop_spec:
  assumes "addDep_loop before p j A V = (j', A', V')" and "j < length A"
  shows "j' \<le> j \<and> length A' = length A
    \<and> (\<forall>k. j' \<le> k \<and> k < j \<longrightarrow> p < e_parent (A ! k))
    \<and> (0 < j' \<longrightarrow> e_parent (A ! (j' - 1)) \<le> p)
    \<and> (\<forall>k < length A. A' ! k = (if j' < k \<and> k \<le> j then A ! (k - 1) else A ! k))
    \<and> same_but_deps V V' \<and> (\<forall>x. dependencies (V' x) = dependencies (V x))"
  using assms
proof (induction before p j A V arbitrary: j' A' V' rule: addDep_loop.induct)
  case (2 before p j A V)
  show ?case
  proof (cases "p < e_parent (A ! j)")
    case False
    then show ?thesis using 2 by auto
  next
    case True
    let ?V = "if e_parent (A ! j) \<noteq> prev_parent before A j
              then set_first (e_parent (A ! j)) (Suc j) V else V"
    let ?A = "A[Suc j := A ! j]"
    have r: "addDep_loop before p j ?A ?V = (j', A', V')"
      using 2(2) True by simp
    have V: "same_but_deps V ?V" "\<And>x. dependencies (?V x) = dependencies (V x)" by simp_all
    note IH = "2.IH"[OF True r]
    have l: "j < length ?A" "Suc j < length A" using 2(3) by simp_all
    note IH = IH[OF l(1)]
    have j': "j' \<le> j" using IH by blast
    have "p < e_parent (A ! k)" if "j' \<le> k" "k < Suc j" for k
      using IH that True by (cases "k = j") auto
    moreover have "e_parent (A ! (j' - 1)) \<le> p" if "0 < j'"
      using IH that j' by auto
    moreover have "A' ! k = (if j' < k \<and> k \<le> Suc j then A ! (k - 1) else A ! k)"
      if "k < length A" for k
    proof -
      have "A' ! k = (if j' < k \<and> k \<le> j then ?A ! (k - 1) else ?A ! k)"
        using IH that by simp
      then show ?thesis using that l j' by (cases "k = Suc j") auto
    qed
    moreover have "same_but_deps V V'" "\<forall>x. dependencies (V' x) = dependencies (V x)"
      using IH V same_but_deps_trans[OF V(1)] by auto
    ultimately show ?thesis using IH by simp
  qed
qed simp

text \<open>The first-edge pointers the loop leaves: moved along for the groups it moves.\<close>

lemma addDep_loop_unchanged:
  assumes "addDep_loop before p j A V = (j', A', V')" and "j < length A"
    and "\<And>k. k < j \<Longrightarrow> p < e_parent (A ! k) \<Longrightarrow> e_parent (A ! k) = x \<Longrightarrow> prev_parent before A k = x"
  shows "firstDependency (V' x) = firstDependency (V x)"
  using assms
proof (induction before p j A V arbitrary: j' A' V' rule: addDep_loop.induct)
  case (2 before p j A V)
  show ?case
  proof (cases "p < e_parent (A ! j)")
    case True
    let ?V = "if e_parent (A ! j) \<noteq> prev_parent before A j
              then set_first (e_parent (A ! j)) (Suc j) V else V"
    have r: "addDep_loop before p j (A[Suc j := A ! j]) ?V = (j', A', V')"
      using 2(2) True by simp
    have "firstDependency (V' x) = firstDependency (?V x)"
    proof (rule "2.IH"[OF True r])
      show "j < length (A[Suc j := A ! j])" using 2(3) by simp
      fix k assume k: "k < j" "p < e_parent (A[Suc j := A ! j] ! k)" "e_parent (A[Suc j := A ! j] ! k) = x"
      then have "prev_parent before A k = x" using 2(4)[of k] by simp
      then show "prev_parent before (A[Suc j := A ! j]) k = x"
        using k(1) by (simp add: prev_parent_def split: if_splits)
    qed
    moreover have "e_parent (A ! j) = x \<longrightarrow> prev_parent before A j = x" using 2(4) True by simp
    ultimately show ?thesis by auto
  qed (use 2 in auto)
qed simp

lemma oda_sortedD: "oda_sorted n A \<Longrightarrow> k \<le> i \<Longrightarrow> i < n \<Longrightarrow> e_parent (A ! k) \<le> e_parent (A ! i)"
  by (simp add: oda_sorted_def)

lemma addDep_loop_first:
  assumes "addDep_loop before p j A V = (j', A', V')" and "j < length A" and "oda_sorted j A"
    and "j' \<le> k" "k < j" "prev_parent before A k \<noteq> e_parent (A ! k)"
  shows "firstDependency (V' (e_parent (A ! k))) = Some (Suc k)"
  using assms
proof (induction before p j A V arbitrary: j' A' V' rule: addDep_loop.induct)
  case (2 before p j A V)
  show ?case
  proof (cases "p < e_parent (A ! j)")
    case True
    let ?A = "A[Suc j := A ! j]"
    let ?V = "if e_parent (A ! j) \<noteq> prev_parent before A j
              then set_first (e_parent (A ! j)) (Suc j) V else V"
    have r: "addDep_loop before p j ?A ?V = (j', A', V')"
      using 2(2) True by simp
    show ?thesis
    proof (cases "k = j")
      case kj: True
      have "e_parent (?A ! i) \<noteq> e_parent (A ! k)" if "i < j" for i
      proof -
        have "e_parent (A ! i) \<le> e_parent (A ! (j - 1))" "e_parent (A ! (j - 1)) \<le> e_parent (A ! j)"
          using that oda_sortedD[OF 2(4)] by auto
        moreover have "e_parent (A ! (j - 1)) \<noteq> e_parent (A ! j)"
          using 2(7) that kj by (simp add: prev_parent_def)
        ultimately show ?thesis using that kj by auto
      qed
      then have "firstDependency (V' (e_parent (A ! k))) = firstDependency (?V (e_parent (A ! k)))"
        using 2(3) by (intro addDep_loop_unchanged[OF r]) auto
      then show ?thesis using 2(7) kj by auto
    next
      case False
      have "oda_sorted j ?A" using 2(4) by (auto simp: oda_sorted_def)
      moreover have "prev_parent before ?A k = prev_parent before A k"
        using 2(6) False by (auto simp: prev_parent_def nth_list_update)
      ultimately show ?thesis
        using "2.IH"[OF True r] 2 False by simp
    qed
  qed (use 2 in auto)
qed simp

lemma CKaddObjectDep_ok:
  assumes wf: "odg_wf G V" and n: "oda_used G < MAXDEPS"
    and before: "\<And>e. e \<in> set (edges G) \<Longrightarrow> e_parent e \<noteq> oda_before G"
  shows "\<exists>G' V'. CKaddObjectDep p c (G, V) = Some (G', V') \<and> odg_wf G' V' \<and> same_but_deps V V'
    \<and> edges G' = filter (\<lambda>e. e_parent e \<le> p) (edges G) @ [\<lparr>e_parent = p, e_child = c\<rparr>]
                 @ filter (\<lambda>e. p < e_parent e) (edges G)
    \<and> oda_before G' = oda_before G"
proof -
  let ?n = "oda_used G" and ?A = "ODA G" and ?e = "\<lparr>e_parent = p, e_child = c\<rparr>"
  let ?V1 = "V(p := (V p)\<lparr>dependencies := dependencies (V p) + 1\<rparr>)"
  obtain j A V2 where l: "addDep_loop (oda_before G) p ?n ?A ?V1 = (j, A, V2)"
    using prod_cases3 by blast
  let ?A' = "A[j := ?e]"
  let ?V3 = "if j = 0 \<or> e_parent (?A' ! (j - 1)) \<noteq> p then set_first p j V2 else V2"
  have len: "?n < length ?A" "length ?A = MAXDEPS" using wf n by (simp_all add: odg_wf_def)
  note sp = addDep_loop_spec[OF l len(1)]
  have srt: "oda_sorted ?n ?A" using wf by (simp add: odg_wf_def)
  have j: "j \<le> ?n" "length A = length ?A" using sp by auto
  have hi: "p < e_parent (?A ! k)" if "j \<le> k" "k < ?n" for k using sp that by blast
  have lo: "e_parent (?A ! k) \<le> p" if "k < j" for k
    using sp that oda_sortedD[OF srt, of k "j - 1"] by fastforce
  have A': "?A' ! k = (if k = j then ?e else if j < k then ?A ! (k - 1) else ?A ! k)"
    if "k \<le> ?n" for k
    using sp that j len by (auto simp: nth_list_update)
  have eq: "take (Suc ?n) ?A' = take j ?A @ [?e] @ drop j (take ?n ?A)"
  proof (rule nth_equalityI)
    show "length (take (Suc ?n) ?A') = length (take j ?A @ [?e] @ drop j (take ?n ?A))"
      using j len by simp
    fix i assume "i < length (take (Suc ?n) ?A')"
    then have i: "i \<le> ?n" by simp
    show "take (Suc ?n) ?A' ! i = (take j ?A @ [?e] @ drop j (take ?n ?A)) ! i"
      using i j len A'[OF i] by (auto simp: nth_append nth_Cons' not_less_eq less_Suc_eq_le)
  qed
  have "take ?n ?A = take j (take ?n ?A) @ drop j (take ?n ?A)" by (rule append_take_drop_id[symmetric])
  also have "take j (take ?n ?A) = take j ?A" using j by (simp add: min_absorb1)
  finally have split: "edges G = take j ?A @ drop j (take ?n ?A)" by (simp add: edges_def)
  have all: "\<forall>e \<in> set (take j ?A). e_parent e \<le> p" "\<forall>e \<in> set (drop j (take ?n ?A)). p < e_parent e"
    using lo hi j len by (auto simp: in_set_conv_nth)
  have f: "filter (\<lambda>e. e_parent e \<le> p) (edges G) = take j ?A"
      "filter (\<lambda>e. p < e_parent e) (edges G) = drop j (take ?n ?A)"
    using all unfolding split by (auto simp: filter_id_conv filter_empty_conv)
  let ?G' = "G\<lparr>ODA := ?A', oda_used := Suc ?n\<rparr>"
  have E: "edges ?G' = take j ?A @ [?e] @ drop j (take ?n ?A)"
    unfolding edges_def using eq by simp
  have srt': "oda_sorted (Suc ?n) ?A'"
    unfolding oda_sorted_def
  proof (intro allI impI)
    fix i k assume i: "i < Suc ?n" and k: "k \<le> i"
    have ii: "e_parent (?A' ! i) = (if i = j then p else e_parent (?A ! (if i < j then i else i - 1)))"
        "e_parent (?A' ! k) = (if k = j then p else e_parent (?A ! (if k < j then k else k - 1)))"
      using A'[of i] A'[of k] i k by auto
    consider "i < j" | "i = j" | "j < i" "k \<le> j" | "j < k" using k by linarith
    then show "e_parent (?A' ! k) \<le> e_parent (?A' ! i)"
    proof cases
      case 1 then show ?thesis unfolding ii using k j oda_sortedD[OF srt, of k i] by simp
    next
      case 2 then show ?thesis unfolding ii using k lo[of k] by auto
    next
      case 3
      then have "p < e_parent (?A ! (i - 1))" using hi[of "i - 1"] i by simp
      then show ?thesis unfolding ii using 3 lo[of k] by auto
    next
      case 4
      then show ?thesis unfolding ii using k i oda_sortedD[OF srt, of "k - 1" "i - 1"] by simp
    qed
  qed
  have sb: "same_but_deps V ?V3"
    using sp same_but_deps_trans[of V ?V1 V2] same_but_deps_trans[of V V2] by auto
  have dg: "degree (edges ?G') x = degree (edges G) x + (if x = p then 1 else 0)" for x
    unfolding E split degree_def by simp
  have dep: "dependencies (?V3 x) = of_nat (degree (edges ?G') x)" for x
    unfolding dg using wf sp by (auto simp: odg_wf_def)
  have unch: "firstDependency (V2 x) = firstDependency (V x)" if "x \<le> p" for x
    using addDep_loop_unchanged[OF l len(1), of x] that by auto
  have fst: "firsts_ok (Suc ?n) ?A' ?V3"
    unfolding firsts_ok_def
  proof (intro allI impI)
    fix i assume i: "i < Suc ?n" and g: "group_start ?A' i"
    let ?x = "e_parent (?A' ! i)"
    consider "i < j" | "i = j" | "j < i" by linarith
    then show "firstDependency (?V3 ?x) = Some i"
    proof cases
      case 1
      have x: "?x = e_parent (?A ! i)" "?x \<le> p" using 1 A'[of i] lo[of i] j by auto
      have "i - 1 \<le> ?n" "i - 1 \<noteq> j" "\<not> j < i - 1" using 1 j by linarith+
      then have "?A' ! (i - 1) = ?A ! (i - 1)" using A'[of "i - 1"] by (simp only: if_False)
      then have "group_start ?A i" using g x(1) by (simp add: group_start_def)
      then have "firstDependency (V ?x) = Some i"
        using x wf 1 j by (simp add: odg_wf_def firsts_ok_def)
      moreover have "e_parent (?A' ! (j - 1)) = p" if "?x = p"
        using that x 1 A'[of "j - 1"] lo[of "j - 1"] oda_sortedD[OF srt, of i "j - 1"] j by auto
      ultimately show ?thesis using unch[OF x(2)] 1 by auto
    next
      case 2
      then show ?thesis using g A'[of j] A'[of "j - 1"] j by (auto simp: group_start_def)
    next
      case 3
      have x: "?x = e_parent (?A ! (i - 1))" "p < ?x" using 3 A'[of i] hi[of "i - 1"] i by auto
      have "prev_parent (oda_before G) ?A (i - 1) \<noteq> e_parent (?A ! (i - 1))"
      proof (cases "i - 1 = 0")
        case True
        have "?A ! 0 \<in> set (edges G)"
          using 3 i len unfolding edges_def in_set_conv_nth by (intro exI[of _ 0]) simp
        then have "e_parent (?A ! 0) \<noteq> oda_before G" by (rule before)
        then show ?thesis using True by (simp add: prev_parent_def)
      next
        case False
        show ?thesis
        proof (cases "i - 1 = j")
          case True
          then show ?thesis using False lo[of "j - 1"] x by (auto simp: prev_parent_def)
        next
          case f: False
          then have "i - 1 \<le> ?n" "j < i - 1" using 3 i by linarith+
          then have "?A' ! (i - 1) = ?A ! (i - 1 - 1)"
            using A'[of "i - 1"] f by (simp only: if_False if_True)
          then show ?thesis
            using False g 3 x(1) by (auto simp: prev_parent_def group_start_def)
        qed
      qed
      then have "firstDependency (V2 ?x) = Some i"
        using addDep_loop_first[OF l len(1) srt, of "i - 1"] x 3 i by simp
      then show ?thesis using x by auto
    qed
  qed
  have "odg_wf ?G' ?V3"
    using srt' fst dep j len n by (simp add: odg_wf_def)
  moreover have "CKaddObjectDep p c (G, V) = Some (?G', ?V3)"
    using n l by (simp add: CKaddObjectDep_def Let_def)
  ultimately show ?thesis
    using sb E f by (intro exI[of _ ?G'] exI[of _ ?V3]) simp
qed

section \<open>Removing\<close>

lemma removeDep_loop_spec:
  assumes "removeDep_loop lst i A V = (A', V')" and "lst < length A"
  shows "length A' = length A
    \<and> (\<forall>k < length A. A' ! k = (if i \<le> k \<and> k < lst then A ! Suc k else A ! k))
    \<and> same_but_deps V V' \<and> (\<forall>x. dependencies (V' x) = dependencies (V x))"
  using assms
proof (induction lst i A V arbitrary: A' V' rule: removeDep_loop.induct)
  case (1 lst i A V)
  show ?case
  proof (cases "i < lst")
    case False
    then show ?thesis using 1(2) by (auto simp: removeDep_loop.simps[of lst i])
  next
    case True
    let ?A = "A[i := A ! Suc i]"
    let ?V = "if i = 0 \<or> e_parent (?A ! i) \<noteq> e_parent (?A ! (i - 1))
              then set_first (e_parent (?A ! i)) i V else V"
    have r: "removeDep_loop lst (Suc i) ?A ?V = (A', V')"
      using 1(2) True by (simp add: removeDep_loop.simps[of lst i] Let_def)
    have V: "same_but_deps V ?V" "\<And>x. dependencies (?V x) = dependencies (V x)" by simp_all
    have IH: "length A' = length ?A"
        "\<forall>k < length ?A. A' ! k = (if Suc i \<le> k \<and> k < lst then ?A ! Suc k else ?A ! k)"
        "same_but_deps ?V V'" "\<forall>x. dependencies (V' x) = dependencies (?V x)"
      using "1.IH"[OF True refl refl r] 1(3) by simp_all
    have "A' ! k = (if i \<le> k \<and> k < lst then A ! Suc k else A ! k)" if "k < length A" for k
      using IH(2) that True 1(3) by (cases "k = i") auto
    then show ?thesis
      using IH V same_but_deps_trans[OF V(1) IH(3)] by simp
  qed
qed

lemma removeDep_loop_unchanged:
  assumes "removeDep_loop lst i A V = (A', V')" and "lst < length A"
    and "\<And>k. i \<le> k \<Longrightarrow> k < lst \<Longrightarrow> group_start A' k \<Longrightarrow> e_parent (A' ! k) \<noteq> x"
  shows "firstDependency (V' x) = firstDependency (V x)"
  using assms
proof (induction lst i A V arbitrary: A' V' rule: removeDep_loop.induct)
  case (1 lst i A V)
  show ?case
  proof (cases "i < lst")
    case False
    then show ?thesis using 1(2) by (simp add: removeDep_loop.simps[of lst i])
  next
    case True
    let ?A = "A[i := A ! Suc i]"
    let ?V = "if i = 0 \<or> e_parent (?A ! i) \<noteq> e_parent (?A ! (i - 1))
              then set_first (e_parent (?A ! i)) i V else V"
    have r: "removeDep_loop lst (Suc i) ?A ?V = (A', V')"
      using 1(2) True by (simp add: removeDep_loop.simps[of lst i] Let_def)
    have l: "lst < length ?A" using 1(3) by simp
    have a: "A' ! k = ?A ! k" if "k \<le> i" for k
      using removeDep_loop_spec[OF r l] that True l by simp
    have "firstDependency (V' x) = firstDependency (?V x)"
      using 1(4) by (intro "1.IH"[OF True refl refl r l]) simp
    also have "\<dots> = firstDependency (V x)"
    proof (cases "group_start A' i")
      case g: True
      then have "e_parent (?A ! i) \<noteq> x" using 1(4)[of i] a[of i] True by simp
      then show ?thesis by (simp only: set_first_fields if_False split: if_split) simp
    next
      case False
      then have "\<not> (i = 0 \<or> e_parent (?A ! i) \<noteq> e_parent (?A ! (i - 1)))"
        unfolding group_start_def a[of i, OF order_refl] a[of "i - 1", OF diff_le_self] .
      then show ?thesis by (simp only: if_False)
    qed
    finally show ?thesis .
  qed
qed

lemma removeDep_loop_first:
  assumes "removeDep_loop lst i A V = (A', V')" and "lst < length A"
    and "i \<le> k" "k < lst" "group_start A' k"
    and "\<And>m. k < m \<Longrightarrow> m < lst \<Longrightarrow> group_start A' m \<Longrightarrow> e_parent (A' ! m) \<noteq> e_parent (A' ! k)"
  shows "firstDependency (V' (e_parent (A' ! k))) = Some k"
  using assms
proof (induction lst i A V arbitrary: A' V' rule: removeDep_loop.induct)
  case (1 lst i A V)
  then have i: "i < lst" by simp
  let ?A = "A[i := A ! Suc i]"
  let ?V = "if i = 0 \<or> e_parent (?A ! i) \<noteq> e_parent (?A ! (i - 1))
            then set_first (e_parent (?A ! i)) i V else V"
  have r: "removeDep_loop lst (Suc i) ?A ?V = (A', V')"
    using 1(2) i by (simp add: removeDep_loop.simps[of lst i] Let_def)
  have l: "lst < length ?A" using 1(3) by simp
  show ?case
  proof (cases "k = i")
    case False
    show ?thesis
    proof (rule "1.IH"[OF i refl refl r l])
      show "Suc i \<le> k" using 1(4) False by simp
    qed (fact 1(5) 1(6) 1(7))+
  next
    case True
    have a: "A' ! m = ?A ! m" if "m \<le> i" for m
      using removeDep_loop_spec[OF r l] that i l by simp
    have "firstDependency (V' (e_parent (A' ! k))) = firstDependency (?V (e_parent (A' ! k)))"
      using 1(7) True by (intro removeDep_loop_unchanged[OF r l]) simp
    then show ?thesis
      using 1(6) a[of i] a[of "i - 1"] True by (auto simp: group_start_def)
  qed
qed

lemma group_start_unique:
  assumes "oda_sorted n A" "m < n" "k < m" "group_start A m"
  shows "e_parent (A ! m) \<noteq> e_parent (A ! k)"
proof -
  have "k \<le> m - 1" "m - 1 < n" "m - 1 \<le> m" "0 < m" using assms(2,3) by linarith+
  then have "e_parent (A ! k) \<le> e_parent (A ! (m - 1))" "e_parent (A ! (m - 1)) \<le> e_parent (A ! m)"
      "e_parent (A ! m) \<noteq> e_parent (A ! (m - 1))"
    using assms(2,4) oda_sortedD[OF assms(1)] unfolding group_start_def by blast+
  then show ?thesis by (metis order.antisym)
qed

lemma CKremoveObjectDep_ok:
  assumes wf: "odg_wf G V" and d: "d < oda_used G"
  shows "\<exists>G' V'. CKremoveObjectDep d (G, V) = Some (G', V') \<and> odg_wf G' V' \<and> same_but_deps V V'
    \<and> edges G' = take d (edges G) @ drop (Suc d) (edges G) \<and> oda_before G' = oda_before G"
proof -
  let ?n = "oda_used G" and ?A = "ODA G"
  let ?p = "e_parent (?A ! d)"
  let ?V1 = "V(?p := (V ?p)\<lparr>dependencies := dependencies (V ?p) - 1\<rparr>)"
  obtain A V2 where l: "removeDep_loop (?n - 1) d ?A ?V1 = (A, V2)"
    by fastforce
  have len: "?n - 1 < length ?A" "?n \<le> length ?A" "length ?A = MAXDEPS" "0 < ?n"
    using wf d by (auto simp: odg_wf_def)
  note sp = removeDep_loop_spec[OF l len(1)]
  have srt: "oda_sorted ?n ?A" using wf by (simp add: odg_wf_def)
  have A: "A ! k = (if d \<le> k then ?A ! Suc k else ?A ! k)" if "k < ?n - 1" for k
    using sp that len by auto
  let ?G' = "G\<lparr>ODA := A, oda_used := ?n - 1\<rparr>"
  have E: "edges ?G' = take d (edges G) @ drop (Suc d) (edges G)"
    unfolding edges_def
  proof (rule nth_equalityI)
    show "length (take (oda_used ?G') (ODA ?G'))
        = length (take d (take ?n ?A) @ drop (Suc d) (take ?n ?A))"
      using sp len d by simp
    fix i assume "i < length (take (oda_used ?G') (ODA ?G'))"
    then have i: "i < ?n - 1" by simp
    then show "take (oda_used ?G') (ODA ?G') ! i
        = (take d (take ?n ?A) @ drop (Suc d) (take ?n ?A)) ! i"
      using A[OF i] d len by (auto simp: nth_append)
  qed
  have split: "edges G = take d (edges G) @ ?A ! d # drop (Suc d) (edges G)"
    using d len using id_take_nth_drop[of d "take ?n ?A"] by (simp add: edges_def)
  have dg: "degree (edges G) x = degree (edges ?G') x + (if x = ?p then 1 else 0)" for x
    unfolding E by (subst split) (simp add: degree_def)
  have dep: "dependencies (V2 x) = of_nat (degree (edges ?G') x)" for x
    using dg[of x] wf sp by (auto simp: odg_wf_def)
  have srt': "oda_sorted (?n - 1) A"
    unfolding oda_sorted_def
  proof (intro allI impI)
    fix i k assume "i < ?n - 1" "k \<le> i"
    then show "e_parent (A ! k) \<le> e_parent (A ! i)"
      using A[of i] A[of k] by (auto intro!: oda_sortedD[OF srt])
  qed
  have fst: "firsts_ok (?n - 1) A V2"
    unfolding firsts_ok_def
  proof (intro allI impI)
    fix i assume i: "i < ?n - 1" and g: "group_start A i"
    show "firstDependency (V2 (e_parent (A ! i))) = Some i"
    proof (cases "d \<le> i")
      case True
      show ?thesis
        using group_start_unique[OF srt'] by (intro removeDep_loop_first[OF l len(1) True i g]) auto
    next
      case False
      then have "A ! i = ?A ! i" "A ! (i - 1) = ?A ! (i - 1)" using A[of i] A[of "i - 1"] i by auto
      then have "firstDependency (V (e_parent (A ! i))) = Some i"
        using wf g i unfolding odg_wf_def firsts_ok_def group_start_def
        by (metis (no_types, lifting) less_imp_diff_less less_trans diff_less zero_less_one len(4))
      moreover have "firstDependency (V2 (e_parent (A ! i))) = firstDependency (?V1 (e_parent (A ! i)))"
        using group_start_unique[OF srt', of _ i] False
        by (intro removeDep_loop_unchanged[OF l len(1)]) auto
      ultimately show ?thesis by auto
    qed
  qed
  have "odg_wf ?G' V2"
    using srt' fst dep sp len wf by (simp add: odg_wf_def)
  moreover have "CKremoveObjectDep d (G, V) = Some (?G', V2)"
    using d l by (simp add: CKremoveObjectDep_def Let_def)
  moreover have "same_but_deps V V2"
    using sp same_but_deps_trans[of V ?V1 V2] by simp
  ultimately show ?thesis
    using E by (intro exI[of _ ?G'] exI[of _ V2]) simp
qed

section \<open>The client's view\<close>

lemma sorted_edges: "odg_wf G V \<Longrightarrow> sorted (map e_parent (edges G))"
  by (auto simp: odg_wf_def sorted_iff_nth_mono edges_def oda_sorted_def)

lemma group_contiguous:
  assumes "sorted (map e_parent es)"
  shows "filter (\<lambda>e. e_parent e = p) es
    = take (degree es p) (drop (length (takeWhile (\<lambda>e. e_parent e < p) es)) es)"
  using assms
proof (induction es)
  case (Cons a es)
  have ge: "\<forall>e\<in>set es. e_parent a \<le> e_parent e" using Cons.prems by simp
  consider "e_parent a < p" | "e_parent a = p" | "p < e_parent a" by fastforce
  then show ?case
  proof cases
    case 1 then show ?thesis using Cons by (auto simp: degree_def)
  next
    case 2
    then have "takeWhile (\<lambda>e. e_parent e < p) es = []"
      using ge by (cases es) auto
    then show ?thesis using Cons 2 by (simp add: degree_def)
  next
    case 3
    then have "filter (\<lambda>e. e_parent e = p) (a # es) = []"
      using ge by (auto simp: filter_empty_conv)
    then show ?thesis unfolding degree_def by (simp only: list.size take_0)
  qed
qed simp

lemma degree_le: "odg_wf G V \<Longrightarrow> degree (edges G) p \<le> MAXDEPS"
  using length_filter_le[of "\<lambda>e. e_parent e = p" "edges G"]
  by (simp add: degree_def odg_wf_def edges_def)

lemma unat_dependencies: "odg_wf G V \<Longrightarrow> unat (dependencies (V p)) = length (children G p)"
  using degree_le[of G V p]
  by (simp add: odg_wf_def MAXDEPS_def unat_of_nat degree_def children_def)

lemma first_edge:
  assumes wf: "odg_wf G V" and d: "children G p \<noteq> []"
  shows "firstDependency (V p) = Some (length (takeWhile (\<lambda>e. e_parent e < p) (edges G)))"
proof -
  let ?es = "edges G" and ?f = "length (takeWhile (\<lambda>e. e_parent e < p) (edges G))"
  have c: "filter (\<lambda>e. e_parent e = p) ?es = take (degree ?es p) (drop ?f ?es)"
    by (rule group_contiguous[OF sorted_edges[OF wf]])
  have ne: "filter (\<lambda>e. e_parent e = p) ?es \<noteq> []" using d by (simp add: children_def)
  then have f: "?f < length ?es"
    using c by (metis drop_all linorder_not_le take_Nil)
  have "hd (filter (\<lambda>e. e_parent e = p) ?es) = ?es ! ?f"
    using ne f c by (simp add: hd_take hd_drop_conv_nth)
  then have pf: "e_parent (?es ! ?f) = p"
    using hd_in_set[OF ne] by simp
  have lt: "e_parent (?es ! (?f - 1)) < p" if "0 < ?f"
    using that nth_length_takeWhile set_takeWhileD[OF nth_mem, of "?f - 1" "\<lambda>e. e_parent e < p" ?es]
    by (simp add: takeWhile_nth)
  have n: "?f < oda_used G" "?es ! ?f = ODA G ! ?f" "?es ! (?f - 1) = ODA G ! (?f - 1)"
    using f less_imp_diff_less[of ?f "oda_used G" 1] by (simp_all add: edges_def)
  have "group_start (ODA G) ?f"
    using pf lt n by (cases "?f = 0") (auto simp: group_start_def)
  then show ?thesis using wf n pf by (auto simp: odg_wf_def firsts_ok_def)
qed

lemma deps_view_children:
  assumes wf: "odg_wf G V"
  shows "deps_view G V p = children G p"
proof (cases "children G p = []")
  case True
  then show ?thesis using unat_dependencies[OF wf, of p] by (simp add: deps_view_def)
next
  case False
  let ?es = "edges G" and ?f = "length (takeWhile (\<lambda>e. e_parent e < p) (edges G))"
  have c: "filter (\<lambda>e. e_parent e = p) ?es = take (degree ?es p) (drop ?f ?es)"
    by (rule group_contiguous[OF sorted_edges[OF wf]])
  then have len: "degree ?es p = min (degree ?es p) (length ?es - ?f)"
    using length_take[of "degree ?es p" "drop ?f ?es"] by (simp add: degree_def)
  have d: "unat (dependencies (V p)) = degree ?es p"
    using unat_dependencies[OF wf] by (simp add: degree_def children_def)
  show ?thesis
    unfolding deps_view_def children_def d c first_edge[OF wf False] option.sel
  proof (rule nth_equalityI)
    show "length (map (\<lambda>i. e_child (ODA G ! (?f + i))) [0..<degree ?es p])
        = length (map e_child (take (degree ?es p) (drop ?f ?es)))"
      using len by simp
    fix i assume "i < length (map (\<lambda>i. e_child (ODA G ! (?f + i))) [0..<degree ?es p])"
    then have i: "i < degree ?es p" "?f + i < length ?es" using len by simp_all
    then have "?es ! (?f + i) = ODA G ! (?f + i)" by (simp add: edges_def)
    then show "map (\<lambda>i. e_child (ODA G ! (?f + i))) [0..<degree ?es p] ! i
        = map e_child (take (degree ?es p) (drop ?f ?es)) ! i"
      using i by simp
  qed
qed

section \<open>Searching a dependency (objmgmt.c)\<close>

text \<open>\<open>None\<close>: a header that counts edges has no first edge.\<close>

function CKdepSearch_loop :: "addr \<Rightarrow> addr \<Rightarrow> nat \<Rightarrow> ODG \<times> VERTICES \<Rightarrow> (ODG \<times> VERTICES) option" where
  "CKdepSearch_loop object child i (G, V) =
     (if i < unat (dependencies (V object)) then
        (case firstDependency (V object) of
           None \<Rightarrow> None
         | Some f \<Rightarrow> if e_child (ODA G ! (f + i)) = child
                    then CKremoveObjectDep (f + i) (G, V)
                    else CKdepSearch_loop object child (Suc i) (G, V))
      else Some (G, V))"
  by pat_completeness auto
termination
  by (relation "measure (\<lambda>(object, child, i, G, V). unat (dependencies (V object)) - i)") auto

declare CKdepSearch_loop.simps [simp del]

definition CKremoveDepSearch :: "addr \<Rightarrow> addr \<Rightarrow> ODG \<times> VERTICES \<Rightarrow> (ODG \<times> VERTICES) option" where
  "CKremoveDepSearch object child = CKdepSearch_loop object child 0"

lemma CKdepSearch_loop_spec:
  assumes wf: "odg_wf G V"
    and "\<forall>k<i. children G p ! k \<noteq> c" and "i \<le> length (children G p)"
  shows "CKdepSearch_loop p c i (G, V) =
    (if c \<in> set (children G p)
     then CKremoveObjectDep (the (firstDependency (V p)) + (LEAST k. k < length (children G p) \<and> children G p ! k = c)) (G, V)
     else Some (G, V))"
  using assms(2,3)
proof (induction "length (children G p) - i" arbitrary: i)
  case 0
  then have i: "i = length (children G p)" by simp
  then have "c \<notin> set (children G p)" using 0 by (auto simp: in_set_conv_nth)
  then show ?case
    using i unat_dependencies[OF wf, of p] by (subst CKdepSearch_loop.simps) simp
next
  case (Suc m)
  then have i: "i < length (children G p)" by simp
  then have ne: "children G p \<noteq> []" by auto
  obtain f where f: "firstDependency (V p) = Some f" using first_edge[OF wf ne] by blast
  have v: "e_child (ODA G ! (f + i)) = children G p ! i"
  proof -
    have "deps_view G V p ! i = e_child (ODA G ! (f + i))"
      using i unat_dependencies[OF wf, of p] f by (simp add: deps_view_def)
    then show ?thesis by (simp add: deps_view_children[OF wf])
  qed
  show ?case
  proof (cases "children G p ! i = c")
    case True
    have "(LEAST k. k < length (children G p) \<and> children G p ! k = c) = i"
      using True i Suc(3) by (intro Least_equality) (auto intro: leI)
    then show ?thesis
      using True f v i unat_dependencies[OF wf, of p] nth_mem[OF i]
      by (simp add: CKdepSearch_loop.simps[of p c i])
  next
    case False
    have "CKdepSearch_loop p c i (G, V) = CKdepSearch_loop p c (Suc i) (G, V)"
      using False f v i unat_dependencies[OF wf, of p]
      by (simp add: CKdepSearch_loop.simps[of p c i])
    then show ?thesis
      using Suc(1)[of "Suc i"] Suc(2-4) i False by (auto simp: less_Suc_eq)
  qed
qed

text \<open>
  The search removes the first edge to the child from the parent's subarray and no other
  edge of the graph.
\<close>

lemma CKremoveDepSearch_ok:
  assumes wf: "odg_wf G V"
  shows "\<exists>G' V'. CKremoveDepSearch p c (G, V) = Some (G', V') \<and> odg_wf G' V' \<and> same_but_deps V V'
    \<and> children G' p = remove1 c (children G p) \<and> (\<forall>x. x \<noteq> p \<longrightarrow> children G' x = children G x)
    \<and> mset (edges G') = mset (edges G) - {#\<lparr>e_parent = p, e_child = c\<rparr>#}
    \<and> oda_before G' = oda_before G"
proof (cases "c \<in> set (children G p)")
  case False
  then have "\<lparr>e_parent = p, e_child = c\<rparr> \<notin> set (edges G)"
    by (force simp: children_def)
  then have "mset (edges G) - {#\<lparr>e_parent = p, e_child = c\<rparr>#} = mset (edges G)"
    by (simp add: diff_single_trivial)
  moreover have "remove1 c (children G p) = children G p"
    using False by (rule remove1_idem)
  moreover have "CKremoveDepSearch p c (G, V) = Some (G, V)"
    using False CKdepSearch_loop_spec[OF wf, of 0 p c] by (simp add: CKremoveDepSearch_def)
  ultimately show ?thesis using wf by auto
next
  case True
  let ?cs = "children G p" and ?es = "edges G"
  let ?f = "length (takeWhile (\<lambda>e. e_parent e < p) ?es)" and ?d = "degree ?es p"
  define i where "i = (LEAST k. k < length ?cs \<and> ?cs ! k = c)"
  have ex: "\<exists>k. k < length ?cs \<and> ?cs ! k = c" using True by (auto simp: in_set_conv_nth)
  have i: "i < length ?cs" "?cs ! i = c" using LeastI_ex[OF ex] by (simp_all add: i_def)
  have least: "\<forall>k<i. ?cs ! k \<noteq> c"
  proof (intro allI impI)
    fix k assume k: "k < i"
    then have "\<not> (k < length ?cs \<and> ?cs ! k = c)" unfolding i_def by (rule not_less_Least)
    then show "?cs ! k \<noteq> c" using k i(1) by simp
  qed
  have first: "firstDependency (V p) = Some ?f" using True by (intro first_edge[OF wf]) auto
  have call: "CKremoveDepSearch p c (G, V) = CKremoveObjectDep (?f + i) (G, V)"
    using True CKdepSearch_loop_spec[OF wf, of 0 p c] first
    by (simp add: CKremoveDepSearch_def i_def)
  have grp: "filter (\<lambda>e. e_parent e = p) ?es = take ?d (drop ?f ?es)"
    by (rule group_contiguous[OF sorted_edges[OF wf]])
  have id: "i < ?d" using i(1) by (simp add: children_def degree_def)
  have len: "?f + ?d \<le> length ?es"
    using grp length_take[of ?d "drop ?f ?es"] id by (simp add: degree_def)
  let ?k = "?f + i"
  have k: "?k < length ?es" "?k < oda_used G" using len id by (simp_all add: edges_def)
  have ei: "?es ! ?k = filter (\<lambda>e. e_parent e = p) ?es ! i"
    unfolding grp using id len by simp
  have "e_parent (?es ! ?k) = p" "e_child (?es ! ?k) = c"
    using i nth_mem[of i "filter (\<lambda>e. e_parent e = p) ?es"] unfolding ei
    by (auto simp: children_def)
  then have e: "?es ! ?k = \<lparr>e_parent = p, e_child = c\<rparr>" by simp
  obtain G' V' where r: "CKremoveObjectDep ?k (G, V) = Some (G', V')" "odg_wf G' V'"
      "same_but_deps V V'" "edges G' = take ?k ?es @ drop (Suc ?k) ?es" "oda_before G' = oda_before G"
    using CKremoveObjectDep_ok[OF wf k(2)] by blast
  have es: "?es = take ?k ?es @ \<lparr>e_parent = p, e_child = c\<rparr> # drop (Suc ?k) ?es"
    using id_take_nth_drop[OF k(1)] e by simp
  have c1: "children G' x = children G x" if "x \<noteq> p" for x
  proof -
    have "filter (\<lambda>e. e_parent e = x) ?es = filter (\<lambda>e. e_parent e = x) (edges G')"
      unfolding r(4) using that by (subst es) simp
    then show ?thesis by (simp add: children_def)
  qed
  have c2: "mset (edges G') = mset ?es - {#\<lparr>e_parent = p, e_child = c\<rparr>#}"
  proof -
    have "mset ?es = add_mset \<lparr>e_parent = p, e_child = c\<rparr> (mset (edges G'))"
      unfolding r(4) by (subst es) simp
    then show ?thesis by simp
  qed
  have c3: "children G' p = remove1 c ?cs"
  proof -
    let ?P = "\<lambda>e. e_parent e = p"
    have f1: "filter ?P (take ?f ?es) = []"
      by (auto simp: filter_empty_conv takeWhile_eq_take[symmetric] dest: set_takeWhileD)
    have "\<forall>e\<in>set (take i (drop ?f ?es)). ?P e"
    proof
      fix e assume "e \<in> set (take i (drop ?f ?es))"
      then have "e \<in> set (take ?d (drop ?f ?es))"
        using id set_take_subset_set_take[of i ?d "drop ?f ?es"] by auto
      then show "?P e" unfolding grp[symmetric] by simp
    qed
    then have f2: "filter ?P (take i (drop ?f ?es)) = take i (drop ?f ?es)"
      unfolding filter_id_conv .
    have tk: "filter ?P (take ?k ?es) = take i (drop ?f ?es)"
      unfolding take_add filter_append f1 f2 append_Nil ..
    define a where "a = map e_child (filter ?P (take ?k ?es))"
    define b where "b = map e_child (filter ?P (drop (Suc ?k) ?es))"
    have la: "length a = i" unfolding tk a_def using id len by simp
    have cs: "?cs = a @ c # b" unfolding children_def a_def b_def by (subst es) simp
    have "c \<notin> set a"
    proof
      assume "c \<in> set a"
      then obtain m where "m < length a" "a ! m = c" by (auto simp: in_set_conv_nth)
      then show False using least la unfolding cs by (auto simp: nth_append)
    qed
    moreover have "children G' p = a @ b" unfolding a_def b_def by (simp add: children_def r(4))
    ultimately show ?thesis unfolding cs by (simp add: remove1_append)
  qed
  from call r(1) show ?thesis
    by (intro exI[of _ G'] exI[of _ V'] conjI allI impI c1 c2 c3 r(2,3,5)) simp
qed

section \<open>The graph's properties\<close>

lemma children_split:
  "children G p = map e_child (filter (\<lambda>e. e_parent e = p) (filter (\<lambda>e. e_parent e \<le> q) (edges G)))
     @ map e_child (filter (\<lambda>e. e_parent e = p) (filter (\<lambda>e. q < e_parent e) (edges G)))"
  (is "_ = ?L @ ?R") if "odg_wf G V"
proof -
  have srt: "sorted (map e_parent (edges G))" using sorted_edges[OF that] .
  show ?thesis
  proof (cases "p \<le> q")
    case True
    then have "filter (\<lambda>e. e_parent e = p \<and> q < e_parent e) (edges G) = []"
      by (auto simp: filter_empty_conv)
    moreover have "filter (\<lambda>e. e_parent e = p \<and> e_parent e \<le> q) (edges G) = filter (\<lambda>e. e_parent e = p) (edges G)"
      using True by (intro filter_cong) auto
    ultimately show ?thesis by (simp add: children_def conj_commute)
  next
    case False
    then have "filter (\<lambda>e. e_parent e = p \<and> e_parent e \<le> q) (edges G) = []"
      by (auto simp: filter_empty_conv)
    moreover have "filter (\<lambda>e. e_parent e = p \<and> q < e_parent e) (edges G) = filter (\<lambda>e. e_parent e = p) (edges G)"
      using False by (intro filter_cong) auto
    ultimately show ?thesis by (simp add: children_def conj_commute)
  qed
qed

lemma children_added:
  assumes wf: "odg_wf G V"
    and e: "edges G' = filter (\<lambda>e. e_parent e \<le> p) (edges G) @ [\<lparr>e_parent = p, e_child = c\<rparr>]
       @ filter (\<lambda>e. p < e_parent e) (edges G)"
  shows "children G' x = (if x = p then children G p @ [c] else children G x)"
proof -
  have "filter (\<lambda>e. e_parent e = p) (filter (\<lambda>e. p < e_parent e) (edges G)) = []"
    by (auto simp: filter_empty_conv)
  then show ?thesis
    using children_split[OF wf, of x p]
    by (cases "x = p") (simp_all add: children_def e del: filter_filter)
qed

text \<open>Two graphs with the same children for every vertex, through the headers.\<close>

definition no_header :: ObjectHeader where
  "no_header = \<lparr>objectSignature = 0, oflags = 0, objectData = 0, cap_level = 0, cap_instance = 0,
     nextObject = 0, prevObject = 0, dependencies = 0, firstDependency = None\<rparr>"

definition empty_odg :: ODG where
  "empty_odg = \<lparr>ODA = replicate MAXDEPS \<lparr>e_parent = 0, e_child = 0\<rparr>, oda_used = 0, oda_before = 0\<rparr>"

lemma empty_odg_wf: "odg_wf empty_odg (\<lambda>_. no_header)"
  by (simp add: odg_wf_def empty_odg_def oda_sorted_def firsts_ok_def degree_def edges_def no_header_def)

text \<open>C17: A dependency added to the object graph appears, last, among the children that
  the parent's header leads to, and the children of every other object stay as they were
  (graph.c, \<open>CKaddObjectDep\<close>).\<close>

theorem add_dependency:
  assumes "odg_wf G V" and "oda_used G < MAXDEPS"
    and "\<And>e. e \<in> set (edges G) \<Longrightarrow> e_parent e \<noteq> oda_before G"
  shows "\<exists>G' V'. CKaddObjectDep p c (G, V) = Some (G', V') \<and> odg_wf G' V' \<and> same_but_deps V V'
    \<and> deps_view G' V' p = deps_view G V p @ [c]
    \<and> (\<forall>x. x \<noteq> p \<longrightarrow> deps_view G' V' x = deps_view G V x)"
proof -
  obtain G' V' where r: "CKaddObjectDep p c (G, V) = Some (G', V')" "odg_wf G' V'" "same_but_deps V V'"
      "edges G' = filter (\<lambda>e. e_parent e \<le> p) (edges G) @ [\<lparr>e_parent = p, e_child = c\<rparr>]
         @ filter (\<lambda>e. p < e_parent e) (edges G)"
    using CKaddObjectDep_ok[OF assms] by metis
  then show ?thesis
    using children_added[OF assms(1) r(4)] deps_view_children[OF assms(1)] deps_view_children[OF r(2)] by auto
qed

theorem add_dependency_witness:
  "\<exists>G' V'. CKaddObjectDep 5 6 (empty_odg, \<lambda>_. no_header) = Some (G', V') \<and> odg_wf G' V'
    \<and> deps_view G' V' 5 = [6]"
  using add_dependency[OF empty_odg_wf, of 5 6]
  by (auto simp: empty_odg_def MAXDEPS_def edges_def deps_view_def no_header_def)

text \<open>C18: Removing a dependency by search takes the first such child out of the parent's
  children, changes nothing when there is none, and always returns (objmgmt.c,
  \<open>CKremoveDepSearch\<close>; graph.c, \<open>CKremoveObjectDep\<close>).\<close>

theorem remove_dependency:
  assumes "odg_wf G V"
  shows "\<exists>G' V'. CKremoveDepSearch p c (G, V) = Some (G', V') \<and> odg_wf G' V' \<and> same_but_deps V V'
    \<and> deps_view G' V' p = remove1 c (deps_view G V p)
    \<and> (\<forall>x. x \<noteq> p \<longrightarrow> deps_view G' V' x = deps_view G V x)"
proof -
  obtain G' V' where r: "CKremoveDepSearch p c (G, V) = Some (G', V')" "odg_wf G' V'" "same_but_deps V V'"
      "children G' p = remove1 c (children G p)" "\<forall>x. x \<noteq> p \<longrightarrow> children G' x = children G x"
    using CKremoveDepSearch_ok[OF assms] by metis
  then show ?thesis using deps_view_children[OF assms] deps_view_children[OF r(2)] by auto
qed

theorem remove_dependency_witness:
  "\<exists>G' V'. CKremoveDepSearch 5 6 (empty_odg, \<lambda>_. no_header) = Some (G', V') \<and> deps_view G' V' 5 = []"
  using remove_dependency[OF empty_odg_wf, of 5 6] by (auto simp: deps_view_def no_header_def)

text \<open>Adding a dependency that is not there and removing it by search gives back every
  object's children (graph.c, objmgmt.c).\<close>

theorem add_remove_dependency:
  assumes "odg_wf G V" and "oda_used G < MAXDEPS"
    and "\<And>e. e \<in> set (edges G) \<Longrightarrow> e_parent e \<noteq> oda_before G" and "c \<notin> set (deps_view G V p)"
  shows "\<exists>G1 V1 G2 V2. CKaddObjectDep p c (G, V) = Some (G1, V1)
    \<and> CKremoveDepSearch p c (G1, V1) = Some (G2, V2) \<and> odg_wf G2 V2
    \<and> (\<forall>x. deps_view G2 V2 x = deps_view G V x)"
proof -
  obtain G1 V1 where r: "CKaddObjectDep p c (G, V) = Some (G1, V1)" "odg_wf G1 V1"
      "edges G1 = filter (\<lambda>e. e_parent e \<le> p) (edges G) @ [\<lparr>e_parent = p, e_child = c\<rparr>]
         @ filter (\<lambda>e. p < e_parent e) (edges G)"
    using CKaddObjectDep_ok[OF assms(1-3)] by metis
  obtain G2 V2 where q: "CKremoveDepSearch p c (G1, V1) = Some (G2, V2)" "odg_wf G2 V2"
      "children G2 p = remove1 c (children G1 p)" "\<forall>x. x \<noteq> p \<longrightarrow> children G2 x = children G1 x"
    using CKremoveDepSearch_ok[OF r(2)] by metis
  have "children G2 x = children G x" for x
    using children_added[OF assms(1) r(3)] q(3,4) assms(4) deps_view_children[OF assms(1)]
    by (cases "x = p") (simp_all add: remove1_append)
  then show ?thesis
    using r q deps_view_children[OF assms(1)] deps_view_children[OF q(2)] by auto
qed

theorem add_remove_dependency_witness:
  "\<exists>G1 V1 G2 V2. CKaddObjectDep 5 6 (empty_odg, \<lambda>_. no_header) = Some (G1, V1)
    \<and> CKremoveDepSearch 5 6 (G1, V1) = Some (G2, V2) \<and> deps_view G2 V2 5 = []"
  using add_remove_dependency[OF empty_odg_wf, of 6 5]
  by (auto simp: empty_odg_def MAXDEPS_def edges_def deps_view_def no_header_def)

text \<open>The loop moves every edge when the new parent is before all of them.\<close>

lemma addDep_loop_all:
  "\<forall>k<n. p < e_parent (A ! k) \<Longrightarrow> n < length A \<Longrightarrow> \<exists>A' V'. addDep_loop before p n A V = (0, A', V')"
proof (induction n arbitrary: A V)
  case (Suc n)
  have "\<forall>k<n. p < e_parent (A[Suc n := A ! n] ! k)" using Suc.prems by simp
  moreover have "n < length (A[Suc n := A ! n])" using Suc.prems by simp
  ultimately show ?case using Suc.IH Suc.prems(1) by auto
qed simp

text \<open>When the word in front of the array happens to hold the first edge's parent, an
  edge added before all others leaves that parent's first-edge pointer behind: its header
  then leads to the new edge's child (graph.c reads \<open>ODA[-1].parent\<close>).\<close>

theorem add_dependency_underflow:
  assumes wf: "odg_wf G V" and n: "oda_used G < MAXDEPS" "0 < oda_used G"
    and b: "oda_before G = e_parent (ODA G ! 0)" and p: "p < e_parent (ODA G ! 0)"
  shows "\<exists>G' V'. CKaddObjectDep p c (G, V) = Some (G', V') \<and> \<not> odg_wf G' V'
    \<and> hd (deps_view G' V' (e_parent (ODA G ! 0))) = c"
proof -
  let ?x = "e_parent (ODA G ! 0)" and ?n = "oda_used G"
  let ?V1 = "V(p := (V p)\<lparr>dependencies := dependencies (V p) + 1\<rparr>)"
  have srt: "oda_sorted ?n (ODA G)" and len: "?n < length (ODA G)" using wf n by (simp_all add: odg_wf_def)
  have all: "\<forall>k<?n. p < e_parent (ODA G ! k)"
    using oda_sortedD[OF srt, of 0] p by (meson le0 order.strict_trans2)
  obtain A V2 where l: "addDep_loop (oda_before G) p ?n (ODA G) ?V1 = (0, A, V2)"
    using addDep_loop_all[OF all len] by blast
  note sp = addDep_loop_spec[OF l len]
  have prev: "prev_parent (oda_before G) (ODA G) k = ?x" if "k < ?n" "e_parent (ODA G ! k) = ?x" for k
  proof (cases "k = 0")
    case False
    have "e_parent (ODA G ! 0) \<le> e_parent (ODA G ! (k - 1))" "e_parent (ODA G ! (k - 1)) \<le> e_parent (ODA G ! k)"
      using oda_sortedD[OF srt, of 0 "k - 1"] oda_sortedD[OF srt, of "k - 1" k] that(1) by simp_all
    then have "e_parent (ODA G ! (k - 1)) = ?x" unfolding that(2) by (rule antisym[rotated])
    then show ?thesis using False by (simp add: prev_parent_def)
  qed (simp add: prev_parent_def b)
  have f0: "firstDependency (V ?x) = Some 0"
    using wf n by (auto simp: odg_wf_def firsts_ok_def group_start_def)
  have "firstDependency (V2 ?x) = firstDependency (?V1 ?x)"
    by (rule addDep_loop_unchanged[OF l len]) (use prev in blast)
  then have f: "firstDependency (V2 ?x) = Some 0" using f0 p by (simp split: if_splits)
  let ?G' = "G\<lparr>ODA := A[0 := \<lparr>e_parent = p, e_child = c\<rparr>], oda_used := Suc ?n\<rparr>"
  let ?V' = "set_first p 0 V2"
  have r: "CKaddObjectDep p c (G, V) = Some (?G', ?V')" using n l by (simp add: CKaddObjectDep_def)
  have px: "p \<noteq> ?x" using p by auto
  have "ODA G ! 0 \<in> set (edges G)" using n len by (auto simp: edges_def in_set_conv_nth)
  then have "0 < degree (edges G) ?x" by (auto simp: degree_def filter_empty_conv)
  then have "0 < unat (dependencies (V ?x))"
    using unat_dependencies[OF wf, of ?x] by (simp add: degree_def children_def)
  then have d: "0 < unat (dependencies (?V' ?x))" using sp px by simp
  have "[0..<unat (dependencies (?V' ?x))] = 0 # [1..<unat (dependencies (?V' ?x))]"
    using d by (simp add: upt_conv_Cons)
  moreover have "0 < length A" using sp len by linarith
  ultimately have h: "hd (deps_view ?G' ?V' ?x) = c"
    using f px sp len by (auto simp: deps_view_def)
  have "\<not> odg_wf ?G' ?V'"
  proof
    assume w: "odg_wf ?G' ?V'"
    then have "children ?G' ?x \<noteq> []"
      using unat_dependencies[OF w, of ?x] d by auto
    then have "firstDependency (?V' ?x) = Some (length (takeWhile (\<lambda>e. e_parent e < ?x) (edges ?G')))"
      by (rule first_edge[OF w])
    moreover have "edges ?G' = \<lparr>e_parent = p, e_child = c\<rparr> # take ?n (tl A)"
      using sp len by (cases A) (auto simp: edges_def)
    ultimately show False using f px p by simp
  qed
  then show ?thesis using r h by blast
qed

text \<open>One edge, from object 7 to object 8, and 7 in front of the array.\<close>

definition odg_seven :: ODG where
  "odg_seven = empty_odg\<lparr>ODA := \<lparr>e_parent = 7, e_child = 8\<rparr> # replicate 4095 \<lparr>e_parent = 0, e_child = 0\<rparr>,
     oda_used := 1, oda_before := 7\<rparr>"

lemma odg_seven_wf:
  "odg_wf odg_seven (\<lambda>x. if x = 7 then no_header\<lparr>dependencies := 1, firstDependency := Some 0\<rparr> else no_header)"
  by (auto simp: odg_wf_def odg_seven_def MAXDEPS_def oda_sorted_def firsts_ok_def degree_def edges_def
      no_header_def)

theorem add_dependency_underflow_witness:
  "\<exists>G' V'. CKaddObjectDep 5 6 (odg_seven, \<lambda>x. if x = 7 then no_header\<lparr>dependencies := 1, firstDependency := Some 0\<rparr>
     else no_header) = Some (G', V') \<and> \<not> odg_wf G' V' \<and> hd (deps_view G' V' 7) = 6"
  using add_dependency_underflow[OF odg_seven_wf, of 5 6] by (simp add: odg_seven_def MAXDEPS_def)

end
