(* ===== verification/CK_Dll.thy ===== *)
theory CK_Dll
  imports CK_Prelude
begin

text \<open>
  Doubly linked lists, as the free list of \<^verbatim>\<open>KL/Alloc/FreelistAlloc.c\<close>, the object lists of
  \<^verbatim>\<open>CK/objmgmt.c\<close> and the resource lists of \<^verbatim>\<open>CK/resource.c\<close> use them: the links are
  fields of the elements, here two functions from addresses to addresses, and NIL ends the
  list. \<open>dseg n p a c xs e\<close> says that following \<open>n\<close> from \<open>c\<close> visits \<open>xs\<close> and arrives at
  \<open>e\<close>, and that \<open>p\<close> leads back to \<open>a\<close>.
\<close>

fun dseg :: "(addr \<Rightarrow> addr) \<Rightarrow> (addr \<Rightarrow> addr) \<Rightarrow> addr \<Rightarrow> addr \<Rightarrow> addr list \<Rightarrow> addr \<Rightarrow> bool" where
  "dseg n p a c [] e \<longleftrightarrow> c = e"
| "dseg n p a c (x # xs) e \<longleftrightarrow> c = x \<and> x \<noteq> NIL \<and> p x = a \<and> dseg n p x (n x) xs e"

abbreviation dlist :: "(addr \<Rightarrow> addr) \<Rightarrow> (addr \<Rightarrow> addr) \<Rightarrow> addr \<Rightarrow> addr list \<Rightarrow> bool" where
  "dlist n p h xs \<equiv> dseg n p NIL h xs NIL"

text \<open>The first element, or the pointer behind an empty list; the last, or the one before.\<close>

definition first_or :: "addr \<Rightarrow> addr list \<Rightarrow> addr" where
  "first_or e xs = (case xs of [] \<Rightarrow> e | x # _ \<Rightarrow> x)"

definition last_or :: "addr \<Rightarrow> addr list \<Rightarrow> addr" where
  "last_or a xs = (if xs = [] then a else last xs)"

lemma first_or_simps [simp]: "first_or e [] = e" "first_or e (x # xs) = x"
  by (simp_all add: first_or_def)

lemma last_or_simps [simp]: "last_or a [] = a" "last_or a (xs @ [x]) = x"
    "last_or a (x # xs) = last_or x xs"
  by (simp_all add: last_or_def)

lemma first_or_append: "first_or e (us @ vs) = first_or (first_or e vs) us"
  by (cases us) simp_all

lemma last_or_append: "last_or a (us @ vs) = last_or (last_or a us) vs"
  by (induction us arbitrary: a) simp_all

lemma dseg_first: "dseg n p a c xs e \<Longrightarrow> c = first_or e xs"
  by (cases xs) simp_all

lemma dseg_NIL: "dseg n p a c xs e \<Longrightarrow> NIL \<notin> set xs"
  by (induction xs arbitrary: a c) auto

lemma last_or_NIL: "NIL \<notin> set xs \<Longrightarrow> last_or NIL xs = NIL \<longleftrightarrow> xs = []"
  by (cases xs rule: rev_cases) auto

lemma first_or_NIL: "NIL \<notin> set xs \<Longrightarrow> first_or NIL xs = NIL \<longleftrightarrow> xs = []"
  by (cases xs) auto

lemma dseg_append:
  "dseg n p a c (us @ vs) e \<longleftrightarrow>
     dseg n p a c us (first_or e vs) \<and> dseg n p (last_or a us) (first_or e vs) vs e"
proof (induction us arbitrary: a c)
  case Nil
  then show ?case by (auto dest: dseg_first)
qed auto

lemma dseg_cong:
  assumes "\<And>x. x \<in> set xs \<Longrightarrow> n' x = n x \<and> p' x = p x"
  shows "dseg n' p' a c xs e \<longleftrightarrow> dseg n p a c xs e"
  using assms by (induction xs arbitrary: a c) auto

lemma dseg_upd [simp]:
  "y \<notin> set xs \<Longrightarrow> dseg (n(y := z)) p a c xs e \<longleftrightarrow> dseg n p a c xs e"
  "y \<notin> set xs \<Longrightarrow> dseg n (p(y := z)) a c xs e \<longleftrightarrow> dseg n p a c xs e"
  by (rule dseg_cong; auto)+

lemma dseg_redirect:
  assumes "dseg n p a c (us @ [u]) e" and "distinct (us @ [u])"
  shows "dseg (n(u := e')) p a c (us @ [u]) e'"
  using assms by (auto simp: dseg_append)

lemma dlist_links:
  assumes "dlist n p h (us @ x # vs)"
  shows "p x = last_or NIL us" "n x = first_or NIL vs" "x \<noteq> NIL" "h = first_or x us"
  using assms dseg_first[of n p x "n x" vs NIL] dseg_first[of n p NIL h us x]
  by (auto simp: dseg_append)

text \<open>Unlinking an element, and linking one in between \<open>us\<close> and \<open>vs\<close>.\<close>

lemma dlist_remove:
  assumes d: "dlist n p h (us @ x # vs)" and dist: "distinct (us @ x # vs)"
  shows "dlist (if p x \<noteq> NIL then n(p x := n x) else n)
               (if n x \<noteq> NIL then p(n x := p x) else p)
               (if p x \<noteq> NIL then h else n x) (us @ vs)"
proof -
  note l = dlist_links[OF d]
  have nil: "NIL \<notin> set us" "NIL \<notin> set vs" using dseg_NIL[OF d] by auto
  have us: "dseg n p NIL h us x" and vs: "dseg n p x (n x) vs NIL"
    using d by (auto simp: dseg_append)
  let ?n = "if p x \<noteq> NIL then n(p x := n x) else n"
  let ?p = "if n x \<noteq> NIL then p(n x := p x) else p"
  let ?h = "if p x \<noteq> NIL then h else n x"
  have p1: "dseg ?n p NIL ?h us (n x)"
  proof (cases us rule: rev_cases)
    case (snoc us' u)
    then show ?thesis
      using us l(1) nil dist dseg_redirect[of n p NIL h us' u x "n x"] by simp
  qed (use l in simp)
  have "dseg ?n ?p NIL ?h us (n x)"
    using p1 dist l(2) by (cases vs) auto
  moreover have "dseg ?n ?p (last_or NIL us) (n x) vs NIL"
  proof (cases vs)
    case (Cons v vs')
    have "dseg ?n ?p v (n v) vs' NIL"
      using vs dist l(1) Cons nil by (cases us rule: rev_cases) auto
    moreover have "?n v = n v"
      using dist l(1) Cons nil by (cases us rule: rev_cases) auto
    ultimately show ?thesis using l Cons nil by auto
  qed (use l in simp)
  ultimately show ?thesis
    unfolding dseg_append l(2)[symmetric] by blast
qed

lemma dlist_insert:
  assumes d: "dlist n p h (us @ vs)" and dist: "distinct (us @ x # vs)" and x: "x \<noteq> NIL"
    and a: "a = last_or NIL us" and b: "b = first_or NIL vs"
  shows "dlist (if a \<noteq> NIL then n(x := b, a := x) else n(x := b))
               (if b \<noteq> NIL then p(x := a, b := x) else p(x := a))
               (if a \<noteq> NIL then h else x) (us @ x # vs)"
proof -
  have nil: "NIL \<notin> set us" "NIL \<notin> set vs" using dseg_NIL[OF d] by auto
  have us: "dseg n p NIL h us b" and vs: "dseg n p a b vs NIL"
    using d a b by (auto simp: dseg_append)
  let ?n = "if a \<noteq> NIL then n(x := b, a := x) else n(x := b)"
  let ?p = "if b \<noteq> NIL then p(x := a, b := x) else p(x := a)"
  let ?h = "if a \<noteq> NIL then h else x"
  have "dseg (n(x := b)) (p(x := a)) NIL h us b" using us dist by simp
  then have "dseg ?n (p(x := a)) NIL ?h us x"
    using dseg_redirect[of "n(x := b)" "p(x := a)" NIL h "butlast us" "last us" b x] dist a nil
    by (cases us rule: rev_cases) auto
  then have "dseg ?n ?p NIL ?h us x"
    using b dist by (cases vs) auto
  moreover have "dseg ?n ?p x b vs NIL"
  proof (cases vs)
    case (Cons v vs')
    have "a \<notin> set vs" "x \<notin> set vs" using a dist nil by (cases us rule: rev_cases; auto)+
    then show ?thesis using vs Cons b dist nil by auto
  qed (use b in simp)
  moreover have "?p x = a" "?n x = b" using a b dist by (cases vs; cases us rule: rev_cases; auto)+
  ultimately show ?thesis
    using x a unfolding dseg_append by simp
qed

lemma dseg_unique: "dseg n p a c xs NIL \<Longrightarrow> dseg n p a c ys NIL \<Longrightarrow> xs = ys"
proof (induction xs arbitrary: a c ys)
  case Nil
  then show ?case by (cases ys) auto
next
  case (Cons x xs)
  then show ?case by (cases ys) auto
qed

section \<open>Headers with two links\<close>

text \<open>
  Objects and resources carry the links of their list in a header. Linking a header before
  the head whose own links have been filled in; taking one out, which gives the new head.
\<close>

definition dll_link :: "(addr \<Rightarrow> 'r \<Rightarrow> 'r) \<Rightarrow> addr \<Rightarrow> addr \<Rightarrow> (addr \<Rightarrow> 'r) \<Rightarrow> (addr \<Rightarrow> 'r)" where
  "dll_link set_nxt a head V = (if head \<noteq> NIL then V(head := set_nxt a (V head)) else V)"

definition dll_unlink :: "('r \<Rightarrow> addr) \<Rightarrow> ('r \<Rightarrow> addr) \<Rightarrow> (addr \<Rightarrow> 'r \<Rightarrow> 'r) \<Rightarrow> (addr \<Rightarrow> 'r \<Rightarrow> 'r) \<Rightarrow> addr
    \<Rightarrow> addr \<times> (addr \<Rightarrow> 'r) \<Rightarrow> addr \<times> (addr \<Rightarrow> 'r)" where
  "dll_unlink prv nxt set_prv set_nxt a = (\<lambda>(head, V).
     let V1 = (if prv (V a) \<noteq> NIL then V(prv (V a) := set_nxt (nxt (V a)) (V (prv (V a)))) else V)
     in if nxt (V1 a) \<noteq> NIL then (head, V1(nxt (V1 a) := set_prv (prv (V1 a)) (V1 (nxt (V1 a)))))
        else (prv (V1 a), V1))"

locale linked_headers =
  fixes prv nxt :: "'r \<Rightarrow> addr" and set_prv set_nxt :: "addr \<Rightarrow> 'r \<Rightarrow> 'r"
  assumes prv_set_prv: "prv (set_prv x r) = x" and prv_set_nxt: "prv (set_nxt x r) = prv r"
    and nxt_set_nxt: "nxt (set_nxt x r) = x" and nxt_set_prv: "nxt (set_prv x r) = nxt r"
begin

lemmas laws = prv_set_prv prv_set_nxt nxt_set_nxt nxt_set_prv

text \<open>The list of the headers, from the head along \<open>prv\<close>.\<close>

abbreviation peers :: "(addr \<Rightarrow> 'r) \<Rightarrow> addr \<Rightarrow> addr list \<Rightarrow> bool" where
  "peers V head xs \<equiv> dlist (\<lambda>x. prv (V x)) (\<lambda>x. nxt (V x)) head xs"

lemma link_ok:
  assumes d: "peers V head xs" "distinct xs" and a: "a \<notin> set xs" "a \<noteq> NIL"
    and w: "prv w = head" "nxt w = NIL"
  shows "peers (dll_link set_nxt a head (V(a := w))) a (a # xs)"
proof -
  have h: "head = first_or NIL xs" using dseg_first[OF d(1)] .
  have ha: "head \<noteq> a" using h a by (cases xs) auto
  have "(\<lambda>x. prv (dll_link set_nxt a head (V(a := w)) x)) = (\<lambda>x. prv (V x))(a := head)"
    "(\<lambda>x. nxt (dll_link set_nxt a head (V(a := w)) x))
      = (if head \<noteq> NIL then (\<lambda>x. nxt (V x))(a := NIL, head := a) else (\<lambda>x. nxt (V x))(a := NIL))"
    using ha w by (auto simp: dll_link_def fun_eq_iff laws)
  then show ?thesis
    using dlist_insert[of "\<lambda>x. prv (V x)" "\<lambda>x. nxt (V x)" head "[]" xs a NIL head] d a h
    by simp
qed

lemma unlink_ok:
  assumes d: "peers V head (us @ a # vs)" "distinct (us @ a # vs)"
    and r: "dll_unlink prv nxt set_prv set_nxt a (head, V) = (head', V')"
  shows "peers V' head' (us @ vs)"
    and "\<exists>z. V' x = V x \<or> V' x = set_nxt z (V x) \<or> V' x = set_prv z (V x)"
proof -
  note l = dlist_links[OF d(1)]
  have m: "first_or NIL vs \<noteq> NIL \<Longrightarrow> first_or NIL vs \<in> set vs" "last_or NIL us \<noteq> NIL \<Longrightarrow> last_or NIL us \<in> set us"
    by (cases vs; simp) (cases us rule: rev_cases; simp)
  let ?p = "prv (V a)" and ?q = "nxt (V a)"
  have n: "?p \<noteq> a" "?q \<noteq> a" using m d(2) l(1-3) by auto
  have pq: "?q \<noteq> ?p" if "?p \<noteq> NIL"
  proof
    assume e: "?q = ?p"
    have "last_or NIL us = first_or NIL vs" "first_or NIL vs \<noteq> NIL" using that e unfolding l(1,2) by simp_all
    with m have "set us \<inter> set vs \<noteq> {}" by auto
    then show False using d(2) by auto
  qed
  define W where "W = (if ?p \<noteq> NIL then V(?p := set_nxt ?q (V ?p)) else V)"
  have V1: "W a = V a" using n by (simp add: W_def)
  have "(if ?q \<noteq> NIL then (head, W(?q := set_prv ?p (W ?q))) else (?p, W)) = (head', V')"
    using r unfolding dll_unlink_def Let_def prod.case W_def[symmetric] V1 .
  then have hv: "head' = (if ?q \<noteq> NIL then head else ?p)" "V' = (if ?q \<noteq> NIL then W(?q := set_prv ?p (W ?q)) else W)"
    by (cases "?q \<noteq> NIL"; simp)+
  have e: "(\<lambda>x. prv (V' x)) = (if ?q \<noteq> NIL then (\<lambda>x. prv (V x))(?q := ?p) else (\<lambda>x. prv (V x)))"
    "(\<lambda>x. nxt (V' x)) = (if ?p \<noteq> NIL then (\<lambda>x. nxt (V x))(?p := ?q) else (\<lambda>x. nxt (V x)))"
    unfolding hv(2) W_def by (rule ext, simp add: laws)+
  note e = e hv(1)
  show "peers V' head' (us @ vs)" using dlist_remove[OF d] by (simp only: e)
  show "\<exists>z. V' x = V x \<or> V' x = set_nxt z (V x) \<or> V' x = set_prv z (V x)"
    using pq unfolding hv(2) W_def by (cases "?p = NIL"; cases "?q = NIL") (auto intro: exI[of _ ?p] exI[of _ ?q])
qed

end

end
