(* ===== verification/KL_Freelist.thy ===== *)
theory KL_Freelist
  imports CK_Dll
begin

text \<open>
  The free list allocator of the kernel library: \<^verbatim>\<open>KL/Alloc/FreelistAlloc.c\<close>, with the
  structures of \<^verbatim>\<open>development/include/klibs.h\<close>. Free blocks are headed by a
  \<open>KLfreeListEntry\<close> in the block itself; they are in one list by address and in one of
  eight lists by size class. The entries are a store from addresses to records, so the
  links, and every write through them, are those of the code. The three callbacks of the
  descriptor are functions the client supplies, over an environment \<open>'e\<close> of its own.
\<close>

section \<open>The structures (klibs.h)\<close>

record KLfreeListEntry =
  fprev :: addr
  fnext :: addr
  fprevsize :: addr
  fnextsize :: addr
  fsize :: u32
  flookup :: nat

type_synonym FLMEM = "addr \<Rightarrow> KLfreeListEntry"

abbreviation entry_size :: u32 where
  "entry_size \<equiv> 24"

record 'e KLfreeListDescriptor =
  FirstFreeEntry :: addr
  FirstFreeSizeEntry :: "addr list"
  FreeMemory :: u32
  AllocChunk :: "(u32 \<Rightarrow> 'e \<Rightarrow> addr \<times> u32 \<times> 'e) option"
  PrepareFreeChunk :: "(addr \<Rightarrow> u32 \<Rightarrow> 'e \<Rightarrow> bool \<times> addr \<times> u32 \<times> 'e) option"
  FreeChunk :: "(addr \<Rightarrow> u32 \<Rightarrow> 'e \<Rightarrow> 'e) option"
  DisallowFreeChunk :: bool
  flmem :: FLMEM
  flenv :: 'e

abbreviation put_entry :: "addr \<Rightarrow> (KLfreeListEntry \<Rightarrow> KLfreeListEntry)
    \<Rightarrow> 'e KLfreeListDescriptor \<Rightarrow> 'e KLfreeListDescriptor" where
  "put_entry a f D \<equiv> D\<lparr>flmem := (flmem D)(a := f (flmem D a))\<rparr>"

section \<open>List surgery\<close>

definition KLgetFastLookupToUse :: "u32 \<Rightarrow> nat" where
  "KLgetFastLookupToUse sz =
     (if 2 ^ 13 \<le> sz then
        (if 2 ^ 17 \<le> sz then (if 2 ^ 19 \<le> sz then 7 else 6)
         else (if 2 ^ 15 \<le> sz then 5 else 4))
      else
        (if 2 ^ 9 \<le> sz then (if 2 ^ 11 \<le> sz then 3 else 2)
         else (if 2 ^ 7 \<le> sz then 1 else 0)))"

definition KLfreeListSizeRemove :: "addr \<Rightarrow> 'e KLfreeListDescriptor \<Rightarrow> 'e KLfreeListDescriptor" where
  "KLfreeListSizeRemove entry D =
     (let e = flmem D entry;
          D1 = (if fnextsize e \<noteq> NIL
                then put_entry (fnextsize e) (\<lambda>x. x\<lparr>fprevsize := fprevsize e\<rparr>) D else D)
      in if fprevsize e \<noteq> NIL
         then put_entry (fprevsize e) (\<lambda>x. x\<lparr>fnextsize := fnextsize e\<rparr>) D1
         else D1\<lparr>FirstFreeSizeEntry := (FirstFreeSizeEntry D1)[flookup e := fnextsize e]\<rparr>)"

definition KLfreeListSizeInsert :: "addr \<Rightarrow> 'e KLfreeListDescriptor \<Rightarrow> 'e KLfreeListDescriptor" where
  "KLfreeListSizeInsert entry D =
     (let t = KLgetFastLookupToUse (fsize (flmem D entry));
          nx = FirstFreeSizeEntry D ! t;
          D1 = put_entry entry (\<lambda>x. x\<lparr>flookup := t, fprevsize := NIL, fnextsize := nx\<rparr>) D;
          D2 = (if nx \<noteq> NIL then put_entry nx (\<lambda>x. x\<lparr>fprevsize := entry\<rparr>) D1 else D1)
      in D2\<lparr>FirstFreeSizeEntry := (FirstFreeSizeEntry D2)[t := entry]\<rparr>)"

definition KLfreeListRemove :: "addr \<Rightarrow> 'e KLfreeListDescriptor \<Rightarrow> 'e KLfreeListDescriptor" where
  "KLfreeListRemove entry D =
     (let e = flmem D entry;
          D1 = (if fprev e \<noteq> NIL then put_entry (fprev e) (\<lambda>x. x\<lparr>fnext := fnext e\<rparr>) D
                else D\<lparr>FirstFreeEntry := fnext e\<rparr>);
          D2 = (if fnext e \<noteq> NIL then put_entry (fnext e) (\<lambda>x. x\<lparr>fprev := fprev e\<rparr>) D1 else D1)
      in KLfreeListSizeRemove entry D2)"

definition KLfreeListInsert ::
  "addr \<Rightarrow> addr \<Rightarrow> addr \<Rightarrow> 'e KLfreeListDescriptor \<Rightarrow> 'e KLfreeListDescriptor" where
  "KLfreeListInsert preventry entry nextentry D =
     (let D1 = put_entry entry (\<lambda>x. x\<lparr>fprev := preventry, fnext := nextentry\<rparr>) D;
          D2 = (if preventry \<noteq> NIL then put_entry preventry (\<lambda>x. x\<lparr>fnext := entry\<rparr>) D1
                else D1\<lparr>FirstFreeEntry := entry\<rparr>);
          D3 = (if nextentry \<noteq> NIL then put_entry nextentry (\<lambda>x. x\<lparr>fprev := entry\<rparr>) D2 else D2)
      in KLfreeListSizeInsert entry D3)"

definition AdjustSize :: "u32 \<Rightarrow> u32" where
  "AdjustSize sz = (if sz < entry_size then entry_size else (sz + 3) AND (- 4))"

abbreviation set_size :: "addr \<Rightarrow> u32 \<Rightarrow> 'e KLfreeListDescriptor \<Rightarrow> 'e KLfreeListDescriptor" where
  "set_size a n \<equiv> put_entry a (\<lambda>x. x\<lparr>fsize := n\<rparr>)"

section \<open>Freeing\<close>

text \<open>
  A block whose chunk the client takes back is not inserted. The code's nested tests leave
  it out of the list also when they do not call \<open>FreeChunk\<close>.
\<close>

definition KLfreeListMemFreeChunk ::
  "addr \<Rightarrow> addr \<Rightarrow> addr \<Rightarrow> 'e KLfreeListDescriptor \<Rightarrow> 'e KLfreeListDescriptor" where
  "KLfreeListMemFreeChunk preventry entry nextentry D =
     (case (DisallowFreeChunk D, PrepareFreeChunk D, FreeChunk D) of
        (False, Some prep, Some free) \<Rightarrow>
          (let orgsize = fsize (flmem D entry);
               (ok, intdata, sz, env) = prep entry orgsize (flenv D);
               D1 = D\<lparr>flenv := env\<rparr> in
           if ok then
             (let prevsize = intdata - entry;
                  nextsize = (intdata + sz) - (entry + orgsize) in
              if prevsize \<noteq> 0 \<and> entry_size < prevsize \<and> (nextsize = 0 \<or> entry_size < nextsize) then
                (let D2 = D1\<lparr>flenv := free intdata sz (flenv D1)\<rparr>;
                     D3 = KLfreeListInsert preventry entry nextentry (set_size entry prevsize D2)
                 in if nextsize \<noteq> 0
                    then KLfreeListInsert entry (intdata + sz) nextentry
                           (set_size (intdata + sz) nextsize D3)
                    else D3)
              else D1)
           else KLfreeListInsert preventry entry nextentry D1)
      | _ \<Rightarrow> KLfreeListInsert preventry entry nextentry D)"

text \<open>The walk to the block's neighbours; \<open>None\<close> when the list has no end.\<close>

partial_function (option) free_walk :: "FLMEM \<Rightarrow> addr \<Rightarrow> addr \<Rightarrow> addr option" where
  "free_walk M intdata nextentry =
     (if fnext (M nextentry) \<noteq> NIL then
        (if intdata < nextentry then Some nextentry
         else free_walk M intdata (fnext (M nextentry)))
      else Some nextentry)"

text \<open>
  The end of \<open>KLfreeListMemFree\<close>, once the neighbours are known: join with the block
  before, join with the block behind, insert.
\<close>

definition free_join ::
  "addr \<Rightarrow> addr \<Rightarrow> addr \<Rightarrow> u32 \<Rightarrow> 'e KLfreeListDescriptor \<Rightarrow> 'e KLfreeListDescriptor" where
  "free_join preventry data nextentry sz D =
     (let (intdata, sz, preventry, D) =
        (if preventry \<noteq> NIL \<and> preventry + fsize (flmem D preventry) = data
         then (preventry, sz + fsize (flmem D preventry), fprev (flmem D preventry),
               KLfreeListRemove preventry D)
         else (data, sz, preventry, D)) in
      if nextentry \<noteq> NIL \<and> intdata + sz = nextentry
      then (let sz = sz + fsize (flmem D nextentry);
                nn = fnext (flmem D nextentry);
                D = KLfreeListRemove nextentry D
            in KLfreeListMemFreeChunk preventry intdata nn (set_size intdata sz D))
      else KLfreeListMemFreeChunk preventry intdata nextentry (set_size intdata sz D))"

definition KLfreeListMemFree ::
  "addr \<Rightarrow> u32 \<Rightarrow> 'e KLfreeListDescriptor \<Rightarrow> 'e KLfreeListDescriptor option" where
  "KLfreeListMemFree data sz0 D0 =
     (let sz = AdjustSize sz0;
          D = D0\<lparr>FreeMemory := FreeMemory D0 + sz\<rparr> in
      if FirstFreeEntry D \<noteq> NIL then
        do {
          w \<leftarrow> free_walk (flmem D) data (FirstFreeEntry D);
          Some (if data < w then free_join (fprev (flmem D w)) data w sz D
                else free_join w data NIL sz D)
        }
      else Some (KLfreeListMemFreeChunk NIL data NIL (set_size data sz D)))"

section \<open>Allocating\<close>

text \<open>
  The scan of one size list: a perfect match ends it, otherwise it keeps the best block
  that leaves room for the header of the remainder.
\<close>

partial_function (option) alloc_scan ::
  "FLMEM \<Rightarrow> u32 \<Rightarrow> addr \<Rightarrow> u32 \<Rightarrow> addr \<Rightarrow> (addr option \<times> u32 \<times> addr) option" where
  "alloc_scan M sz entry bestleft bestentry =
     (if entry = NIL then Some (None, bestleft, bestentry)
      else if sz \<le> fsize (M entry) then
        (let left = fsize (M entry) - sz in
         if left \<noteq> 0 then
           (if entry_size \<le> left \<and> left \<le> bestleft
            then alloc_scan M sz (fnextsize (M entry)) left entry
            else alloc_scan M sz (fnextsize (M entry)) bestleft bestentry)
         else Some (Some entry, bestleft, bestentry))
      else alloc_scan M sz (fnextsize (M entry)) bestleft bestentry)"

definition take_perfect :: "addr \<Rightarrow> u32 \<Rightarrow> 'e KLfreeListDescriptor \<Rightarrow> 'e KLfreeListDescriptor" where
  "take_perfect entry sz D =
     (let D1 = KLfreeListRemove entry D in D1\<lparr>FreeMemory := FreeMemory D1 - sz\<rparr>)"

definition take_best ::
  "addr \<Rightarrow> u32 \<Rightarrow> u32 \<Rightarrow> 'e KLfreeListDescriptor \<Rightarrow> 'e KLfreeListDescriptor" where
  "take_best bestentry bestleft sz D =
     (let newentry = bestentry + sz;
          preventry = fprev (flmem D bestentry);
          nextentry = fnext (flmem D bestentry);
          D1 = KLfreeListRemove bestentry D;
          D2 = KLfreeListInsert preventry newentry nextentry (set_size newentry bestleft D1)
      in D2\<lparr>FreeMemory := FreeMemory D2 - sz\<rparr>)"

text \<open>The loop over the size classes: \<open>Some None\<close> when no class has a block.\<close>

primrec alloc_tables ::
  "u32 \<Rightarrow> 'e KLfreeListDescriptor \<Rightarrow> u32 \<Rightarrow> addr \<Rightarrow> nat list
     \<Rightarrow> (addr \<times> 'e KLfreeListDescriptor) option option" where
  "alloc_tables sz D bestleft bestentry [] = Some None"
| "alloc_tables sz D bestleft bestentry (t # ts) =
     do {
       (perfect, bl, be) \<leftarrow>
         alloc_scan (flmem D) sz (FirstFreeSizeEntry D ! t) bestleft bestentry;
       case perfect of
         Some e \<Rightarrow> Some (Some (e, take_perfect e sz D))
       | None \<Rightarrow> if be \<noteq> NIL then Some (Some (be, take_best be bl sz D))
                 else alloc_tables sz D bl be ts
     }"

definition alloc_pass ::
  "u32 \<Rightarrow> 'e KLfreeListDescriptor \<Rightarrow> (addr \<times> 'e KLfreeListDescriptor) option option" where
  "alloc_pass sz D = alloc_tables sz D (- 1) NIL [KLgetFastLookupToUse sz..<8]"

text \<open>When a pass finds nothing the client is asked once for a chunk, and the pass is retried.\<close>

definition KLfreeListMemAlloc ::
  "u32 \<Rightarrow> 'e KLfreeListDescriptor \<Rightarrow> (addr \<times> 'e KLfreeListDescriptor) option" where
  "KLfreeListMemAlloc sz0 D =
     (let sz = AdjustSize sz0 in
      do {
        r \<leftarrow> alloc_pass sz D;
        case r of
          Some found \<Rightarrow> Some found
        | None \<Rightarrow>
            (case AllocChunk D of
               None \<Rightarrow> Some (NIL, D)
             | Some chunk \<Rightarrow>
                 (let (data, left, env) = chunk sz (flenv D); D1 = D\<lparr>flenv := env\<rparr> in
                  if data \<noteq> 0 then
                    do {
                      D2 \<leftarrow> KLfreeListMemFree data left (D1\<lparr>DisallowFreeChunk := False\<rparr>);
                      let D3 = D2\<lparr>DisallowFreeChunk := True\<rparr>;
                      r2 \<leftarrow> alloc_pass sz D3;
                      Some (case r2 of Some found \<Rightarrow> found | None \<Rightarrow> (NIL, D3))
                    }
                  else Some (NIL, D1)))
      })"

section \<open>Allocating aligned\<close>

text \<open>
  Where an aligned block starts in a free block at \<open>entry\<close> of \<open>n\<close> bytes, and the bytes from
  there to the end of the free block, zero if there are none. The start leaves room for
  the header of the bytes in front of it.
\<close>

definition align_fit :: "nat \<Rightarrow> addr \<Rightarrow> u32 \<Rightarrow> addr \<times> u32" where
  "align_fit alignment entry n =
     (let alignadd = push_bit alignment 1 - 1;
          alignmask = - push_bit alignment 1;
          data = (entry + alignadd) AND alignmask;
          left = data - entry in
      if left \<noteq> 0 then
        (let (data, left) =
           (if left < entry_size
            then (let d = (entry + entry_size + alignadd) AND alignmask in (d, d - entry))
            else (data, left))
         in (data, if n < left then 0 else n - left))
      else (data, n))"

text \<open>A perfect match is the entry and the start; otherwise the best so far is kept.\<close>

partial_function (option) align_scan ::
  "FLMEM \<Rightarrow> nat \<Rightarrow> u32 \<Rightarrow> addr \<Rightarrow> u32 \<Rightarrow> addr \<Rightarrow> addr
     \<Rightarrow> ((addr \<times> addr) option \<times> u32 \<times> addr \<times> addr) option" where
  "align_scan M al sz entry bestleft bestentry result =
     (if entry = NIL then Some (None, bestleft, bestentry, result)
      else if sz \<le> fsize (M entry) \<and> sz \<le> snd (align_fit al entry (fsize (M entry))) then
        (let data = fst (align_fit al entry (fsize (M entry)));
             left = snd (align_fit al entry (fsize (M entry))) - sz in
         if left \<noteq> 0 then
           (if entry_size \<le> left \<and> left \<le> bestleft
            then align_scan M al sz (fnextsize (M entry)) left entry data
            else align_scan M al sz (fnextsize (M entry)) bestleft bestentry result)
         else Some (Some (entry, data), bestleft, bestentry, result))
      else align_scan M al sz (fnextsize (M entry)) bestleft bestentry result)"

text \<open>Taking the end of a block: the block goes, or shrinks and changes its size list.\<close>

definition take_tail :: "addr \<Rightarrow> addr \<Rightarrow> u32 \<Rightarrow> 'e KLfreeListDescriptor \<Rightarrow> 'e KLfreeListDescriptor" where
  "take_tail entry data sz D =
     (let D1 = (if data = entry then KLfreeListRemove entry D
                else KLfreeListSizeInsert entry
                       (set_size entry (data - entry) (KLfreeListSizeRemove entry D)))
      in D1\<lparr>FreeMemory := FreeMemory D1 - sz\<rparr>)"

text \<open>Taking the middle of a block: what is in front and what is behind are inserted.\<close>

definition take_middle ::
  "addr \<Rightarrow> addr \<Rightarrow> u32 \<Rightarrow> u32 \<Rightarrow> 'e KLfreeListDescriptor \<Rightarrow> 'e KLfreeListDescriptor" where
  "take_middle entry result left sz D =
     (let preventry = fprev (flmem D entry);
          nextentry = fnext (flmem D entry);
          D1 = KLfreeListRemove entry D;
          (preventry, D2) =
            (if result \<noteq> entry
             then (entry, KLfreeListInsert preventry entry nextentry (set_size entry (result - entry) D1))
             else (preventry, D1));
          D3 = KLfreeListInsert preventry (result + sz) nextentry (set_size (result + sz) left D2)
      in D3\<lparr>FreeMemory := FreeMemory D3 - sz\<rparr>)"

primrec align_tables ::
  "nat \<Rightarrow> u32 \<Rightarrow> 'e KLfreeListDescriptor \<Rightarrow> u32 \<Rightarrow> addr \<Rightarrow> addr \<Rightarrow> nat list
     \<Rightarrow> (addr \<times> 'e KLfreeListDescriptor) option option" where
  "align_tables al sz D bestleft bestentry result [] = Some None"
| "align_tables al sz D bestleft bestentry result (t # ts) =
     do {
       (perfect, bl, be, res) \<leftarrow>
         align_scan (flmem D) al sz (FirstFreeSizeEntry D ! t) bestleft bestentry result;
       case perfect of
         Some (e, data) \<Rightarrow> Some (Some (data, take_tail e data sz D))
       | None \<Rightarrow> if be \<noteq> NIL then Some (Some (res, take_middle be res bl sz D))
                 else align_tables al sz D bl be res ts
     }"

definition align_pass ::
  "nat \<Rightarrow> u32 \<Rightarrow> 'e KLfreeListDescriptor \<Rightarrow> (addr \<times> 'e KLfreeListDescriptor) option option" where
  "align_pass al sz D = align_tables al sz D (- 1) NIL 0 [KLgetFastLookupToUse sz..<8]"

definition KLfreeListMemAllocAlign ::
  "u32 \<Rightarrow> nat \<Rightarrow> 'e KLfreeListDescriptor \<Rightarrow> (addr \<times> 'e KLfreeListDescriptor) option" where
  "KLfreeListMemAllocAlign sz0 alignment D =
     (let sz = AdjustSize sz0 in
      do {
        r \<leftarrow> align_pass alignment sz D;
        case r of
          Some found \<Rightarrow> Some found
        | None \<Rightarrow>
            (case AllocChunk D of
               None \<Rightarrow> Some (NIL, D)
             | Some chunk \<Rightarrow>
                 (let (data, left, env) = chunk sz (flenv D); D1 = D\<lparr>flenv := env\<rparr> in
                  if data \<noteq> 0 then
                    do {
                      D2 \<leftarrow> KLfreeListMemFree data left (D1\<lparr>DisallowFreeChunk := False\<rparr>);
                      let D3 = D2\<lparr>DisallowFreeChunk := True\<rparr>;
                      r2 \<leftarrow> align_pass alignment sz D3;
                      Some (case r2 of Some found \<Rightarrow> found | None \<Rightarrow> (NIL, D3))
                    }
                  else Some (NIL, D1)))
      })"

section \<open>Allocating a given region\<close>

text \<open>
  What the scan of a size list finds: nothing, a block to take from, or a reason to give
  up at once (\<open>Giveup\<close>: the bytes in front have no room for a header).
\<close>

datatype region_scan = NotHere | Giveup | Found addr u32

partial_function (option) region_search ::
  "FLMEM \<Rightarrow> addr \<Rightarrow> u32 \<Rightarrow> addr \<Rightarrow> region_scan option" where
  "region_search M data sz entry =
     (if entry = NIL then Some NotHere
      else if entry \<le> data then
        (let left = data - entry in
         if left \<noteq> 0 \<and> left < entry_size then Some Giveup
         else
           (let left = (if left \<noteq> 0 then (if fsize (M entry) < left then 0 else fsize (M entry) - left)
                        else fsize (M entry))
            in if sz \<le> left then Some (Found entry (left - sz))
               else region_search M data sz (fnextsize (M entry))))
      else Some NotHere)"

primrec region_tables ::
  "addr \<Rightarrow> u32 \<Rightarrow> 'e KLfreeListDescriptor \<Rightarrow> nat list \<Rightarrow> (addr \<times> 'e KLfreeListDescriptor) option" where
  "region_tables data sz D [] = Some (NIL, D)"
| "region_tables data sz D (t # ts) =
     do {
       r \<leftarrow> region_search (flmem D) data sz (FirstFreeSizeEntry D ! t);
       case r of
         NotHere \<Rightarrow> region_tables data sz D ts
       | Giveup \<Rightarrow> Some (NIL, D)
       | Found e left \<Rightarrow>
           Some (data, if left = 0 then take_tail e data sz D else take_middle e data left sz D)
     }"

definition KLfreeListMemAllocRegion ::
  "addr \<Rightarrow> u32 \<Rightarrow> 'e KLfreeListDescriptor \<Rightarrow> (addr \<times> 'e KLfreeListDescriptor) option" where
  "KLfreeListMemAllocRegion data sz0 D =
     (let sz = AdjustSize sz0 in region_tables data sz D [KLgetFastLookupToUse sz..<8])"

section \<open>The two kinds of lists\<close>

abbreviation Fnext :: "'e KLfreeListDescriptor \<Rightarrow> addr \<Rightarrow> addr" where
  "Fnext D \<equiv> \<lambda>a. fnext (flmem D a)"

abbreviation Fprev :: "'e KLfreeListDescriptor \<Rightarrow> addr \<Rightarrow> addr" where
  "Fprev D \<equiv> \<lambda>a. fprev (flmem D a)"

abbreviation Fnextsize :: "'e KLfreeListDescriptor \<Rightarrow> addr \<Rightarrow> addr" where
  "Fnextsize D \<equiv> \<lambda>a. fnextsize (flmem D a)"

abbreviation Fprevsize :: "'e KLfreeListDescriptor \<Rightarrow> addr \<Rightarrow> addr" where
  "Fprevsize D \<equiv> \<lambda>a. fprevsize (flmem D a)"

abbreviation Fsize :: "'e KLfreeListDescriptor \<Rightarrow> addr \<Rightarrow> u32" where
  "Fsize D \<equiv> \<lambda>a. fsize (flmem D a)"

abbreviation Flookup :: "'e KLfreeListDescriptor \<Rightarrow> addr \<Rightarrow> nat" where
  "Flookup D \<equiv> \<lambda>a. flookup (flmem D a)"

text \<open>
  \<open>xs\<close> is the list by address, \<open>Y t\<close> the list of size class \<open>t\<close>: the size lists partition
  the address list by the class recorded in the entries.
\<close>

definition main_list :: "'e KLfreeListDescriptor \<Rightarrow> addr list \<Rightarrow> bool" where
  "main_list D xs \<longleftrightarrow> dlist (Fnext D) (Fprev D) (FirstFreeEntry D) xs \<and> distinct xs"

definition size_lists :: "'e KLfreeListDescriptor \<Rightarrow> addr set \<Rightarrow> (nat \<Rightarrow> addr list) \<Rightarrow> bool" where
  "size_lists D X Y \<longleftrightarrow> length (FirstFreeSizeEntry D) = 8
     \<and> (\<forall>t<8. dlist (Fnextsize D) (Fprevsize D) (FirstFreeSizeEntry D ! t) (Y t)
          \<and> distinct (Y t) \<and> set (Y t) = {a \<in> X. Flookup D a = t})
     \<and> (\<forall>a\<in>X. Flookup D a = KLgetFastLookupToUse (Fsize D a))"

lemma lookup_less: "KLgetFastLookupToUse sz < 8"
  by (simp add: KLgetFastLookupToUse_def)

text \<open>What list surgery leaves alone.\<close>

definition same_rest :: "'e KLfreeListDescriptor \<Rightarrow> 'e KLfreeListDescriptor \<Rightarrow> bool" where
  "same_rest D D' \<longleftrightarrow> FreeMemory D' = FreeMemory D \<and> AllocChunk D' = AllocChunk D
     \<and> PrepareFreeChunk D' = PrepareFreeChunk D \<and> FreeChunk D' = FreeChunk D
     \<and> DisallowFreeChunk D' = DisallowFreeChunk D \<and> flenv D' = flenv D"

lemma SizeRemove_fields:
  "Fnext (KLfreeListSizeRemove x D) = Fnext D" "Fprev (KLfreeListSizeRemove x D) = Fprev D"
  "Fsize (KLfreeListSizeRemove x D) = Fsize D" "Flookup (KLfreeListSizeRemove x D) = Flookup D"
  "FirstFreeEntry (KLfreeListSizeRemove x D) = FirstFreeEntry D"
  "Fnextsize (KLfreeListSizeRemove x D) = (if Fprevsize D x \<noteq> NIL
     then (Fnextsize D)(Fprevsize D x := Fnextsize D x) else Fnextsize D)"
  "Fprevsize (KLfreeListSizeRemove x D) = (if Fnextsize D x \<noteq> NIL
     then (Fprevsize D)(Fnextsize D x := Fprevsize D x) else Fprevsize D)"
  "FirstFreeSizeEntry (KLfreeListSizeRemove x D) = (if Fprevsize D x \<noteq> NIL
     then FirstFreeSizeEntry D else (FirstFreeSizeEntry D)[Flookup D x := Fnextsize D x])"
  "same_rest D (KLfreeListSizeRemove x D)"
  by (auto simp: KLfreeListSizeRemove_def Let_def same_rest_def fun_eq_iff)

lemma SizeInsert_fields:
  fixes D :: "'e KLfreeListDescriptor"
  defines "t \<equiv> \<lambda>x D :: 'e KLfreeListDescriptor. KLgetFastLookupToUse (Fsize D x)"
  shows "Fnext (KLfreeListSizeInsert x D) = Fnext D" "Fprev (KLfreeListSizeInsert x D) = Fprev D"
  "Fsize (KLfreeListSizeInsert x D) = Fsize D"
  "Flookup (KLfreeListSizeInsert x D) = (Flookup D)(x := t x D)"
  "FirstFreeEntry (KLfreeListSizeInsert x D) = FirstFreeEntry D"
  "Fnextsize (KLfreeListSizeInsert x D) = (Fnextsize D)(x := FirstFreeSizeEntry D ! t x D)"
  "Fprevsize (KLfreeListSizeInsert x D) = (if FirstFreeSizeEntry D ! t x D \<noteq> NIL
     then (Fprevsize D)(x := NIL, FirstFreeSizeEntry D ! t x D := x) else (Fprevsize D)(x := NIL))"
  "FirstFreeSizeEntry (KLfreeListSizeInsert x D) = (FirstFreeSizeEntry D)[t x D := x]"
  "same_rest D (KLfreeListSizeInsert x D)"
  by (auto simp: KLfreeListSizeInsert_def Let_def same_rest_def fun_eq_iff t_def)

lemmas SizeRemove_at = SizeRemove_fields(3,4)[THEN fun_cong]
lemmas SizeInsert_at = SizeInsert_fields(3,4)[THEN fun_cong]

text \<open>The part of \<open>KLfreeListRemove\<close> and \<open>KLfreeListInsert\<close> before the size list.\<close>

lemma Remove_split:
  "\<exists>D1. KLfreeListRemove x D = KLfreeListSizeRemove x D1
    \<and> Fnext D1 = (if Fprev D x \<noteq> NIL then (Fnext D)(Fprev D x := Fnext D x) else Fnext D)
    \<and> Fprev D1 = (if Fnext D x \<noteq> NIL then (Fprev D)(Fnext D x := Fprev D x) else Fprev D)
    \<and> FirstFreeEntry D1 = (if Fprev D x \<noteq> NIL then FirstFreeEntry D else Fnext D x)
    \<and> Fsize D1 = Fsize D \<and> Flookup D1 = Flookup D \<and> Fnextsize D1 = Fnextsize D
    \<and> Fprevsize D1 = Fprevsize D \<and> FirstFreeSizeEntry D1 = FirstFreeSizeEntry D \<and> same_rest D D1"
  unfolding KLfreeListRemove_def Let_def
  by (rule exI, rule conjI, rule refl) (auto simp: same_rest_def fun_eq_iff)

lemma Insert_split:
  assumes "a \<noteq> x" "b \<noteq> x"
  shows "\<exists>D1. KLfreeListInsert a x b D = KLfreeListSizeInsert x D1
    \<and> Fnext D1 = (if a \<noteq> NIL then (Fnext D)(x := b, a := x) else (Fnext D)(x := b))
    \<and> Fprev D1 = (if b \<noteq> NIL then (Fprev D)(x := a, b := x) else (Fprev D)(x := a))
    \<and> FirstFreeEntry D1 = (if a \<noteq> NIL then FirstFreeEntry D else x)
    \<and> Fsize D1 = Fsize D \<and> Flookup D1 = Flookup D \<and> Fnextsize D1 = Fnextsize D
    \<and> Fprevsize D1 = Fprevsize D \<and> FirstFreeSizeEntry D1 = FirstFreeSizeEntry D \<and> same_rest D D1"
  unfolding KLfreeListInsert_def Let_def
  by (rule exI, rule conjI, rule refl) (use assms in \<open>auto simp: same_rest_def fun_eq_iff\<close>)

lemma same_rest_trans: "same_rest A B \<Longrightarrow> same_rest B C \<Longrightarrow> same_rest A C"
  by (simp add: same_rest_def)

lemma SizeRemove_lists:
  assumes s: "size_lists D X Y" and x: "x \<in> X"
  shows "size_lists (KLfreeListSizeRemove x D) (X - {x})
    (Y(Flookup D x := remove1 x (Y (Flookup D x))))"
proof -
  let ?t = "Flookup D x" and ?D = "KLfreeListSizeRemove x D"
  have t: "?t < 8" using s x lookup_less by (simp add: size_lists_def)
  have Y: "dlist (Fnextsize D) (Fprevsize D) (FirstFreeSizeEntry D ! u) (Y u)" "distinct (Y u)"
      "set (Y u) = {a \<in> X. Flookup D a = u}" if "u < 8" for u
    using s that by (simp_all add: size_lists_def)
  obtain us vs where uv: "Y ?t = us @ x # vs" "x \<notin> set us"
    using Y(3)[OF t] x by (metis (mono_tags, lifting) mem_Collect_eq split_list_first)
  have rem: "remove1 x (Y ?t) = us @ vs" using uv by (simp add: remove1_append)
  note dl = Y(1)[OF t, unfolded uv(1)] and di = Y(2)[OF t, unfolded uv(1)]
  note lk = dlist_links[OF dl]
  have nn: "\<And>u. u < 8 \<Longrightarrow> NIL \<notin> set (Y u)" using dseg_NIL[OF Y(1)] .
  have here: "dlist (Fnextsize ?D) (Fprevsize ?D) (FirstFreeSizeEntry ?D ! ?t) (us @ vs)"
  proof -
    have "FirstFreeSizeEntry ?D ! ?t =
        (if Fprevsize D x \<noteq> NIL then FirstFreeSizeEntry D ! ?t else Fnextsize D x)"
      using s t by (simp add: SizeRemove_fields size_lists_def)
    then show ?thesis
      unfolding SizeRemove_fields(6,7) using dlist_remove[OF dl di] by simp
  qed
  have other: "dlist (Fnextsize ?D) (Fprevsize ?D) (FirstFreeSizeEntry ?D ! u) (Y u)"
    if u: "u < 8" "u \<noteq> ?t" for u
  proof -
    have dj: "set (Y u) \<inter> set (Y ?t) = {}" using Y(3)[OF t] Y(3)[OF u(1)] u(2) by auto
    have "Fprevsize D x \<notin> set (Y u)"
      using lk(1) dj nn[OF u(1)] uv(1) by (cases us rule: rev_cases) auto
    moreover have "Fnextsize D x \<notin> set (Y u)"
      using lk(2) dj nn[OF u(1)] uv(1) by (cases vs) auto
    ultimately show ?thesis
      using Y(1)[OF u(1)] u(2) by (simp add: SizeRemove_fields)
  qed
  show ?thesis
    unfolding size_lists_def
  proof (intro conjI allI impI)
    show "length (FirstFreeSizeEntry ?D) = 8" using s by (simp add: SizeRemove_fields size_lists_def)
    show "\<forall>a\<in>X - {x}. Flookup ?D a = KLgetFastLookupToUse (Fsize ?D a)"
      using s by (simp add: SizeRemove_at size_lists_def)
    fix u :: nat assume u: "u < 8"
    show "dlist (Fnextsize ?D) (Fprevsize ?D) (FirstFreeSizeEntry ?D ! u) ((Y(?t := remove1 x (Y ?t))) u)"
      using here other[OF u] rem by simp
    show "distinct ((Y(?t := remove1 x (Y ?t))) u)" using Y(2)[OF u] by auto
    show "set ((Y(?t := remove1 x (Y ?t))) u) = {a \<in> X - {x}. Flookup ?D a = u}"
    proof -
      have "set ((Y(?t := remove1 x (Y ?t))) u) = set (Y u) - {x}"
        using Y(2,3)[OF u] by (cases "u = ?t") auto
      also have "\<dots> = {a \<in> X - {x}. Flookup D a = u}" unfolding Y(3)[OF u] by blast
      finally show ?thesis unfolding SizeRemove_at .
    qed
  qed
qed

lemma SizeInsert_lists:
  assumes s: "size_lists D X Y" and x: "x \<notin> X" "x \<noteq> NIL"
    and t: "t = KLgetFastLookupToUse (Fsize D x)"
  shows "size_lists (KLfreeListSizeInsert x D) (insert x X) (Y(t := x # Y t))"
proof -
  let ?D = "KLfreeListSizeInsert x D" and ?h = "FirstFreeSizeEntry D ! t"
  have t8: "t < 8" by (simp add: t lookup_less)
  have Y: "dlist (Fnextsize D) (Fprevsize D) (FirstFreeSizeEntry D ! u) (Y u)" "distinct (Y u)"
      "set (Y u) = {a \<in> X. Flookup D a = u}" if "u < 8" for u
    using s that by (simp_all add: size_lists_def)
  have xn: "x \<notin> set (Y u)" if "u < 8" for u using Y(3)[OF that] x by simp
  have h: "?h = first_or NIL (Y t)" using dseg_first[OF Y(1)[OF t8]] .
  have l8: "length (FirstFreeSizeEntry D) = 8" using s by (simp add: size_lists_def)
  have here: "dlist (Fnextsize ?D) (Fprevsize ?D) (FirstFreeSizeEntry ?D ! t) (x # Y t)"
  proof -
    have "dlist (Fnextsize D) (Fprevsize D) ?h ([] @ Y t)" "distinct ([] @ x # Y t)"
      using Y(1,2)[OF t8] xn[OF t8] by simp_all
    note ins = dlist_insert[OF this x(2), of NIL ?h]
    have "FirstFreeSizeEntry ?D ! t = x" using l8 t8 by (simp add: SizeInsert_fields t[symmetric])
    then show ?thesis
      using ins h unfolding SizeInsert_fields(6,7) t[symmetric]
      by (simp only: last_or_simps simp_thms if_False append_Nil)
  qed
  have other: "dlist (Fnextsize ?D) (Fprevsize ?D) (FirstFreeSizeEntry ?D ! u) (Y u)"
    if u: "u < 8" "u \<noteq> t" for u
  proof -
    have "set (Y u) \<inter> set (Y t) = {}" using Y(3)[OF t8] Y(3)[OF u(1)] u(2) by auto
    then have "?h \<notin> set (Y u)"
      using h dseg_NIL[OF Y(1)[OF u(1)]] by (cases "Y t") auto
    then show ?thesis
      using Y(1)[OF u(1)] u(2) xn[OF u(1)] by (simp add: SizeInsert_fields t[symmetric])
  qed
  show ?thesis
    unfolding size_lists_def
  proof (intro conjI allI impI)
    show "length (FirstFreeSizeEntry ?D) = 8" using l8 by (simp add: SizeInsert_fields)
    show "\<forall>a\<in>insert x X. Flookup ?D a = KLgetFastLookupToUse (Fsize ?D a)"
      using s x by (auto simp: SizeInsert_at size_lists_def)
    fix u :: nat assume u: "u < 8"
    show "dlist (Fnextsize ?D) (Fprevsize ?D) (FirstFreeSizeEntry ?D ! u) ((Y(t := x # Y t)) u)"
      using here other[OF u] by simp
    show "distinct ((Y(t := x # Y t)) u)" using Y(2)[OF u] xn[OF u] by auto
    show "set ((Y(t := x # Y t)) u) = {a \<in> insert x X. Flookup ?D a = u}"
      using Y(3)[OF u] Y(3)[OF t8] x t by (auto simp: SizeInsert_at)
  qed
qed

lemma size_lists_cong:
  assumes s: "size_lists D X Y" and z: "\<And>a. a \<in> X \<Longrightarrow> Fsize D' a = Fsize D a"
    and f: "Flookup D' = Flookup D" "Fnextsize D' = Fnextsize D" "Fprevsize D' = Fprevsize D"
      "FirstFreeSizeEntry D' = FirstFreeSizeEntry D"
  shows "size_lists D' X Y"
  unfolding size_lists_def f f(1)[THEN fun_cong]
  using s z unfolding size_lists_def by simp

lemma KLfreeListRemove_lists:
  assumes m: "main_list D (us @ x # vs)" and s: "size_lists D (set (us @ x # vs)) Y"
  shows "main_list (KLfreeListRemove x D) (us @ vs)"
    and "\<exists>Y'. size_lists (KLfreeListRemove x D) (set (us @ vs)) Y'"
    and "Fsize (KLfreeListRemove x D) = Fsize D" and "same_rest D (KLfreeListRemove x D)"
proof -
  obtain D1 where r: "KLfreeListRemove x D = KLfreeListSizeRemove x D1"
    and f: "Fnext D1 = (if Fprev D x \<noteq> NIL then (Fnext D)(Fprev D x := Fnext D x) else Fnext D)"
      "Fprev D1 = (if Fnext D x \<noteq> NIL then (Fprev D)(Fnext D x := Fprev D x) else Fprev D)"
      "FirstFreeEntry D1 = (if Fprev D x \<noteq> NIL then FirstFreeEntry D else Fnext D x)"
    and g: "Fsize D1 = Fsize D" "Flookup D1 = Flookup D" "Fnextsize D1 = Fnextsize D"
      "Fprevsize D1 = Fprevsize D" "FirstFreeSizeEntry D1 = FirstFreeSizeEntry D" "same_rest D D1"
    using Remove_split[of x D] by blast
  have d: "distinct (us @ x # vs)" using m by (simp add: main_list_def)
  show "main_list (KLfreeListRemove x D) (us @ vs)"
    using dlist_remove[of "Fnext D" "Fprev D" "FirstFreeEntry D" us x vs] m d
    unfolding r main_list_def SizeRemove_fields f by simp
  have "size_lists D1 (set (us @ x # vs)) Y"
    using size_lists_cong[OF s _ g(2-5)] fun_cong[OF g(1)] by blast
  then have "size_lists (KLfreeListSizeRemove x D1) (set (us @ x # vs) - {x})
      (Y(Flookup D1 x := remove1 x (Y (Flookup D1 x))))"
    by (rule SizeRemove_lists) simp
  moreover have "set (us @ x # vs) - {x} = set (us @ vs)" using d by auto
  ultimately show "\<exists>Y'. size_lists (KLfreeListRemove x D) (set (us @ vs)) Y'"
    unfolding r by auto
  show "Fsize (KLfreeListRemove x D) = Fsize D"
    unfolding r SizeRemove_fields g ..
  show "same_rest D (KLfreeListRemove x D)"
    unfolding r using same_rest_trans[OF g(6) SizeRemove_fields(9)] .
qed

lemma KLfreeListInsert_lists:
  assumes m: "main_list D (us @ vs)" and s: "size_lists D (set (us @ vs)) Y"
    and x: "x \<notin> set (us @ vs)" "x \<noteq> NIL"
    and a: "a = last_or NIL us" and b: "b = first_or NIL vs"
  shows "main_list (KLfreeListInsert a x b D) (us @ x # vs)"
    and "\<exists>Y'. size_lists (KLfreeListInsert a x b D) (set (us @ x # vs)) Y'"
    and "Fsize (KLfreeListInsert a x b D) = Fsize D" and "same_rest D (KLfreeListInsert a x b D)"
proof -
  have ab: "a \<noteq> x" "b \<noteq> x"
    using x a b by (cases us rule: rev_cases; cases vs; auto)+
  obtain D1 where r: "KLfreeListInsert a x b D = KLfreeListSizeInsert x D1"
    and f: "Fnext D1 = (if a \<noteq> NIL then (Fnext D)(x := b, a := x) else (Fnext D)(x := b))"
      "Fprev D1 = (if b \<noteq> NIL then (Fprev D)(x := a, b := x) else (Fprev D)(x := a))"
      "FirstFreeEntry D1 = (if a \<noteq> NIL then FirstFreeEntry D else x)"
    and g: "Fsize D1 = Fsize D" "Flookup D1 = Flookup D" "Fnextsize D1 = Fnextsize D"
      "Fprevsize D1 = Fprevsize D" "FirstFreeSizeEntry D1 = FirstFreeSizeEntry D" "same_rest D D1"
    using Insert_split[OF ab, of D] by blast
  have d: "distinct (us @ x # vs)" using m x by (simp add: main_list_def)
  show "main_list (KLfreeListInsert a x b D) (us @ x # vs)"
    using dlist_insert[of "Fnext D" "Fprev D" "FirstFreeEntry D" us vs x a b] m d x a b
    unfolding r main_list_def SizeInsert_fields f by simp
  have "size_lists D1 (set (us @ vs)) Y"
    using size_lists_cong[OF s _ g(2-5)] fun_cong[OF g(1)] by blast
  then have "\<exists>Y'. size_lists (KLfreeListSizeInsert x D1) (insert x (set (us @ vs))) Y'"
    using SizeInsert_lists[of D1 _ Y x] x by blast
  moreover have "insert x (set (us @ vs)) = set (us @ x # vs)" by auto
  ultimately show "\<exists>Y'. size_lists (KLfreeListInsert a x b D) (set (us @ x # vs)) Y'"
    unfolding r by simp
  show "Fsize (KLfreeListInsert a x b D) = Fsize D"
    unfolding r SizeInsert_fields g ..
  show "same_rest D (KLfreeListInsert a x b D)"
    unfolding r using same_rest_trans[OF g(6) SizeInsert_fields(9)] .
qed

end
