(* ===== verification/KL_FreelistCorrect.thy ===== *)
theory KL_FreelistCorrect
  imports KL_Freelist
begin

text \<open>
  The free list allocator is correct: the free blocks, as sets of bytes, are what freeing
  adds and allocating takes away, the blocks stay apart and in their lists, and the count
  of free memory is kept. The order of the proof is the order of the code: joining a block
  with its neighbours, inserting it, scanning a size list, splitting the best block.
\<close>

section \<open>Free blocks\<close>

text \<open>
  The free blocks are apart: they do not overlap, and two neighbours never touch (they
  would have been joined). Every block has room for its header.
\<close>

abbreviation block_end :: "'e KLfreeListDescriptor \<Rightarrow> addr \<Rightarrow> nat" where
  "block_end D a \<equiv> unat a + unat (Fsize D a)"

definition blocks_ok :: "'e KLfreeListDescriptor \<Rightarrow> addr list \<Rightarrow> bool" where
  "blocks_ok D xs \<longleftrightarrow> sorted_wrt (\<lambda>a b. block_end D a < unat b) xs
     \<and> (\<forall>a\<in>set xs. 24 \<le> unat (Fsize D a) \<and> block_end D a \<le> 2 ^ 32)"

definition bytes :: "addr \<Rightarrow> u32 \<Rightarrow> nat set" where
  "bytes a n = {unat a ..< unat a + unat n}"

definition free_bytes :: "'e KLfreeListDescriptor \<Rightarrow> addr list \<Rightarrow> nat set" where
  "free_bytes D xs = (\<Union>a\<in>set xs. bytes a (Fsize D a))"

definition free_sum :: "'e KLfreeListDescriptor \<Rightarrow> addr list \<Rightarrow> u32" where
  "free_sum D xs = sum_list (map (Fsize D) xs)"

definition fl_str :: "'e KLfreeListDescriptor \<Rightarrow> addr list \<Rightarrow> bool" where
  "fl_str D xs \<longleftrightarrow> main_list D xs \<and> (\<exists>Y. size_lists D (set xs) Y) \<and> blocks_ok D xs"

definition fl_inv :: "'e KLfreeListDescriptor \<Rightarrow> addr list \<Rightarrow> bool" where
  "fl_inv D xs \<longleftrightarrow> fl_str D xs \<and> FreeMemory D = free_sum D xs"

lemma blocks_ok_append:
  "blocks_ok D (us @ vs) \<longleftrightarrow> blocks_ok D us \<and> blocks_ok D vs
     \<and> (\<forall>u\<in>set us. \<forall>v\<in>set vs. block_end D u < unat v)"
  by (auto simp: blocks_ok_def sorted_wrt_append)

lemma blocks_ok_Cons:
  "blocks_ok D (x # vs) \<longleftrightarrow> 24 \<le> unat (Fsize D x) \<and> block_end D x \<le> 2 ^ 32
     \<and> (\<forall>v\<in>set vs. block_end D x < unat v) \<and> blocks_ok D vs"
  by (auto simp: blocks_ok_def)

lemma blocks_ok_Nil [simp]: "blocks_ok D []"
  by (simp add: blocks_ok_def)

lemma blocks_ok_cong: "(\<And>a. a \<in> set xs \<Longrightarrow> Fsize D' a = Fsize D a) \<Longrightarrow> blocks_ok D' xs = blocks_ok D xs"
  by (induction xs) (simp_all add: blocks_ok_Cons)

lemma main_list_NIL: "main_list D xs \<Longrightarrow> NIL \<notin> set xs"
  unfolding main_list_def using dseg_NIL by blast

lemma fl_strD:
  assumes "fl_str D xs"
  shows "distinct xs" "NIL \<notin> set xs" "blocks_ok D xs" "main_list D xs"
  using assms main_list_NIL by (auto simp: fl_str_def main_list_def)

lemma set_size_fields [simp]:
  "main_list (set_size b m D) xs = main_list D xs"
  "Fsize (set_size b m D) = (Fsize D)(b := m)"
  "same_rest D (set_size b m D)"
  by (auto simp: main_list_def same_rest_def fun_eq_iff intro!: arg_cong2[where f = "(\<and>)"] dseg_cong)

lemma set_size_lists:
  "size_lists D X Y \<Longrightarrow> b \<notin> X \<Longrightarrow> size_lists (set_size b m D) X Y"
  by (rule size_lists_cong) (auto simp: fun_eq_iff)

lemma fl_str_remove:
  assumes "fl_str D (us @ x # vs)"
  shows "fl_str (KLfreeListRemove x D) (us @ vs)" "Fsize (KLfreeListRemove x D) = Fsize D"
    "same_rest D (KLfreeListRemove x D)"
proof -
  obtain Y where m: "main_list D (us @ x # vs)" and s: "size_lists D (set (us @ x # vs)) Y"
    and b: "blocks_ok D (us @ x # vs)"
    using assms by (auto simp: fl_str_def simp del: set_append)
  show z: "Fsize (KLfreeListRemove x D) = Fsize D" and "same_rest D (KLfreeListRemove x D)"
    using KLfreeListRemove_lists(3,4)[OF m s] .
  have "blocks_ok D (us @ vs)" using b by (auto simp: blocks_ok_append blocks_ok_Cons)
  then have "blocks_ok (KLfreeListRemove x D) (us @ vs)"
    using blocks_ok_cong[of "us @ vs" "KLfreeListRemove x D" D] fun_cong[OF z] by blast
  then show "fl_str (KLfreeListRemove x D) (us @ vs)"
    using KLfreeListRemove_lists(1,2)[OF m s] by (simp add: fl_str_def)
qed

lemma fl_str_insert:
  assumes s: "fl_str D (us @ vs)" and x: "x \<noteq> NIL" "x \<notin> set (us @ vs)"
    and n: "24 \<le> unat n" "unat x + unat n \<le> 2 ^ 32"
    and lo: "\<And>u. u \<in> set us \<Longrightarrow> block_end D u < unat x"
    and hi: "\<And>v. v \<in> set vs \<Longrightarrow> unat x + unat n < unat v"
    and a: "a = last_or NIL us" and b: "b = first_or NIL vs"
  shows "fl_str (KLfreeListInsert a x b (set_size x n D)) (us @ x # vs)"
    "Fsize (KLfreeListInsert a x b (set_size x n D)) = (Fsize D)(x := n)"
    "same_rest D (KLfreeListInsert a x b (set_size x n D))"
proof -
  let ?D = "set_size x n D"
  obtain Y where m: "main_list D (us @ vs)" and sl: "size_lists D (set (us @ vs)) Y"
    and bl: "blocks_ok D (us @ vs)"
    using s by (auto simp: fl_str_def simp del: set_append)
  have m': "main_list ?D (us @ vs)" using m by simp
  note ins = KLfreeListInsert_lists[OF m' set_size_lists[OF sl x(2)] x(2,1) a b]
  show z: "Fsize (KLfreeListInsert a x b ?D) = (Fsize D)(x := n)"
    unfolding ins(3) by (simp only: set_size_fields)
  show "same_rest D (KLfreeListInsert a x b ?D)"
    using same_rest_trans[OF set_size_fields(3) ins(4)] .
  have bl': "blocks_ok (KLfreeListInsert a x b ?D) (us @ x # vs)"
  proof -
    let ?D' = "KLfreeListInsert a x b ?D"
    have zx: "Fsize ?D' x = n" and zo: "\<And>y. y \<in> set (us @ vs) \<Longrightarrow> Fsize ?D' y = Fsize D y"
      using fun_cong[OF z] x(2) by auto
    have "blocks_ok ?D' us" "blocks_ok ?D' vs"
      using bl zo blocks_ok_cong[of us ?D' D] blocks_ok_cong[of vs ?D' D]
      by (auto simp: blocks_ok_append)
    then show ?thesis
      unfolding blocks_ok_append blocks_ok_Cons zx
      using n lo hi bl zo by (force simp: blocks_ok_append)
  qed
  show "fl_str (KLfreeListInsert a x b ?D) (us @ x # vs)"
    using ins(1,2) bl' by (simp add: fl_str_def)
qed

section \<open>Freeing is correct\<close>

lemma free_walk_spec:
  assumes "dseg (\<lambda>a. fnext (M a)) p pr c xs NIL" and "xs \<noteq> []"
  shows "free_walk M x c = Some (first_or (last xs) (dropWhile (\<lambda>a. \<not> x < a) xs))"
  using assms
proof (induction xs arbitrary: pr c)
  case (Cons a xs)
  show ?case
  proof (cases xs)
    case Nil
    then show ?thesis using Cons.prems by (subst free_walk.simps) simp
  next
    case (Cons b ys)
    then have "fnext (M a) = b" "b \<noteq> NIL" using Cons.prems by auto
    then show ?thesis
      using Cons.prems Cons.IH[of a b] Cons by (subst free_walk.simps) auto
  qed
qed simp

text \<open>A gap: where a block of \<open>n\<close> bytes at \<open>b\<close> may go.\<close>

definition gap :: "'e KLfreeListDescriptor \<Rightarrow> addr list \<Rightarrow> addr \<Rightarrow> u32 \<Rightarrow> addr list \<Rightarrow> bool" where
  "gap D us b n vs \<longleftrightarrow> fl_str D (us @ vs) \<and> b \<noteq> NIL \<and> 24 \<le> unat n \<and> unat b + unat n \<le> 2 ^ 32
     \<and> (\<forall>u\<in>set us. block_end D u \<le> unat b) \<and> (\<forall>v\<in>set vs. unat b + unat n \<le> unat v)"

lemma gap_join_prev:
  assumes g: "gap D us b n vs"
  defines "j \<equiv> last_or NIL us \<noteq> NIL \<and> last_or NIL us + Fsize D (last_or NIL us) = b"
  shows "j \<Longrightarrow> \<exists>us' u. us = us' @ [u] \<and> gap (KLfreeListRemove u D) us' u (n + Fsize D u) vs
      \<and> (\<forall>v\<in>set us'. block_end D v < unat u) \<and> Fprev D u = last_or NIL us'
      \<and> unat (n + Fsize D u) = unat n + unat (Fsize D u) \<and> block_end D u = unat b"
    and "\<not> j \<Longrightarrow> \<forall>u\<in>set us. block_end D u < unat b"
proof -
  have s: "fl_str D (us @ vs)" using g by (simp add: gap_def)
  have nil: "NIL \<notin> set us" using fl_strD(2)[OF s] by simp
  have bl: "blocks_ok D us" using fl_strD(3)[OF s] by (simp add: blocks_ok_append)
  have lt: "unat b + unat n \<le> 2 ^ 32" "24 \<le> unat n" using g by (simp_all add: gap_def)
  show "\<exists>us' u. us = us' @ [u] \<and> gap (KLfreeListRemove u D) us' u (n + Fsize D u) vs
      \<and> (\<forall>v\<in>set us'. block_end D v < unat u) \<and> Fprev D u = last_or NIL us'
      \<and> unat (n + Fsize D u) = unat n + unat (Fsize D u) \<and> block_end D u = unat b" if j
  proof -
    from that nil obtain us' u where us: "us = us' @ [u]"
      by (cases us rule: rev_cases) (auto simp: j_def)
    then have ub: "u + Fsize D u = b" using that by (simp add: j_def)
    have "block_end D u \<le> unat b" using g us by (simp add: gap_def)
    then have e: "block_end D u = unat b"
      using unat_add_small[of u "Fsize D u"] ub unat_less_32[of b] by simp
    have s': "fl_str D (us' @ u # vs)" using s us by simp
    note rem = fl_str_remove[OF s']
    have nn: "unat (n + Fsize D u) = unat n + unat (Fsize D u)"
    proof (rule unat_add_small)
      have "u \<noteq> NIL" using nil us by simp
      then have "0 < unat u" by (simp add: unat_gt_0)
      then show "unat n + unat (Fsize D u) < 2 ^ 32" using e lt by linarith
    qed
    have "24 \<le> unat (Fsize D u)" "\<forall>v\<in>set us'. block_end D v < unat u"
      using bl us by (auto simp: blocks_ok_append blocks_ok_Cons)
    then have "gap (KLfreeListRemove u D) us' u (n + Fsize D u) vs"
      using g rem(1) nil us e nn unfolding gap_def rem(2)[THEN fun_cong] by auto
    moreover have "Fprev D u = last_or NIL us'"
      using dlist_links(1) fl_strD(4)[OF s'] unfolding main_list_def by blast
    ultimately show ?thesis
      using us nn e bl by (auto simp: blocks_ok_append)
  qed
  show "\<forall>u\<in>set us. block_end D u < unat b" if "\<not> j"
  proof (cases us rule: rev_cases)
    case (snoc us' u)
    have "block_end D u \<noteq> unat b"
    proof
      assume e: "block_end D u = unat b"
      then have "unat (u + Fsize D u) = unat b"
        using unat_add_small[of u "Fsize D u"] unat_less_32[of b] by simp
      then have "u + Fsize D u = b" unfolding word_unat_eq_iff .
      then show False using that nil snoc by (simp add: j_def)
    qed
    then have u: "block_end D u < unat b" using g snoc by (auto simp: gap_def)
    moreover have "\<forall>v\<in>set us'. block_end D v < unat u"
      using bl snoc by (auto simp: blocks_ok_append)
    ultimately show ?thesis using snoc by auto
  qed simp
qed

lemma gap_join_next:
  assumes g: "gap D us b n vs"
  defines "j \<equiv> first_or NIL vs \<noteq> NIL \<and> b + n = first_or NIL vs"
  shows "j \<Longrightarrow> \<exists>v vs'. vs = v # vs' \<and> gap (KLfreeListRemove v D) us b (n + Fsize D v) vs'
      \<and> (\<forall>w\<in>set vs'. unat b + unat (n + Fsize D v) < unat w) \<and> Fnext D v = first_or NIL vs'
      \<and> unat (n + Fsize D v) = unat n + unat (Fsize D v) \<and> unat b + unat n = unat v"
    and "\<not> j \<Longrightarrow> \<forall>v\<in>set vs. unat b + unat n < unat v"
proof -
  have s: "fl_str D (us @ vs)" using g by (simp add: gap_def)
  have nil: "NIL \<notin> set vs" using fl_strD(2)[OF s] by simp
  have bl: "blocks_ok D vs" using fl_strD(3)[OF s] by (simp add: blocks_ok_append)
  have b0: "0 < unat b" using g by (simp add: gap_def unat_gt_0)
  show "\<exists>v vs'. vs = v # vs' \<and> gap (KLfreeListRemove v D) us b (n + Fsize D v) vs'
      \<and> (\<forall>w\<in>set vs'. unat b + unat (n + Fsize D v) < unat w) \<and> Fnext D v = first_or NIL vs'
      \<and> unat (n + Fsize D v) = unat n + unat (Fsize D v) \<and> unat b + unat n = unat v" if j
  proof -
    from that obtain v vs' where vs: "vs = v # vs'"
      by (cases vs) (auto simp: j_def)
    then have bv: "b + n = v" using that by (simp add: j_def)
    have "unat b + unat n \<le> unat v" using g vs by (simp add: gap_def)
    then have e: "unat b + unat n = unat v"
      using unat_add_small[of b n] bv unat_less_32[of v] by simp
    have s': "fl_str D (us @ v # vs')" using s vs by simp
    note rem = fl_str_remove[OF s']
    have v: "24 \<le> unat (Fsize D v)" "block_end D v \<le> 2 ^ 32" "\<forall>w\<in>set vs'. block_end D v < unat w"
      using bl vs by (auto simp: blocks_ok_Cons)
    have nn: "unat (n + Fsize D v) = unat n + unat (Fsize D v)"
      using b0 e v by (intro unat_add_small) linarith
    have "gap (KLfreeListRemove v D) us b (n + Fsize D v) vs'"
      using g rem(1) vs e nn v unfolding gap_def rem(2)[THEN fun_cong] by fastforce
    moreover have "Fnext D v = first_or NIL vs'"
      using dlist_links(2) fl_strD(4)[OF s'] unfolding main_list_def by blast
    ultimately show ?thesis
      using vs nn e v by auto
  qed
  show "\<forall>v\<in>set vs. unat b + unat n < unat v" if "\<not> j"
  proof (cases vs)
    case (Cons v vs')
    have "unat b + unat n \<noteq> unat v"
    proof
      assume e: "unat b + unat n = unat v"
      then have "unat (b + n) = unat v"
        using unat_add_small[of b n] unat_less_32[of v] by simp
      then have "b + n = v" unfolding word_unat_eq_iff .
      then show False using that nil Cons by (simp add: j_def)
    qed
    then have "unat b + unat n < unat v" using g Cons by (auto simp: gap_def)
    moreover have "\<forall>w\<in>set vs'. block_end D v < unat w"
      using bl Cons by (auto simp: blocks_ok_Cons)
    ultimately show ?thesis using Cons by auto
  qed simp
qed

lemma MemFreeChunk_insert:
  "PrepareFreeChunk D = None \<Longrightarrow> KLfreeListMemFreeChunk a x b D = KLfreeListInsert a x b D"
  by (cases "DisallowFreeChunk D") (simp_all add: KLfreeListMemFreeChunk_def)

lemma free_bytes_append: "free_bytes D (us @ vs) = free_bytes D us \<union> free_bytes D vs"
  by (simp add: free_bytes_def)

lemma free_bytes_Cons: "free_bytes D (x # vs) = bytes x (Fsize D x) \<union> free_bytes D vs"
  by (simp add: free_bytes_def)

lemma free_sum_append: "free_sum D (us @ vs) = free_sum D us + free_sum D vs"
  by (simp add: free_sum_def)

lemma free_sum_Cons: "free_sum D (x # vs) = Fsize D x + free_sum D vs"
  by (simp add: free_sum_def)

lemma free_cong:
  assumes "\<And>a. a \<in> set xs \<Longrightarrow> Fsize D' a = Fsize D a"
  shows "free_bytes D' xs = free_bytes D xs" "free_sum D' xs = free_sum D xs"
  using assms by (auto simp: free_bytes_def free_sum_def intro!: arg_cong[where f = sum_list])

lemma bytes_join: "unat a + unat m = unat b \<Longrightarrow> unat (m + n) = unat m + unat n \<Longrightarrow>
    bytes a (m + n) = bytes a m \<union> bytes b n"
  by (auto simp: bytes_def)

text \<open>What freeing into a gap establishes.\<close>

definition freed :: "'e KLfreeListDescriptor \<Rightarrow> addr list \<Rightarrow> addr \<Rightarrow> u32 \<Rightarrow> 'e KLfreeListDescriptor \<Rightarrow> bool" where
  "freed D xs b n D' \<longleftrightarrow> (\<exists>xs'. fl_str D' xs' \<and> free_bytes D' xs' = free_bytes D xs \<union> bytes b n
     \<and> free_sum D' xs' = free_sum D xs + n) \<and> same_rest D D'"

lemma gap_insert:
  assumes g: "gap D us b n vs" and c: "PrepareFreeChunk D = None"
    and lo: "\<forall>u\<in>set us. block_end D u < unat b" and hi: "\<forall>v\<in>set vs. unat b + unat n < unat v"
  shows "freed D (us @ vs) b n
    (KLfreeListMemFreeChunk (last_or NIL us) b (first_or NIL vs) (set_size b n D))"
proof -
  have s: "fl_str D (us @ vs)" using g by (simp add: gap_def)
  have nx: "b \<notin> set (us @ vs)" using lo hi by fastforce
  let ?D = "KLfreeListInsert (last_or NIL us) b (first_or NIL vs) (set_size b n D)"
  have ins: "fl_str ?D (us @ b # vs)" "Fsize ?D = (Fsize D)(b := n)" "same_rest D ?D"
    using fl_str_insert[OF s _ nx _ _ _ _ refl refl, of n] g lo hi by (simp_all add: gap_def)
  have o: "Fsize ?D a = Fsize D a" if "a \<in> set us \<or> a \<in> set vs" for a
    using fun_cong[OF ins(2), of a] nx that by auto
  have "free_bytes ?D (us @ b # vs) = free_bytes D (us @ vs) \<union> bytes b n"
    using fun_cong[OF ins(2), of b] free_cong(1)[of us ?D D] free_cong(1)[of vs ?D D] o
    by (auto simp: free_bytes_append free_bytes_Cons)
  moreover have "free_sum ?D (us @ b # vs) = free_sum D (us @ vs) + n"
    using fun_cong[OF ins(2), of b] free_cong(2)[of us ?D D] free_cong(2)[of vs ?D D] o
    by (simp add: free_sum_append free_sum_Cons)
  moreover have "KLfreeListMemFreeChunk (last_or NIL us) b (first_or NIL vs) (set_size b n D) = ?D"
    using c by (intro MemFreeChunk_insert) simp
  ultimately show ?thesis
    using ins(1,3) unfolding freed_def by auto
qed

lemma freed_trans:
  assumes "freed D' xs' b' n' D''" and "same_rest D D'"
    and "free_bytes D' xs' \<union> bytes b' n' = free_bytes D xs \<union> bytes b n"
    and "free_sum D' xs' + n' = free_sum D xs + n"
  shows "freed D xs b n D''"
  using assms same_rest_trans[of D D' D''] unfolding freed_def by auto

lemma gap_join_insert:
  assumes g: "gap D us b n vs" and c: "PrepareFreeChunk D = None"
    and lo: "\<forall>u\<in>set us. block_end D u < unat b"
  defines "nx \<equiv> first_or NIL vs"
  shows "freed D (us @ vs) b n
    (if nx \<noteq> NIL \<and> b + n = nx
     then KLfreeListMemFreeChunk (last_or NIL us) b (Fnext D nx)
            (set_size b (n + Fsize D nx) (KLfreeListRemove nx D))
     else KLfreeListMemFreeChunk (last_or NIL us) b nx (set_size b n D))"
proof (cases "nx \<noteq> NIL \<and> b + n = nx")
  case False
  then show ?thesis
    unfolding if_not_P[OF False] unfolding nx_def
    by (intro gap_insert[OF g c lo] gap_join_next(2)[OF g]) (simp add: nx_def)
next
  case True
  obtain v vs' where v: "vs = v # vs'" "gap (KLfreeListRemove v D) us b (n + Fsize D v) vs'"
      "\<forall>w\<in>set vs'. unat b + unat (n + Fsize D v) < unat w" "Fnext D v = first_or NIL vs'"
      "unat (n + Fsize D v) = unat n + unat (Fsize D v)" "unat b + unat n = unat v"
    using gap_join_next(1)[OF g] True unfolding nx_def by blast
  have s: "fl_str D (us @ v # vs')" using g v(1) by (simp add: gap_def)
  note rem = fl_str_remove[OF s]
  let ?D = "KLfreeListRemove v D"
  have z: "Fsize ?D a = Fsize D a" for a using fun_cong[OF rem(2)] .
  have "freed ?D (us @ vs') b (n + Fsize D v)
      (KLfreeListMemFreeChunk (last_or NIL us) b (first_or NIL vs') (set_size b (n + Fsize D v) ?D))"
    using lo v(3) c rem(3) by (intro gap_insert v(2)) (simp_all add: z same_rest_def)
  moreover have "free_bytes ?D (us @ vs') \<union> bytes b (n + Fsize D v) = free_bytes D (us @ vs) \<union> bytes b n"
    unfolding v(1) free_bytes_append free_bytes_Cons bytes_join[OF v(6,5)]
    using free_cong(1)[of us ?D D] free_cong(1)[of vs' ?D D] z by auto
  moreover have "free_sum ?D (us @ vs') + (n + Fsize D v) = free_sum D (us @ vs) + n"
    unfolding v(1) free_sum_append free_sum_Cons
    using free_cong(2)[of us ?D D] free_cong(2)[of vs' ?D D] z by simp
  ultimately have "freed D (us @ vs) b n
      (KLfreeListMemFreeChunk (last_or NIL us) b (first_or NIL vs') (set_size b (n + Fsize D v) ?D))"
    by (rule freed_trans[OF _ rem(3)])
  then show ?thesis using True v(1,4) unfolding nx_def by simp
qed

lemma free_join_ok:
  assumes g: "gap D us b n vs" and c: "PrepareFreeChunk D = None"
  shows "freed D (us @ vs) b n (free_join (last_or NIL us) b (first_or NIL vs) n D)"
proof (cases "last_or NIL us \<noteq> NIL \<and> last_or NIL us + Fsize D (last_or NIL us) = b")
  case False
  show ?thesis
    unfolding free_join_def Let_def if_not_P[OF False] prod.case
    by (rule gap_join_insert[OF g c gap_join_prev(2)[OF g False]])
next
  case True
  obtain us' u where u: "us = us' @ [u]" "gap (KLfreeListRemove u D) us' u (n + Fsize D u) vs"
      "\<forall>v\<in>set us'. block_end D v < unat u" "Fprev D u = last_or NIL us'"
      "unat (n + Fsize D u) = unat n + unat (Fsize D u)" "block_end D u = unat b"
    using gap_join_prev(1)[OF g True] by blast
  have s: "fl_str D (us' @ u # vs)" using g u(1) by (simp add: gap_def)
  note rem = fl_str_remove[OF s]
  let ?D = "KLfreeListRemove u D"
  have z: "Fsize ?D a = Fsize D a" for a using fun_cong[OF rem(2)] .
  have c': "PrepareFreeChunk ?D = None" using c rem(3) by (simp add: same_rest_def)
  have lu: "last_or NIL us = u" using u(1) by simp
  have "\<forall>v\<in>set us'. block_end ?D v < unat u" using u(3) by (simp add: z)
  then have "freed ?D (us' @ vs) u (n + Fsize D u) (free_join (last_or NIL us) b (first_or NIL vs) n D)"
    using gap_join_insert[OF u(2) c']
    unfolding free_join_def Let_def if_P[OF True] prod.case unfolding lu u(4) by blast
  moreover have "free_bytes ?D (us' @ vs) \<union> bytes u (n + Fsize D u) = free_bytes D (us @ vs) \<union> bytes b n"
    using bytes_join[of u "Fsize D u" b n] u(5,6) free_cong(1)[of us' ?D D] free_cong(1)[of vs ?D D] z
    unfolding u(1) by (auto simp: free_bytes_append free_bytes_Cons add.commute[of n] free_bytes_def)
  moreover have "free_sum ?D (us' @ vs) + (n + Fsize D u) = free_sum D (us @ vs) + n"
    using free_cong(2)[of us' ?D D] free_cong(2)[of vs ?D D] z
    unfolding u(1) by (simp add: free_sum_append free_sum_Cons free_sum_def)
  ultimately show ?thesis
    by (rule freed_trans[OF _ rem(3)])
qed

lemma gap_at:
  assumes s: "fl_str D xs" and d: "data \<noteq> NIL" "24 \<le> unat n" "unat data + unat n \<le> 2 ^ 32"
    and dj: "bytes data n \<inter> free_bytes D xs = {}"
  shows "gap D (takeWhile (\<lambda>a. \<not> data < a) xs) data n (dropWhile (\<lambda>a. \<not> data < a) xs)"
proof -
  let ?us = "takeWhile (\<lambda>a. \<not> data < a) xs" and ?vs = "dropWhile (\<lambda>a. \<not> data < a) xs"
  have b: "blocks_ok D (?us @ ?vs)" using fl_strD(3)[OF s] by simp
  have dj: "bytes data n \<inter> bytes a (Fsize D a) = {}" if "a \<in> set ?us \<or> a \<in> set ?vs" for a
  proof -
    have "a \<in> set xs" using that set_takeWhileD[of a _ xs] set_dropWhileD[of a _ xs] by blast
    then show ?thesis using dj unfolding free_bytes_def by blast
  qed
  have "block_end D u \<le> unat data" if u: "u \<in> set ?us" for u
  proof -
    have "unat u \<le> unat data" using set_takeWhileD[OF u] unfolding word_less_nat_alt by simp
    moreover have "unat data \<notin> bytes u (Fsize D u)" using dj[of u] u d(2) by (auto simp: bytes_def)
    ultimately show ?thesis by (simp add: bytes_def)
  qed
  moreover have "unat data + unat n \<le> unat v" if v: "v \<in> set ?vs" for v
  proof -
    obtain w ws where w: "?vs = w # ws" using v by (cases ?vs) auto
    then have "data < w" using hd_dropWhile[of "\<lambda>a. \<not> data < a" xs] by simp
    moreover have "v = w \<or> unat w < unat v" using v b unfolding w by (auto simp: blocks_ok_append blocks_ok_Cons)
    ultimately have "unat data < unat v" by (auto simp: word_less_nat_alt)
    moreover have "24 \<le> unat (Fsize D v)"
      using b set_dropWhileD[OF v] unfolding blocks_ok_def by simp
    then have "unat v \<notin> bytes data n" using dj[of v] v by (auto simp: bytes_def)
    ultimately show ?thesis by (simp add: bytes_def)
  qed
  ultimately show ?thesis using s d by (simp add: gap_def)
qed

lemma KLfreeListMemFree_ok:
  assumes inv: "fl_inv D xs" and c: "PrepareFreeChunk D = None"
    and n: "n = AdjustSize n0" and d: "data \<noteq> NIL" "24 \<le> unat n" "unat data + unat n \<le> 2 ^ 32"
    and dj: "bytes data n \<inter> free_bytes D xs = {}"
  shows "\<exists>D' xs'. KLfreeListMemFree data n0 D = Some D' \<and> fl_inv D' xs'
    \<and> free_bytes D' xs' = free_bytes D xs \<union> bytes data n \<and> FreeMemory D' = FreeMemory D + n
    \<and> AllocChunk D' = AllocChunk D \<and> PrepareFreeChunk D' = PrepareFreeChunk D
    \<and> FreeChunk D' = FreeChunk D \<and> flenv D' = flenv D"
proof -
  let ?D = "D\<lparr>FreeMemory := FreeMemory D + n\<rparr>"
  have s: "fl_str ?D xs"
    using inv by (simp add: fl_inv_def fl_str_def main_list_def size_lists_def blocks_ok_def)
  have fb: "free_bytes ?D xs = free_bytes D xs" "free_sum ?D xs = free_sum D xs"
    by (simp_all add: free_bytes_def free_sum_def)
  let ?us = "takeWhile (\<lambda>a. \<not> data < a) xs" and ?vs = "dropWhile (\<lambda>a. \<not> data < a) xs"
  have g: "gap ?D ?us data n ?vs" using gap_at[OF s d] dj fb by simp
  have xs: "xs = ?us @ ?vs" by simp
  let ?D' = "free_join (last_or NIL ?us) data (first_or NIL ?vs) n ?D"
  have f: "freed ?D xs data n ?D'" using free_join_ok[OF g] c by simp
  have dl: "dlist (Fnext ?D) (Fprev ?D) (FirstFreeEntry ?D) xs"
    using fl_strD(4)[OF s] by (simp add: main_list_def)
  have call: "KLfreeListMemFree data n0 D = Some ?D'"
  proof (cases "xs = []")
    case True
    then have "FirstFreeEntry D = NIL" using dl by simp
    then show ?thesis using True n by (simp add: KLfreeListMemFree_def free_join_def Let_def)
  next
    case False
    have w: "free_walk (flmem ?D) data (FirstFreeEntry ?D) = Some (first_or (last xs) ?vs)"
      by (rule free_walk_spec[OF dl False])
    have h: "FirstFreeEntry D \<noteq> NIL"
      using dl False fl_strD(2)[OF s] by (cases xs) auto
    show ?thesis
    proof (cases ?vs)
      case Nil
      then have us: "?us = xs" using xs by (metis append_Nil2)
      have "last xs \<in> set ?us" unfolding us using False by (rule last_in_set)
      from set_takeWhileD[OF this] have "\<not> data < last xs" by simp
      then show ?thesis
        using w h False n unfolding us Nil by (simp add: KLfreeListMemFree_def Let_def last_or_def)
    next
      case (Cons v vs')
      then have "data < v" using hd_dropWhile[of "\<lambda>a. \<not> data < a" xs] by simp
      moreover have "Fprev ?D v = last_or NIL ?us"
        using dlist_links(1)[of "Fnext ?D" "Fprev ?D" "FirstFreeEntry ?D" ?us v vs'] dl xs Cons by simp
      ultimately show ?thesis
        using w h Cons n by (simp add: KLfreeListMemFree_def Let_def)
    qed
  qed
  obtain xs' where x: "fl_str ?D' xs'" "free_bytes ?D' xs' = free_bytes ?D xs \<union> bytes data n"
      "free_sum ?D' xs' = free_sum ?D xs + n" and r: "same_rest ?D ?D'"
    using f unfolding freed_def by blast
  have "fl_inv ?D' xs'"
    using x r inv fb by (simp add: fl_inv_def same_rest_def)
  then show ?thesis
    using call x r fb by (intro exI[of _ ?D'] exI[of _ xs']) (simp add: same_rest_def)
qed

section \<open>Allocating is correct\<close>

text \<open>A block that can be split: the remainder has room for a header.\<close>

definition fits :: "u32 \<Rightarrow> u32 \<Rightarrow> bool" where
  "fits sz n \<longleftrightarrow> sz \<le> n \<and> entry_size \<le> n - sz"

lemma fits_unat: "fits sz n \<longleftrightarrow> unat sz + 24 \<le> unat n"
proof
  assume "fits sz n"
  then have "unat sz \<le> unat n" "24 \<le> unat (n - sz)"
    unfolding fits_def word_le_nat_alt by simp_all
  then show "unat sz + 24 \<le> unat n" by (simp add: unat_sub_le)
next
  assume "unat sz + 24 \<le> unat n"
  then show "fits sz n"
    unfolding fits_def word_le_nat_alt by (simp add: unat_sub_le)
qed

lemma alloc_scan_spec:
  assumes "dseg (\<lambda>a. fnextsize (M a)) p pr c ys NIL"
  shows "\<exists>perf bl' be'. alloc_scan M sz c bl be = Some (perf, bl', be')
    \<and> (case perf of
         Some e \<Rightarrow> e \<in> set ys \<and> fsize (M e) = sz
       | None \<Rightarrow> (\<forall>y\<in>set ys. fsize (M y) \<noteq> sz)
           \<and> (\<forall>y\<in>set ys. fits sz (fsize (M y)) \<longrightarrow> bl' \<le> fsize (M y) - sz) \<and> bl' \<le> bl
           \<and> ((bl', be') = (bl, be)
              \<or> be' \<in> set ys \<and> fits sz (fsize (M be')) \<and> bl' = fsize (M be') - sz))"
  using assms
proof (induction ys arbitrary: pr c bl be)
  case Nil
  then show ?case by (subst alloc_scan.simps) simp
next
  case (Cons y ys)
  let ?z = "fsize (M y)"
  have c: "c = y" "y \<noteq> NIL" and d: "dseg (\<lambda>a. fnextsize (M a)) p y (fnextsize (M y)) ys NIL"
    using Cons.prems by auto
  consider "?z = sz" | "?z \<noteq> sz" "fits sz ?z" "?z - sz \<le> bl"
    | "?z \<noteq> sz" "\<not> (fits sz ?z \<and> ?z - sz \<le> bl)"
    by blast
  then show ?case
  proof cases
    case 1
    then show ?thesis using c by (subst alloc_scan.simps) simp
  next
    case 2
    have "alloc_scan M sz c bl be = alloc_scan M sz (fnextsize (M y)) (?z - sz) y"
      using c 2 by (subst alloc_scan.simps) (simp add: fits_def)
    with Cons.IH[OF d, of "?z - sz" y] obtain perf bl' be'
      where r: "alloc_scan M sz c bl be = Some (perf, bl', be')"
        and sp: "case perf of
         Some e \<Rightarrow> e \<in> set ys \<and> fsize (M e) = sz
       | None \<Rightarrow> (\<forall>x\<in>set ys. fsize (M x) \<noteq> sz)
           \<and> (\<forall>x\<in>set ys. fits sz (fsize (M x)) \<longrightarrow> bl' \<le> fsize (M x) - sz) \<and> bl' \<le> ?z - sz
           \<and> ((bl', be') = (?z - sz, y)
              \<or> be' \<in> set ys \<and> fits sz (fsize (M be')) \<and> bl' = fsize (M be') - sz)"
      by auto
    show ?thesis
    proof (cases perf)
      case None
      have "bl' \<le> bl" using sp None 2(3) by (auto intro: order.trans)
      then show ?thesis using r sp None 2(1,2) by auto
    qed (use r sp in auto)
  next
    case 3
    have "alloc_scan M sz c bl be = alloc_scan M sz (fnextsize (M y)) bl be"
      using c 3 by (subst alloc_scan.simps) (auto simp: fits_def)
    with Cons.IH[OF d, of bl be] obtain perf bl' be'
      where r: "alloc_scan M sz c bl be = Some (perf, bl', be')"
        and sp: "case perf of
         Some e \<Rightarrow> e \<in> set ys \<and> fsize (M e) = sz
       | None \<Rightarrow> (\<forall>x\<in>set ys. fsize (M x) \<noteq> sz)
           \<and> (\<forall>x\<in>set ys. fits sz (fsize (M x)) \<longrightarrow> bl' \<le> fsize (M x) - sz) \<and> bl' \<le> bl
           \<and> ((bl', be') = (bl, be)
              \<or> be' \<in> set ys \<and> fits sz (fsize (M be')) \<and> bl' = fsize (M be') - sz)"
      by auto
    show ?thesis
    proof (cases perf)
      case None
      have "fits sz ?z \<longrightarrow> bl' \<le> ?z - sz" using sp None 3(2) by (auto intro: order.trans[of bl' bl])
      then show ?thesis using r sp None 3(1) by auto
    qed (use r sp in auto)
  qed
qed

text \<open>The size classes follow the sizes.\<close>

lemma lookup_count: "KLgetFastLookupToUse sz = of_bool (2 ^ 7 \<le> sz) + of_bool (2 ^ 9 \<le> sz)
   + of_bool (2 ^ 11 \<le> sz) + of_bool (2 ^ 13 \<le> sz) + of_bool (2 ^ 15 \<le> sz)
   + of_bool (2 ^ 17 \<le> sz) + of_bool (2 ^ 19 \<le> sz)"
proof -
  have t: "2 ^ k \<le> sz \<Longrightarrow> 2 ^ j \<le> (2 ^ k :: u32) \<Longrightarrow> 2 ^ j \<le> sz" for j k
    by (rule order.trans)
  show ?thesis
    using t[of 9 7] t[of 11 9] t[of 13 11] t[of 15 13] t[of 17 15] t[of 19 17]
    by (simp add: KLgetFastLookupToUse_def)
qed

lemma lookup_mono: "m \<le> n \<Longrightarrow> KLgetFastLookupToUse m \<le> KLgetFastLookupToUse n"
proof -
  assume "m \<le> n"
  then have "of_bool (2 ^ k \<le> m) \<le> (of_bool (2 ^ k \<le> n) :: nat)" for k
    by (auto intro: order.trans)
  then show ?thesis unfolding lookup_count by (intro add_mono)
qed
definition no_block :: "'e KLfreeListDescriptor \<Rightarrow> addr set \<Rightarrow> u32 \<Rightarrow> bool" where
  "no_block D X sz \<longleftrightarrow> (\<forall>a\<in>X. Fsize D a \<noteq> sz \<and> \<not> fits sz (Fsize D a))"

lemma alloc_tables_spec:
  assumes s: "size_lists D X Y" and sz: "0 < sz" and nil: "NIL \<notin> X" and "\<forall>t\<in>set ts. t < 8"
  shows "\<exists>r. alloc_tables sz D (- 1) NIL ts = Some r
    \<and> (case r of
         None \<Rightarrow> no_block D {a\<in>X. Flookup D a \<in> set ts} sz
       | Some (a, D') \<Rightarrow> a \<in> X \<and> (Fsize D a = sz \<and> D' = take_perfect a sz D
             \<or> fits sz (Fsize D a) \<and> D' = take_best a (Fsize D a - sz) sz D))"
  using assms(4)
proof (induction ts)
  case Nil
  then show ?case by (simp add: no_block_def)
next
  case (Cons t ts)
  then have t: "t < 8" by simp
  have Y: "dlist (Fnextsize D) (Fprevsize D) (FirstFreeSizeEntry D ! t) (Y t)"
      "set (Y t) = {a \<in> X. Flookup D a = t}"
    using s t by (auto simp: size_lists_def)
  obtain perf bl be where sc: "alloc_scan (flmem D) sz (FirstFreeSizeEntry D ! t) (- 1) NIL = Some (perf, bl, be)"
    and sp: "case perf of
         Some e \<Rightarrow> e \<in> set (Y t) \<and> Fsize D e = sz
       | None \<Rightarrow> (\<forall>y\<in>set (Y t). Fsize D y \<noteq> sz)
           \<and> (\<forall>y\<in>set (Y t). fits sz (Fsize D y) \<longrightarrow> bl \<le> Fsize D y - sz) \<and> bl \<le> - 1
           \<and> ((bl, be) = (- 1, NIL)
              \<or> be \<in> set (Y t) \<and> fits sz (Fsize D be) \<and> bl = Fsize D be - sz)"
    using alloc_scan_spec[OF Y(1), of sz "- 1" NIL] by blast
  show ?case
  proof (cases perf)
    case (Some e)
    then show ?thesis using sc sp Y(2) by auto
  next
    case None
    show ?thesis
    proof (cases "be = NIL")
      case False
      then show ?thesis using sc sp None Y(2) by auto
    next
      case True
      then have bl: "bl = - 1" using sp None Y(2) nil by auto
      have no: "\<not> fits sz (Fsize D y)" if y: "y \<in> set (Y t)" for y
      proof
        assume f: "fits sz (Fsize D y)"
        then have "- 1 \<le> Fsize D y - sz" using sp None bl y by simp
        then have "Fsize D y - sz = - 1" by (simp add: word_order.extremum_unique)
        then have "Fsize D y = sz - 1" by (simp add: algebra_simps)
        moreover have "unat (sz - 1) = unat sz - 1" using sz by (intro unat_minus_one) auto
        ultimately show False using f by (simp add: fits_unat)
      qed
      have "no_block D {a\<in>X. Flookup D a = t} sz"
        using sp None no Y(2) by (auto simp: no_block_def)
      moreover obtain r where "alloc_tables sz D (- 1) NIL ts = Some r"
        "case r of None \<Rightarrow> no_block D {a\<in>X. Flookup D a \<in> set ts} sz
         | Some (a, D') \<Rightarrow> a \<in> X \<and> (Fsize D a = sz \<and> D' = take_perfect a sz D
             \<or> fits sz (Fsize D a) \<and> D' = take_best a (Fsize D a - sz) sz D)"
        using Cons by auto
      ultimately show ?thesis
        using sc None True bl by (intro exI[of _ r]) (auto simp: no_block_def split: option.splits)
    qed
  qed
qed

lemma alloc_pass_spec:
  assumes inv: "fl_str D xs" and sz: "0 < sz"
  shows "\<exists>r. alloc_pass sz D = Some r
    \<and> (case r of
         None \<Rightarrow> no_block D (set xs) sz
       | Some (a, D') \<Rightarrow> a \<in> set xs \<and> (Fsize D a = sz \<and> D' = take_perfect a sz D
             \<or> fits sz (Fsize D a) \<and> D' = take_best a (Fsize D a - sz) sz D))"
proof -
  obtain Y where s: "size_lists D (set xs) Y" using inv by (auto simp: fl_str_def)
  obtain r where r: "alloc_pass sz D = Some r"
    "case r of None \<Rightarrow> no_block D {a\<in>set xs. Flookup D a \<in> set [KLgetFastLookupToUse sz..<8]} sz
       | Some (a, D') \<Rightarrow> a \<in> set xs \<and> (Fsize D a = sz \<and> D' = take_perfect a sz D
             \<or> fits sz (Fsize D a) \<and> D' = take_best a (Fsize D a - sz) sz D)"
    using alloc_tables_spec[OF s sz fl_strD(2)[OF inv], of "[KLgetFastLookupToUse sz..<8]"]
    by (auto simp: alloc_pass_def)
  have "Fsize D a \<noteq> sz \<and> \<not> fits sz (Fsize D a)"
    if a: "a \<in> set xs" and n: "no_block D {a\<in>set xs. Flookup D a \<in> set [KLgetFastLookupToUse sz..<8]} sz" for a
  proof (cases "sz \<le> Fsize D a")
    case True
    have "Flookup D a = KLgetFastLookupToUse (Fsize D a)" using s a by (simp add: size_lists_def)
    then have "Flookup D a \<in> set [KLgetFastLookupToUse sz..<8]"
      using lookup_mono[OF True] lookup_less by simp
    then show ?thesis using n a by (simp add: no_block_def)
  qed (auto simp: fits_def)
  then have "no_block D (set xs) sz" if "r = None"
    using r(2) that unfolding no_block_def[of D "set xs"] by simp
  then show ?thesis using r by (intro exI[of _ r]) (cases r; simp)
qed

lemma bytes_apart:
  assumes "fl_str D (us @ x # vs)"
  shows "bytes x (Fsize D x) \<inter> free_bytes D (us @ vs) = {}"
    and "\<And>u. u \<in> set us \<Longrightarrow> block_end D u < unat x" "\<And>v. v \<in> set vs \<Longrightarrow> block_end D x < unat v"
    and "block_end D x \<le> 2 ^ 32" "24 \<le> unat (Fsize D x)"
  using fl_strD(3)[OF assms]
  by (fastforce simp: blocks_ok_append blocks_ok_Cons free_bytes_def bytes_def)+

lemma free_split: "free_bytes D (us @ x # vs) = bytes x (Fsize D x) \<union> free_bytes D (us @ vs)"
  by (auto simp: free_bytes_append free_bytes_Cons)

definition allocated :: "'e KLfreeListDescriptor \<Rightarrow> addr list \<Rightarrow> addr \<Rightarrow> u32 \<Rightarrow> 'e KLfreeListDescriptor \<Rightarrow> bool" where
  "allocated D xs r sz D' \<longleftrightarrow> (\<exists>xs'. fl_inv D' xs' \<and> bytes r sz \<subseteq> free_bytes D xs
     \<and> free_bytes D' xs' = free_bytes D xs - bytes r sz) \<and> r \<noteq> NIL \<and> unat r + unat sz \<le> 2 ^ 32
     \<and> FreeMemory D' = FreeMemory D - sz \<and> AllocChunk D' = AllocChunk D
     \<and> PrepareFreeChunk D' = PrepareFreeChunk D \<and> FreeChunk D' = FreeChunk D \<and> flenv D' = flenv D"

lemma fl_inv_FreeMemory:
  "fl_str D xs \<Longrightarrow> m = free_sum D xs \<Longrightarrow> fl_inv (D\<lparr>FreeMemory := m\<rparr>) xs"
  by (simp add: fl_inv_def fl_str_def main_list_def size_lists_def blocks_ok_def free_sum_def)

lemma take_perfect_ok:
  assumes inv: "fl_inv D xs" and a: "a \<in> set xs" and z: "Fsize D a = sz"
  shows "allocated D xs a sz (take_perfect a sz D)"
proof -
  obtain us vs where xs: "xs = us @ a # vs" using a by (auto dest: split_list)
  have s: "fl_str D (us @ a # vs)" and fm: "FreeMemory D = free_sum D xs"
    using inv xs by (simp_all add: fl_inv_def)
  note rem = fl_str_remove[OF s] and ap = bytes_apart[OF s]
  let ?D = "KLfreeListRemove a D"
  have zz: "Fsize ?D x = Fsize D x" for x using fun_cong[OF rem(2)] .
  have fs: "free_sum ?D (us @ vs) = FreeMemory D - sz"
    using free_cong(2)[of "us @ vs" ?D D] zz fm xs z
    by (simp add: free_sum_append free_sum_Cons)
  have tp: "take_perfect a sz D = ?D\<lparr>FreeMemory := FreeMemory D - sz\<rparr>"
    using rem(3) by (simp add: take_perfect_def Let_def same_rest_def)
  have "fl_inv (take_perfect a sz D) (us @ vs)"
    unfolding tp using rem(1) fs by (intro fl_inv_FreeMemory) simp_all
  moreover have "free_bytes (take_perfect a sz D) (us @ vs) = free_bytes D (us @ vs)"
    unfolding tp using free_cong(1)[of "us @ vs" ?D D] zz by (simp add: free_bytes_def)
  moreover have "free_bytes D (us @ vs) = free_bytes D xs - bytes a sz" "bytes a sz \<subseteq> free_bytes D xs"
    using ap(1) z unfolding xs free_split by blast+
  moreover have "a \<noteq> NIL" using fl_strD(2)[OF s] by auto
  moreover have "unat a + unat sz \<le> 2 ^ 32" using ap(4) z by simp
  ultimately show ?thesis
    using rem(3) tp unfolding allocated_def by (auto simp: same_rest_def)
qed

lemma take_best_ok:
  assumes inv: "fl_inv D xs" and a: "a \<in> set xs" and f: "fits sz (Fsize D a)" and sz: "0 < sz"
  shows "allocated D xs a sz (take_best a (Fsize D a - sz) sz D)"
proof -
  obtain us vs where xs: "xs = us @ a # vs" using a by (auto dest: split_list)
  have s: "fl_str D (us @ a # vs)" and fm: "FreeMemory D = free_sum D xs"
    using inv xs by (simp_all add: fl_inv_def)
  note rem = fl_str_remove[OF s] and ap = bytes_apart[OF s]
  let ?D = "KLfreeListRemove a D" and ?b = "a + sz" and ?n = "Fsize D a - sz"
  have zz: "Fsize ?D x = Fsize D x" for x using fun_cong[OF rem(2)] .
  have n: "unat ?n = unat (Fsize D a) - unat sz" "unat sz + 24 \<le> unat (Fsize D a)"
    using f unfolding fits_unat by (simp_all add: unat_sub_le)
  have b: "unat ?b = unat a + unat sz" using n ap(4) by (intro unat_add_small) linarith
  have s0: "0 < unat sz" using sz by (simp add: word_less_nat_alt)
  have links: "Fprev D a = last_or NIL us" "Fnext D a = first_or NIL vs"
    using dlist_links(1,2) fl_strD(4)[OF s] unfolding main_list_def by blast+
  have nb: "?b \<noteq> NIL" "?b \<notin> set (us @ vs)"
  proof -
    show "?b \<noteq> NIL" using b s0 by (metis add_is_0 less_irrefl unat_0)
    show "?b \<notin> set (us @ vs)" using ap(2,3)[of ?b] b n by fastforce
  qed
  let ?I = "KLfreeListInsert (last_or NIL us) ?b (first_or NIL vs) (set_size ?b ?n ?D)"
  have lo: "block_end ?D u < unat ?b" if "u \<in> set us" for u using ap(2)[OF that] b zz by simp
  have hi: "unat ?b + unat ?n < unat v" if "v \<in> set vs" for v using ap(3)[OF that] b n by simp
  have n24: "24 \<le> unat ?n" and ne: "unat ?b + unat ?n \<le> 2 ^ 32" using n b ap(4) by linarith+
  have I: "fl_str ?I (us @ ?b # vs)" "Fsize ?I = (Fsize ?D)(?b := ?n)" "same_rest ?D ?I"
    using fl_str_insert[OF rem(1) nb n24 ne lo hi refl refl] by simp_all
  have zo: "Fsize ?I x = Fsize D x" if "x \<in> set (us @ vs)" for x
    using fun_cong[OF I(2), of x] nb(2) that zz by auto
  have zb: "Fsize ?I ?b = ?n" using fun_cong[OF I(2), of ?b] by simp
  have tb: "take_best a ?n sz D = ?I\<lparr>FreeMemory := FreeMemory D - sz\<rparr>"
    using rem(3) I(3) links by (simp add: take_best_def Let_def same_rest_def)
  have fs: "free_sum ?I (us @ ?b # vs) = FreeMemory D - sz"
    using free_cong(2)[of us ?I D] free_cong(2)[of vs ?I D] zo zb fm xs
    by (simp add: free_sum_append free_sum_Cons)
  have fb: "free_bytes ?I (us @ ?b # vs) = bytes ?b ?n \<union> free_bytes D (us @ vs)"
    using free_cong(1)[of "us @ vs" ?I D] zo zb unfolding free_split by simp
  have split: "bytes a (Fsize D a) = bytes a sz \<union> bytes ?b ?n" "bytes a sz \<inter> bytes ?b ?n = {}"
    using n b by (auto simp: bytes_def)
  have "fl_inv (take_best a ?n sz D) (us @ ?b # vs)"
    unfolding tb using I(1) fs by (intro fl_inv_FreeMemory) simp_all
  moreover have "free_bytes (take_best a ?n sz D) (us @ ?b # vs) = free_bytes ?I (us @ ?b # vs)"
    unfolding tb by (simp add: free_bytes_def)
  moreover have "B \<union> R = (A \<union> B \<union> R) - A" if "(A \<union> B) \<inter> R = {}" "A \<inter> B = {}" for A B R :: "nat set"
    using that by blast
  from this[OF ap(1)[unfolded split(1)] split(2)]
  have "free_bytes ?I (us @ ?b # vs) = free_bytes D xs - bytes a sz"
    unfolding fb unfolding xs free_split split(1) .
  moreover have "bytes a sz \<subseteq> free_bytes D xs" unfolding xs free_split split(1) by blast
  moreover have "a \<noteq> NIL" using fl_strD(2)[OF s] by auto
  moreover have "unat a + unat sz \<le> 2 ^ 32" using ap(4) n by linarith
  ultimately show ?thesis
    using rem(3) I(3) tb unfolding allocated_def by (auto simp: same_rest_def)
qed

lemma alloc_pass_ok:
  assumes inv: "fl_inv D xs" and sz: "0 < sz"
  shows "\<exists>r. alloc_pass sz D = Some r
    \<and> (case r of None \<Rightarrow> no_block D (set xs) sz | Some (a, D') \<Rightarrow> allocated D xs a sz D')"
proof -
  have "fl_str D xs" using inv by (simp add: fl_inv_def)
  from alloc_pass_spec[OF this sz] obtain r where r: "alloc_pass sz D = Some r"
    "case r of None \<Rightarrow> no_block D (set xs) sz
       | Some (a, D') \<Rightarrow> a \<in> set xs \<and> (Fsize D a = sz \<and> D' = take_perfect a sz D
             \<or> fits sz (Fsize D a) \<and> D' = take_best a (Fsize D a - sz) sz D)"
    by blast
  have "allocated D xs a sz D'" if "r = Some (a, D')" for a D'
    using r(2) that take_perfect_ok[OF inv, of a sz] take_best_ok[OF inv _ _ sz, of a] by auto
  then show ?thesis using r by (intro exI[of _ r]) (cases r; auto)
qed

lemma KLfreeListMemAlloc_ok:
  assumes inv: "fl_inv D xs" and c: "AllocChunk D = None" and sz: "sz = AdjustSize n" "0 < sz"
  shows "\<exists>r D'. KLfreeListMemAlloc n D = Some (r, D')
    \<and> (if r = NIL then D' = D \<and> no_block D (set xs) sz else allocated D xs r sz D')"
proof -
  obtain r where r: "alloc_pass sz D = Some r"
    "case r of None \<Rightarrow> no_block D (set xs) sz | Some (a, D') \<Rightarrow> allocated D xs a sz D'"
    using alloc_pass_ok[OF inv sz(2)] by blast
  show ?thesis
  proof (cases r)
    case None
    then show ?thesis using r c sz(1) by (simp add: KLfreeListMemAlloc_def Let_def)
  next
    case (Some p)
    then obtain a D' where p: "r = Some (a, D')" by (cases p) simp
    then have "KLfreeListMemAlloc n D = Some (a, D')" "allocated D xs a sz D'"
      using r sz(1) by (simp_all add: KLfreeListMemAlloc_def Let_def)
    moreover have "a \<noteq> NIL" using calculation(2) by (simp add: allocated_def)
    ultimately show ?thesis by simp
  qed
qed

text \<open>Rounding a size up.\<close>

lemma unat_and_not_mask: "unat (x AND NOT (mask k) :: u32) = unat x div 2 ^ k * 2 ^ k"
proof -
  have "x AND NOT (mask k) = push_bit k (drop_bit k x)"
  proof (rule bit_eqI)
    fix n
    have pb: "bit x n \<Longrightarrow> n < 32" using bit_imp_possible_bit[of x n] by simp
    have l: "bit (x AND NOT (mask k)) n \<longleftrightarrow> bit x n \<and> k \<le> n"
      unfolding bit_and_iff bit_not_iff bit_mask_iff using pb by auto
    have r: "bit (push_bit k (drop_bit k x)) n \<longleftrightarrow> k \<le> n \<and> n < 32 \<and> bit x (k + (n - k))"
      unfolding bit_push_bit_iff bit_drop_bit_eq comp_def by simp
    show "bit (x AND NOT (mask k)) n \<longleftrightarrow> bit (push_bit k (drop_bit k x)) n"
      unfolding l r using pb by (cases "k \<le> n") (simp_all only: le_add_diff_inverse, auto)
  qed
  then have "unat (x AND NOT (mask k)) = unat (drop_bit k x * 2 ^ k)" by (simp add: push_bit_eq_mult)
  also have "drop_bit k x * 2 ^ k = of_nat (unat (drop_bit k x) * 2 ^ k)" by simp
  also have "unat (of_nat (unat (drop_bit k x) * 2 ^ k) :: u32) = unat (drop_bit k x) * 2 ^ k mod 2 ^ 32"
    by (simp only: unat_of_nat) simp
  also have "unat (drop_bit k x) = unat x div 2 ^ k" unfolding unat_drop_bit_eq by (simp add: drop_bit_eq_div)
  also have "unat x div 2 ^ k * 2 ^ k mod 2 ^ 32 = unat x div 2 ^ k * 2 ^ k"
    using unat_less_32[of x] div_times_less_eq_dividend[of "unat x" "2 ^ k"] by (intro mod_less) linarith
  finally show ?thesis .
qed

lemma unat_mask4: "unat (x AND (- 4) :: u32) = unat x div 4 * 4"
  using unat_and_not_mask[of x 2] minus_exp_eq_not_mask[of 2, where 'a = u32] by simp

lemma AdjustSize_bounds:
  assumes "unat n \<le> 2 ^ 32 - 4"
  shows "24 \<le> unat (AdjustSize n)" "unat n \<le> unat (AdjustSize n)" "unat (AdjustSize n) < max 25 (unat n + 4)"
proof -
  have a: "unat (n + 3) = unat n + 3" using assms by (subst unat_add_small) simp_all
  have "n < 24 \<longleftrightarrow> unat n < 24" by (simp add: word_less_nat_alt)
  then show "24 \<le> unat (AdjustSize n)" "unat n \<le> unat (AdjustSize n)"
      "unat (AdjustSize n) < max 25 (unat n + 4)"
    by (auto simp: AdjustSize_def unat_mask4 a)
qed

end
