(* ===== verification/KL_FreelistAlign.thy ===== *)
theory KL_FreelistAlign
  imports KL_FreelistCorrect
begin

text \<open>
  Aligned and placed allocation from the free list: where an aligned block starts, taking
  the end or the middle of a free block, and the two allocators built on them.
\<close>

section \<open>Taking the end of a block\<close>

lemma set_size_links:
  "Fnext (set_size b m D) = Fnext D" "Fprev (set_size b m D) = Fprev D"
  "FirstFreeEntry (set_size b m D) = FirstFreeEntry D"
  by (auto simp: fun_eq_iff)

lemma fl_str_shrink:
  assumes s: "fl_str D (us @ e # vs)" and n: "24 \<le> unat n" "unat n \<le> unat (Fsize D e)"
  defines "D' \<equiv> KLfreeListSizeInsert e (set_size e n (KLfreeListSizeRemove e D))"
  shows "fl_str D' (us @ e # vs)" "Fsize D' = (Fsize D)(e := n)" "same_rest D D'"
proof -
  let ?X = "set (us @ e # vs)"
  obtain Y where m: "main_list D (us @ e # vs)" and sl: "size_lists D ?X Y"
    using s by (auto simp: fl_str_def simp del: set_append)
  let ?R = "KLfreeListSizeRemove e D" and ?S = "set_size e n (KLfreeListSizeRemove e D)"
  have "size_lists ?R (?X - {e}) (Y(Flookup D e := remove1 e (Y (Flookup D e))))"
    by (rule SizeRemove_lists[OF sl]) simp
  then have "size_lists ?S (?X - {e}) (Y(Flookup D e := remove1 e (Y (Flookup D e))))"
    by (rule set_size_lists) simp
  moreover have "e \<noteq> NIL" using fl_strD(2)[OF s] by auto
  ultimately have sl': "\<exists>Y'. size_lists D' (insert e (?X - {e})) Y'"
    unfolding D'_def using SizeInsert_lists[of ?S "?X - {e}"] by blast
  have ie: "insert e (?X - {e}) = ?X" by auto
  show z: "Fsize D' = (Fsize D)(e := n)"
    unfolding D'_def SizeInsert_fields(3) set_size_fields(2) SizeRemove_fields(3) ..
  show r: "same_rest D D'"
    unfolding D'_def
    using same_rest_trans[OF same_rest_trans[OF SizeRemove_fields(9) set_size_fields(3)] SizeInsert_fields(9)] .
  have m': "main_list D' (us @ e # vs)"
    using m unfolding D'_def main_list_def SizeInsert_fields(1,2,5) set_size_links
      SizeRemove_fields(1,2,5) .
  have zo: "Fsize D' a = (if a = e then n else Fsize D a)" for a using fun_cong[OF z, of a] by simp
  have dist: "e \<notin> set us" "e \<notin> set vs" using fl_strD(1)[OF s] by auto
  have same: "Fsize D' a = Fsize D a" if "a \<in> set us \<or> a \<in> set vs" for a
    using zo[of a] dist that by auto
  have bl: "blocks_ok D us" "blocks_ok D vs"
    using fl_strD(3)[OF s] by (simp_all add: blocks_ok_append blocks_ok_Cons)
  have "blocks_ok D' us" "blocks_ok D' vs"
    using bl same blocks_ok_cong[of us D' D] blocks_ok_cong[of vs D' D] by blast+
  then have "blocks_ok D' (us @ e # vs)"
    using bytes_apart(2-4)[OF s] fl_strD(3)[OF s] n zo[of e] same
    by (fastforce simp: blocks_ok_append blocks_ok_Cons)
  then show "fl_str D' (us @ e # vs)"
    using m' sl' unfolding ie fl_str_def by blast
qed

lemma take_tail_ok:
  assumes inv: "fl_inv D xs" and e: "e \<in> set xs" and d: "data = e \<or> unat e + 24 \<le> unat data"
    and z: "unat data + unat sz = block_end D e" and sz: "0 < sz"
  shows "allocated D xs data sz (take_tail e data sz D)"
proof (cases "data = e")
  case True
  then have "Fsize D e = sz" using z by (simp add: word_unat_eq_iff)
  then show ?thesis
    using take_perfect_ok[OF inv e] True by (simp add: take_tail_def take_perfect_def)
next
  case False
  obtain us vs where xs: "xs = us @ e # vs" using e by (auto dest: split_list)
  have s: "fl_str D (us @ e # vs)" and fm: "FreeMemory D = free_sum D xs"
    using inv xs by (simp_all add: fl_inv_def)
  have de: "unat e + 24 \<le> unat data" using d False by simp
  then have u: "unat (data - e) = unat data - unat e" by (intro unat_sub_le) simp
  have nn: "24 \<le> unat (data - e)" "unat (data - e) \<le> unat (Fsize D e)" using de u z by linarith+
  let ?D = "KLfreeListSizeInsert e (set_size e (data - e) (KLfreeListSizeRemove e D))"
  note sh = fl_str_shrink[OF s nn]
  have zo: "Fsize ?D a = (if a = e then data - e else Fsize D a)" for a
    using fun_cong[OF sh(2), of a] by simp
  have dist: "e \<notin> set us" "e \<notin> set vs" using fl_strD(1)[OF s] by auto
  note ap = bytes_apart[OF s]
  have tt: "take_tail e data sz D = ?D\<lparr>FreeMemory := FreeMemory D - sz\<rparr>"
    using False sh(3) by (simp add: take_tail_def Let_def same_rest_def)
  have sum: "data - e + sz = Fsize D e"
  proof -
    have "unat (data - e + sz) = unat (data - e) + unat sz"
      using u z de ap(4) unat_less_32[of "Fsize D e"] by (intro unat_add_small) linarith
    then show ?thesis using u z de by (simp add: word_unat_eq_iff)
  qed
  have same: "Fsize ?D a = Fsize D a" if "a \<in> set us \<or> a \<in> set vs" for a
    using zo[of a] dist that by auto
  have eqs: "free_bytes ?D us = free_bytes D us" "free_bytes ?D vs = free_bytes D vs"
      "free_sum ?D us = free_sum D us" "free_sum ?D vs = free_sum D vs"
    by (intro free_cong same; simp)+
  have "free_sum ?D (us @ e # vs) + sz = free_sum D (us @ e # vs)"
    using sum by (simp add: free_sum_append free_sum_Cons eqs zo algebra_simps)
  then have fs: "free_sum ?D (us @ e # vs) = FreeMemory D - sz"
    using fm xs by (simp add: eq_diff_eq)
  have split: "bytes e (Fsize D e) = bytes e (data - e) \<union> bytes data sz"
      "bytes e (data - e) \<inter> bytes data sz = {}"
    using u de z by (auto simp: bytes_def)
  have fb: "free_bytes ?D (us @ e # vs) = bytes e (data - e) \<union> free_bytes D (us @ vs)"
    unfolding free_split free_bytes_append free_bytes_Cons eqs zo by auto
  have gen: "A \<union> R = (A \<union> B \<union> R) - B" if "(A \<union> B) \<inter> R = {}" "A \<inter> B = {}" for A B R :: "nat set"
    using that by blast
  have "free_bytes ?D (us @ e # vs) = free_bytes D xs - bytes data sz"
    unfolding fb unfolding xs free_split split(1) by (rule gen[OF ap(1)[unfolded split(1)] split(2)])
  moreover have "bytes data sz \<subseteq> free_bytes D xs" unfolding xs free_split split(1) by blast
  moreover have "fl_inv (take_tail e data sz D) (us @ e # vs)"
    unfolding tt using sh(1) fs by (intro fl_inv_FreeMemory) simp_all
  moreover have "free_bytes (take_tail e data sz D) (us @ e # vs) = free_bytes ?D (us @ e # vs)"
    unfolding tt by (simp add: free_bytes_def)
  moreover have "data \<noteq> NIL" using de by auto
  moreover have "unat data + unat sz \<le> 2 ^ 32" using z ap(4) by linarith
  ultimately show ?thesis
    using sh(3) tt unfolding allocated_def by (auto simp: same_rest_def)
qed

section \<open>Taking the middle of a block\<close>

lemma take_middle_ok:
  assumes inv: "fl_inv D xs" and e: "e \<in> set xs" and d: "data = e \<or> unat e + 24 \<le> unat data"
    and z: "unat data + unat sz + unat left = block_end D e" and l: "24 \<le> unat left" and sz: "0 < sz"
  shows "allocated D xs data sz (take_middle e data left sz D)"
proof (cases "data = e")
  case True
  have "unat (Fsize D e - sz) = unat left" using z True by (simp add: unat_sub_le)
  then have lf: "left = Fsize D e - sz" by (simp add: word_unat_eq_iff)
  have "fits sz (Fsize D e)" using z True l by (simp add: fits_unat)
  then show ?thesis
    using take_best_ok[OF inv e _ sz] True unfolding lf take_middle_def take_best_def Let_def by simp
next
  case False
  obtain us vs where xs: "xs = us @ e # vs" using e by (auto dest: split_list)
  have s: "fl_str D (us @ e # vs)" and fm: "FreeMemory D = free_sum D xs"
    using inv xs by (simp_all add: fl_inv_def)
  note rem = fl_str_remove[OF s] and ap = bytes_apart[OF s]
  let ?D1 = "KLfreeListRemove e D" and ?n = "data - e" and ?b = "data + sz"
  have z1: "Fsize ?D1 a = Fsize D a" for a using fun_cong[OF rem(2)] .
  have de: "unat e + 24 \<le> unat data" using d False by simp
  then have n: "unat ?n = unat data - unat e" by (intro unat_sub_le) simp
  have b: "unat ?b = unat data + unat sz" using z l ap(4) by (intro unat_add_small) linarith
  have e0: "e \<noteq> NIL" "e \<notin> set (us @ vs)" using fl_strD(1,2)[OF s] by auto
  have links: "Fprev D e = last_or NIL us" "Fnext D e = first_or NIL vs"
    using dlist_links(1,2) fl_strD(4)[OF s] unfolding main_list_def by blast+
  let ?D2 = "KLfreeListInsert (last_or NIL us) e (first_or NIL vs) (set_size e ?n ?D1)"
  have lo: "block_end ?D1 u < unat e" if "u \<in> set us" for u using ap(2)[OF that] z1 by simp
  have hi: "unat e + unat ?n < unat v" if "v \<in> set vs" for v using ap(3)[OF that] n de z l by simp
  have n24: "24 \<le> unat ?n" "unat e + unat ?n \<le> 2 ^ 32" using n de unat_less_32[of data] by linarith+
  have I: "fl_str ?D2 (us @ e # vs)" "Fsize ?D2 = (Fsize ?D1)(e := ?n)" "same_rest ?D1 ?D2"
    using fl_str_insert[OF rem(1) e0 n24 lo hi refl refl] by simp_all
  have z2: "Fsize ?D2 a = (if a = e then ?n else Fsize D a)" for a
    using fun_cong[OF I(2), of a] z1 by simp
  have I': "fl_str ?D2 ((us @ [e]) @ vs)" using I(1) by simp
  have b0: "?b \<noteq> NIL" "?b \<notin> set ((us @ [e]) @ vs)"
  proof -
    show "?b \<noteq> NIL" using b de by (metis add_is_0 le_zero_eq unat_0 zero_neq_numeral)
    show "?b \<notin> set ((us @ [e]) @ vs)"
      using ap(2,3)[of ?b] b de z l by (auto simp: word_unat_eq_iff)
  qed
  let ?D3 = "KLfreeListInsert (last_or NIL (us @ [e])) ?b (first_or NIL vs) (set_size ?b left ?D2)"
  have lo2: "block_end ?D2 u < unat ?b" if u: "u \<in> set (us @ [e])" for u
  proof (cases "u = e")
    case True
    then show ?thesis using z2[of e] n de b sz by (simp add: word_less_nat_alt)
  next
    case False
    then show ?thesis using ap(2)[of u] u z2[of u] b de by simp
  qed
  have hi2: "unat ?b + unat left < unat v" if "v \<in> set vs" for v using ap(3)[OF that] b z by simp
  have bl: "unat ?b + unat left \<le> 2 ^ 32" using b z ap(4) by linarith
  have J: "fl_str ?D3 ((us @ [e]) @ ?b # vs)" "Fsize ?D3 = (Fsize ?D2)(?b := left)" "same_rest ?D2 ?D3"
    using fl_str_insert[OF I' b0 l bl lo2 hi2 refl refl] by simp_all
  have z3: "Fsize ?D3 a = (if a = ?b then left else if a = e then ?n else Fsize D a)" for a
    using fun_cong[OF J(2), of a] z2 by simp
  have tm: "take_middle e data left sz D = ?D3\<lparr>FreeMemory := FreeMemory D - sz\<rparr>"
    using False rem(3) I(3) J(3) links by (simp add: take_middle_def Let_def same_rest_def)
  have ne: "?b \<noteq> e" "?b \<notin> set us" "?b \<notin> set vs" "e \<notin> set us" "e \<notin> set vs" using b0(2) e0(2) by auto
  have same: "Fsize ?D3 a = Fsize D a" if "a \<in> set us \<or> a \<in> set vs" for a
    using z3[of a] ne that by auto
  have eqs: "free_bytes ?D3 us = free_bytes D us" "free_bytes ?D3 vs = free_bytes D vs"
      "free_sum ?D3 us = free_sum D us" "free_sum ?D3 vs = free_sum D vs"
    by (intro free_cong same; simp)+
  have sum: "?n + (sz + left) = Fsize D e"
  proof -
    have "unat (sz + left) = unat sz + unat left"
      using z ap(4) de by (intro unat_add_small) linarith
    then have "unat (?n + (sz + left)) = unat ?n + (unat sz + unat left)"
      using n z de unat_less_32[of "Fsize D e"] by (subst unat_add_small) linarith+
    then show ?thesis using n z de by (simp add: word_unat_eq_iff)
  qed
  have "free_sum ?D3 ((us @ [e]) @ ?b # vs) + sz = free_sum D (us @ e # vs)"
    using ne sum unfolding free_sum_append free_sum_Cons eqs z3 free_sum_def[of _ "[]"]
    by (simp add: algebra_simps)
  then have fs: "free_sum ?D3 ((us @ [e]) @ ?b # vs) = FreeMemory D - sz"
    using fm xs by (simp add: eq_diff_eq)
  have split: "bytes e (Fsize D e) = (bytes e ?n \<union> bytes ?b left) \<union> bytes data sz"
      "(bytes e ?n \<union> bytes ?b left) \<inter> bytes data sz = {}"
    using n b de z by (auto simp: bytes_def)
  have fb: "free_bytes ?D3 ((us @ [e]) @ ?b # vs) = (bytes e ?n \<union> bytes ?b left) \<union> free_bytes D (us @ vs)"
    using ne unfolding free_bytes_append free_bytes_Cons eqs z3 free_bytes_def[of _ "[]"] by auto
  have gen: "A \<union> R = (A \<union> B \<union> R) - B" if "(A \<union> B) \<inter> R = {}" "A \<inter> B = {}" for A B R :: "nat set"
    using that by blast
  have "free_bytes ?D3 ((us @ [e]) @ ?b # vs) = free_bytes D xs - bytes data sz"
    unfolding fb unfolding xs free_split split(1) by (rule gen[OF ap(1)[unfolded split(1)] split(2)])
  moreover have "bytes data sz \<subseteq> free_bytes D xs" unfolding xs free_split split(1) by blast
  moreover have "fl_inv (take_middle e data left sz D) ((us @ [e]) @ ?b # vs)"
    unfolding tm using J(1) fs by (intro fl_inv_FreeMemory) simp_all
  moreover have "free_bytes (take_middle e data left sz D) ((us @ [e]) @ ?b # vs)
      = free_bytes ?D3 ((us @ [e]) @ ?b # vs)"
    unfolding tm by (simp add: free_bytes_def)
  moreover have "data \<noteq> NIL" using de by auto
  moreover have "unat data + unat sz \<le> 2 ^ 32" using z ap(4) by linarith
  ultimately show ?thesis
    using rem(3) I(3) J(3) tm unfolding allocated_def by (auto simp: same_rest_def)
qed

section \<open>Where an aligned block starts\<close>

lemma push_bit_1: "(push_bit k 1 :: u32) = 2 ^ k"
  by (simp add: push_bit_eq_mult)

lemma unat_align_mask:
  assumes "k < 32"
  shows "unat (push_bit k 1 - 1 :: u32) = 2 ^ k - 1"
proof -
  have "(push_bit k 1 - 1 :: u32) = of_nat (2 ^ k - 1)"
    unfolding push_bit_1 by (simp add: of_nat_diff)
  then have "unat (push_bit k 1 - 1 :: u32) = (2 ^ k - 1) mod 2 ^ 32"
    by (simp only: unat_of_nat) simp
  also have "\<dots> = 2 ^ k - 1"
    using power_increasing[of k 32 "2 :: nat"] assms zero_less_power[of "2 :: nat" k]
    by (intro mod_less) linarith
  finally show ?thesis .
qed

lemma round_up:
  assumes "k < 32"
  shows "unat ((x + (push_bit k 1 - 1)) AND - push_bit k 1 :: u32)
    = (if unat x + 2 ^ k - 1 < 2 ^ 32 then (unat x + 2 ^ k - 1) div 2 ^ k * 2 ^ k else 0)"
proof -
  let ?a = "push_bit k 1 - 1 :: u32"
  have a: "unat ?a = 2 ^ k - 1" by (rule unat_align_mask[OF assms])
  have sum: "unat x + 2 ^ k - 1 = unat x + unat ?a" unfolding a by simp
  have m: "unat ((x + ?a) AND - push_bit k 1) = unat (x + ?a) div 2 ^ k * 2 ^ k"
    unfolding push_bit_1 minus_exp_eq_not_mask by (rule unat_and_not_mask)
  show ?thesis
  proof (cases "unat x + unat ?a < 2 ^ 32")
    case True
    then show ?thesis unfolding m sum using unat_add_small[OF True] by simp
  next
    case False
    then have "unat (x + ?a) = unat x + unat ?a - 2 ^ 32"
      using unat_less_32[of x] unat_less_32[of ?a] by (simp add: unat_word_ariths mod_if)
    also have "\<dots> < 2 ^ k" using unat_less_32[of x] zero_less_power[of "2::nat" k] unfolding a by linarith
    finally have "unat (x + ?a) div 2 ^ k = 0" by simp
    then show ?thesis unfolding m sum using False by simp
  qed
qed

lemma round_up_bounds:
  fixes x k :: nat
  shows "x \<le> (x + 2 ^ k - 1) div 2 ^ k * 2 ^ k"
proof -
  have "x + 2 ^ k - 1 < (x + 2 ^ k - 1) div 2 ^ k * 2 ^ k + 2 ^ k"
  proof -
    have "(x + 2 ^ k - 1) mod 2 ^ k < 2 ^ k" by (rule mod_less_divisor) simp
    then show ?thesis using div_mult_mod_eq[of "x + 2 ^ k - 1" "2 ^ k"] by linarith
  qed
  then show ?thesis by linarith
qed

lemma align_fit_spec:
  assumes k: "k < 32" and e: "e \<noteq> NIL" and n: "24 \<le> unat n" "unat e + unat n \<le> 2 ^ 32"
    and f: "align_fit k e n = (data, left)" and l: "24 \<le> unat left"
  shows "data = e \<or> unat e + 24 \<le> unat data" "unat data + unat left = unat e + unat n"
    "2 ^ k dvd unat data"
proof -
  let ?up = "\<lambda>x. (x + (push_bit k 1 - 1)) AND - push_bit k 1 :: u32"
  have dv: "2 ^ k dvd unat (?up x)" for x unfolding round_up[OF k] by simp
  have low: "unat x \<le> unat (?up x) \<or> ?up x = 0" for x
    using round_up_bounds[of "unat x" k] round_up[OF k, of x] by (auto simp: word_unat_eq_iff)
  define d1 where "d1 = ?up e"
  define d where "d = (if d1 - e \<noteq> 0 \<and> d1 - e < 24 then ?up (e + 24) else d1)"
  have fd: "data = d" "left = (if d = e \<and> d1 = e then n else if n < d - e then 0 else n - (d - e))"
    using f by (auto simp: align_fit_def Let_def d1_def d_def split: if_splits)
  have dvd: "2 ^ k dvd unat d" unfolding d_def d1_def using dv dv by (rule if_split[of "\<lambda>x. 2 ^ k dvd unat x", THEN iffD2, OF conjI, OF impI impI])
  then show "2 ^ k dvd unat data" using fd by simp
  have case0: "left = 0" if "d = 0"
  proof -
    have "unat (d - e) = 2 ^ 32 - unat e"
      unfolding that unat_sub_if_size using e unat_less_32[of e] by (simp add: word_size unat_eq_0)
    then have "n \<le> d - e" using n(2) by (simp add: word_le_nat_alt)
    then show ?thesis using fd that e by auto
  qed
  have d0: "d \<noteq> 0" using case0 l by auto
  have main: "d = e \<and> d1 = e \<or> unat e + 24 \<le> unat d"
  proof (cases "d1 - e \<noteq> 0 \<and> d1 - e < 24")
    case True
    then have dd: "d = ?up (e + 24)" by (simp add: d_def)
    have "unat e + 24 \<noteq> 2 ^ 32"
    proof
      assume "unat e + 24 = 2 ^ 32"
      then have "unat (e + 24) = 0" by (simp add: unat_word_ariths)
      then have z: "e + 24 = 0" by (simp add: unat_eq_0)
      have "unat (?up (e + 24)) = (2 ^ k - 1) div 2 ^ k * 2 ^ k"
        unfolding round_up[OF k] z using power_strict_increasing[OF k, of "2::nat"] by simp
      also have "\<dots> = 0" by simp
      finally show False using d0 dd by (simp add: unat_eq_0)
    qed
    then have "unat (e + 24) = unat e + 24" using n by (subst unat_add_small) simp_all
    then show ?thesis using low[of "e + 24"] d0 dd by simp
  next
    case False
    then have dd: "d = d1" by (auto simp: d_def)
    then have "unat e \<le> unat d1" using low[of e] d0 by (simp add: d1_def)
    moreover have "d1 = e \<or> 24 \<le> unat (d1 - e)" using False by (auto simp: word_less_nat_alt)
    ultimately show ?thesis using dd by (auto simp: unat_sub_le)
  qed
  then show "data = e \<or> unat e + 24 \<le> unat data" using fd by auto
  show "unat data + unat left = unat e + unat n"
  proof (cases "d = e \<and> d1 = e")
    case True
    then show ?thesis using fd by simp
  next
    case False
    then have de: "unat e + 24 \<le> unat d" using main by blast
    then have u: "unat (d - e) = unat d - unat e" by (intro unat_sub_le) simp
    have "\<not> n < d - e" using fd False l by auto
    then have "unat (d - e) \<le> unat n" "left = n - (d - e)"
      using fd False by (auto simp: word_less_nat_alt)
    then show ?thesis using u de fd(1) by (simp add: unat_sub_le)
  qed
qed

section \<open>Aligned allocation is correct\<close>

definition align_found :: "'e KLfreeListDescriptor \<Rightarrow> addr set \<Rightarrow> nat \<Rightarrow> u32 \<Rightarrow> addr \<Rightarrow> addr \<Rightarrow> u32 \<Rightarrow> bool" where
  "align_found D X k sz e data left \<longleftrightarrow> e \<in> X \<and> align_fit k e (Fsize D e) = (data, left) \<and> sz \<le> left"

lemma align_scan_spec:
  assumes "dseg (Fnextsize D) p pr c ys NIL" and "set ys \<subseteq> X"
    and "be = NIL \<or> (\<exists>l. align_found D X k sz be res l \<and> bl = l - sz \<and> entry_size \<le> bl)"
  shows "\<exists>perf bl' be' res'. align_scan (flmem D) k sz c bl be res = Some (perf, bl', be', res')
    \<and> (case perf of
         Some (e, data) \<Rightarrow> align_found D X k sz e data sz
       | None \<Rightarrow> be' = NIL \<or> (\<exists>l. align_found D X k sz be' res' l \<and> bl' = l - sz \<and> entry_size \<le> bl'))"
  using assms
proof (induction ys arbitrary: pr c bl be res)
  case Nil
  then show ?case by (subst align_scan.simps) simp
next
  case (Cons y ys)
  let ?n = "Fsize D y"
  obtain data left where f: "align_fit k y ?n = (data, left)" by fastforce
  have c: "c = y" "y \<noteq> NIL" "y \<in> X" and d: "dseg (Fnextsize D) p y (Fnextsize D y) ys NIL"
    and ys: "set ys \<subseteq> X"
    using Cons.prems by auto
  consider "sz \<le> ?n" "sz \<le> left" "left = sz"
    | "sz \<le> ?n" "sz \<le> left" "left \<noteq> sz" "entry_size \<le> left - sz" "left - sz \<le> bl"
    | "\<not> (sz \<le> ?n \<and> sz \<le> left)
       \<or> (left \<noteq> sz \<and> \<not> (entry_size \<le> left - sz \<and> left - sz \<le> bl))"
    by blast
  then show ?case
  proof cases
    case 1
    then show ?thesis using c f by (subst align_scan.simps) (simp add: align_found_def)
  next
    case 2
    have "align_scan (flmem D) k sz c bl be res
        = align_scan (flmem D) k sz (Fnextsize D y) (left - sz) y data"
      using c f 2 by (subst align_scan.simps) simp
    moreover have "align_found D X k sz y data left" using 2 c f by (simp add: align_found_def)
    ultimately show ?thesis
      using Cons.IH[OF d ys, of y data "left - sz"] 2 by auto
  next
    case 3
    have "align_scan (flmem D) k sz c bl be res
        = align_scan (flmem D) k sz (Fnextsize D y) bl be res"
      using c f 3 by (subst align_scan.simps) auto
    then show ?thesis using Cons.IH[OF d ys Cons.prems(3)] by simp
  qed
qed

lemma align_tables_spec:
  assumes s: "size_lists D X Y" and "\<forall>t\<in>set ts. t < 8"
  shows "\<exists>r. align_tables k sz D bl NIL res ts = Some r
    \<and> (case r of
         None \<Rightarrow> True
       | Some (data, D') \<Rightarrow> \<exists>e left. align_found D X k sz e data left
           \<and> (left = sz \<and> D' = take_tail e data sz D
              \<or> entry_size \<le> left - sz \<and> D' = take_middle e data (left - sz) sz D))"
  using assms(2)
proof (induction ts arbitrary: bl res)
  case (Cons t ts)
  then have t: "t < 8" by simp
  have Y: "dlist (Fnextsize D) (Fprevsize D) (FirstFreeSizeEntry D ! t) (Y t)" "set (Y t) \<subseteq> X"
    using s t by (auto simp: size_lists_def)
  obtain perf bl' be' res' where
    sc: "align_scan (flmem D) k sz (FirstFreeSizeEntry D ! t) bl NIL res = Some (perf, bl', be', res')"
    and sp: "case perf of
         Some (e, data) \<Rightarrow> align_found D X k sz e data sz
       | None \<Rightarrow> be' = NIL \<or> (\<exists>l. align_found D X k sz be' res' l \<and> bl' = l - sz \<and> entry_size \<le> bl')"
    using align_scan_spec[OF Y, of NIL k sz res bl] by auto
  show ?case
  proof (cases perf)
    case (Some ed)
    obtain e data where "ed = (e, data)" by fastforce
    then show ?thesis using sc sp Some by auto
  next
    case None
    show ?thesis
    proof (cases "be' = NIL")
      case True
      then show ?thesis using sc None Cons.IH[of bl' res'] Cons.prems by simp
    next
      case False
      then show ?thesis using sc sp None by auto
    qed
  qed
qed simp

lemma align_pass_ok:
  assumes inv: "fl_inv D xs" and sz: "24 \<le> unat sz" and k: "k < 32"
  shows "\<exists>r. align_pass k sz D = Some r
    \<and> (case r of None \<Rightarrow> True | Some (a, D') \<Rightarrow> allocated D xs a sz D' \<and> 2 ^ k dvd unat a)"
proof -
  obtain Y where s: "size_lists D (set xs) Y" using inv by (auto simp: fl_inv_def fl_str_def)
  obtain r where r: "align_pass k sz D = Some r"
    "case r of None \<Rightarrow> True
       | Some (data, D') \<Rightarrow> \<exists>e left. align_found D (set xs) k sz e data left
           \<and> (left = sz \<and> D' = take_tail e data sz D
              \<or> entry_size \<le> left - sz \<and> D' = take_middle e data (left - sz) sz D)"
    using align_tables_spec[OF s, of "[KLgetFastLookupToUse sz..<8]" k sz "- 1" 0]
    by (auto simp: align_pass_def)
  have "allocated D xs a sz D' \<and> 2 ^ k dvd unat a" if ra: "r = Some (a, D')" for a D'
  proof -
    obtain e left where fo: "align_found D (set xs) k sz e a left"
      and alt: "left = sz \<and> D' = take_tail e a sz D
              \<or> entry_size \<le> left - sz \<and> D' = take_middle e a (left - sz) sz D"
      using r(2) ra by auto
    have e: "e \<in> set xs" and ft: "align_fit k e (Fsize D e) = (a, left)" and le: "unat sz \<le> unat left"
      using fo by (simp_all add: align_found_def word_le_nat_alt)
    have st: "fl_str D xs" using inv by (simp add: fl_inv_def)
    have b: "24 \<le> unat (Fsize D e)" "unat e + unat (Fsize D e) \<le> 2 ^ 32"
      using fl_strD(3)[OF st] e by (auto simp: blocks_ok_def)
    have "e \<noteq> NIL" using fl_strD(2)[OF st] e by auto
    note sp = align_fit_spec[OF k this b ft order.trans[OF sz le]]
    have s0: "0 < sz" using sz by (simp add: word_less_nat_alt)
    show ?thesis
      using alt
    proof
      assume h: "left = sz \<and> D' = take_tail e a sz D"
      then show ?thesis using take_tail_ok[OF inv e sp(1) _ s0] sp(2,3) by simp
    next
      assume h: "entry_size \<le> left - sz \<and> D' = take_middle e a (left - sz) sz D"
      have "24 \<le> unat (left - sz)" using h by (simp add: word_le_nat_alt)
      moreover have "unat (left - sz) = unat left - unat sz" using le by (rule unat_sub_le)
      ultimately show ?thesis
        using take_middle_ok[OF inv e sp(1) _ _ s0, of "left - sz"] sp(2,3) le h by simp
    qed
  qed
  then show ?thesis using r(1) by (intro exI[of _ r]) (cases r; auto)
qed

lemma KLfreeListMemAllocAlign_ok:
  assumes inv: "fl_inv D xs" and c: "AllocChunk D = None"
    and sz: "sz = AdjustSize n" "24 \<le> unat sz" and k: "k < 32"
  shows "\<exists>r D'. KLfreeListMemAllocAlign n k D = Some (r, D')
    \<and> (if r = NIL then D' = D else allocated D xs r sz D' \<and> 2 ^ k dvd unat r)"
proof -
  obtain r where r: "align_pass k sz D = Some r"
    "case r of None \<Rightarrow> True | Some (a, D') \<Rightarrow> allocated D xs a sz D' \<and> 2 ^ k dvd unat a"
    using align_pass_ok[OF inv sz(2) k] by blast
  show ?thesis
  proof (cases r)
    case None
    then show ?thesis using r c sz(1) by (simp add: KLfreeListMemAllocAlign_def Let_def)
  next
    case (Some p)
    then obtain a D' where p: "r = Some (a, D')" by (cases p) simp
    then have "KLfreeListMemAllocAlign n k D = Some (a, D')" "allocated D xs a sz D'" "2 ^ k dvd unat a"
      using r sz(1) by (simp_all add: KLfreeListMemAllocAlign_def Let_def)
    moreover have "a \<noteq> NIL" using calculation(2) by (simp add: allocated_def)
    ultimately show ?thesis by simp
  qed
qed

section \<open>Allocating a given region\<close>

text \<open>
  The remainder behind the region must be empty or have room for a header, which the code
  does not check.
\<close>

definition rest_ok :: "'e KLfreeListDescriptor \<Rightarrow> addr set \<Rightarrow> addr \<Rightarrow> u32 \<Rightarrow> bool" where
  "rest_ok D X data sz \<longleftrightarrow> (\<forall>e\<in>X. block_end D e \<le> unat data + unat sz
     \<or> unat data + unat sz + 24 \<le> block_end D e)"

lemma region_search_spec:
  assumes "dseg (Fnextsize D) p pr c ys NIL"
    and "\<And>y. y \<in> set ys \<Longrightarrow> block_end D y \<le> 2 ^ 32" and "0 < sz"
  shows "\<exists>r. region_search (flmem D) data sz c = Some r
    \<and> (case r of
         Found e left \<Rightarrow> e \<in> set ys \<and> (data = e \<or> unat e + 24 \<le> unat data)
           \<and> unat data + unat sz + unat left = block_end D e
       | _ \<Rightarrow> True)"
  using assms
proof (induction ys arbitrary: pr c)
  case Nil
  then show ?case by (subst region_search.simps) simp
next
  case (Cons y ys)
  have c: "c = y" "y \<noteq> NIL" and d: "dseg (Fnextsize D) p y (Fnextsize D y) ys NIL"
    using Cons.prems by auto
  have be: "block_end D y \<le> 2 ^ 32" using Cons.prems(2) by simp
  let ?l = "data - y"
  let ?left = "if ?l \<noteq> 0 then (if Fsize D y < ?l then 0 else Fsize D y - ?l) else Fsize D y"
  have IH: "\<exists>r. region_search (flmem D) data sz (Fnextsize D y) = Some r
    \<and> (case r of
         Found e left \<Rightarrow> e \<in> set (y # ys) \<and> (data = e \<or> unat e + 24 \<le> unat data)
           \<and> unat data + unat sz + unat left = block_end D e
       | _ \<Rightarrow> True)"
    using Cons.IH[OF d] Cons.prems by (fastforce split: region_scan.splits)
  consider "\<not> y \<le> data" | "y \<le> data" "?l \<noteq> 0 \<and> ?l < 24"
    | "y \<le> data" "\<not> (?l \<noteq> 0 \<and> ?l < 24)" "sz \<le> ?left"
    | "y \<le> data" "\<not> (?l \<noteq> 0 \<and> ?l < 24)" "\<not> sz \<le> ?left"
    by blast
  then show ?case
  proof cases
    case 1
    then show ?thesis using c by (subst region_search.simps) simp
  next
    case 2
    then show ?thesis using c by (subst region_search.simps) simp
  next
    case 3
    have call: "region_search (flmem D) data sz c = Some (Found y (?left - sz))"
      unfolding region_search.simps[of "flmem D" data sz c] Let_def unfolding c(1)
        if_not_P[OF c(2)] if_P[OF 3(1)] if_not_P[OF 3(2)] if_P[OF 3(3)] ..
    have yd: "unat y \<le> unat data" using 3(1) by (simp add: word_le_nat_alt)
    then have l: "unat ?l = unat data - unat y" by (rule unat_sub_le)
    have s0: "0 < unat sz" using Cons.prems(3) by (simp add: word_less_nat_alt)
    have s: "unat sz \<le> unat ?left" using 3(3) by (simp only: word_le_nat_alt)
    have left: "unat data + unat ?left = block_end D y"
    proof (cases "?l = 0")
      case True
      then show ?thesis by simp
    next
      case False
      then have n: "\<not> Fsize D y < ?l" using s s0 by auto
      then have "unat ?l \<le> unat (Fsize D y)" by (simp add: word_less_nat_alt)
      then have "unat (Fsize D y - ?l) = unat (Fsize D y) - unat ?l" by (rule unat_sub_le)
      then show ?thesis using False n l yd \<open>unat ?l \<le> unat (Fsize D y)\<close> by simp
    qed
    have "unat (?left - sz) = unat ?left - unat sz" using s by (rule unat_sub_le)
    moreover have "data = y \<or> unat y + 24 \<le> unat data"
      using 3(2) l yd by (auto simp: word_less_nat_alt)
    ultimately show ?thesis using call left s by (intro exI[of _ "Found y (?left - sz)"]) simp
  next
    case 4
    have "region_search (flmem D) data sz c = region_search (flmem D) data sz (Fnextsize D y)"
      unfolding region_search.simps[of "flmem D" data sz c] Let_def unfolding c(1)
        if_not_P[OF c(2)] if_P[OF 4(1)] if_not_P[OF 4(2)] if_not_P[OF 4(3)] ..
    then show ?thesis using IH by simp
  qed
qed

lemma KLfreeListMemAllocRegion_ok:
  assumes inv: "fl_inv D xs" and sz: "sz = AdjustSize n" "0 < sz" and rest: "rest_ok D (set xs) data sz"
  shows "\<exists>r D'. KLfreeListMemAllocRegion data n D = Some (r, D')
    \<and> (if r = NIL then D' = D else r = data \<and> allocated D xs data sz D')"
proof -
  have st: "fl_str D xs" using inv by (simp add: fl_inv_def)
  obtain Y where s: "size_lists D (set xs) Y" using st by (auto simp: fl_str_def)
  have be: "block_end D y \<le> 2 ^ 32" if "y \<in> set xs" for y
    using fl_strD(3)[OF st] that by (simp add: blocks_ok_def)
  have "\<exists>r D'. region_tables data sz D ts = Some (r, D')
      \<and> (r = NIL \<and> D' = D \<or> r = data \<and> allocated D xs data sz D')" if "\<forall>t\<in>set ts. t < 8" for ts
    using that
  proof (induction ts)
    case (Cons t ts)
    then have t: "t < 8" by simp
    have Y: "dlist (Fnextsize D) (Fprevsize D) (FirstFreeSizeEntry D ! t) (Y t)" "set (Y t) \<subseteq> set xs"
      using s t by (auto simp: size_lists_def)
    obtain r where r: "region_search (flmem D) data sz (FirstFreeSizeEntry D ! t) = Some r"
      "case r of
         Found e left \<Rightarrow> e \<in> set (Y t) \<and> (data = e \<or> unat e + 24 \<le> unat data)
           \<and> unat data + unat sz + unat left = block_end D e
       | _ \<Rightarrow> True"
      using region_search_spec[OF Y(1) _ sz(2)] be Y(2) by blast
    show ?case
    proof (cases r)
      case (Found e left)
      then have e: "e \<in> set xs" "data = e \<or> unat e + 24 \<le> unat data"
          "unat data + unat sz + unat left = block_end D e"
        using r(2) Y(2) by auto
      have "allocated D xs data sz
          (if left = 0 then take_tail e data sz D else take_middle e data left sz D)"
      proof (cases "left = 0")
        case True
        then show ?thesis using take_tail_ok[OF inv e(1,2) _ sz(2)] e(3) by simp
      next
        case False
        then have "0 < unat left" by (simp add: unat_gt_0)
        then have "24 \<le> unat left" using rest e(1,3) by (fastforce simp: rest_ok_def)
        then show ?thesis using take_middle_ok[OF inv e(1,2,3) _ sz(2)] False by simp
      qed
      then show ?thesis using r(1) Found by auto
    qed (use r Cons in auto)
  qed simp
  from this[of "[KLgetFastLookupToUse sz..<8]"] show ?thesis
    using sz(1) by (auto simp: KLfreeListMemAllocRegion_def Let_def allocated_def)
qed

text \<open>
  A region that leaves fewer bytes than a header: the remainder is put in the list all the
  same, as a block too small for the header written into it.
\<close>

lemma region_small_rest:
  assumes inv: "fl_inv D [e]" and sz: "sz = AdjustSize n" "0 < sz"
    and k: "unat (Fsize D e) = unat sz + unat k" "0 < unat k" "unat k < 24"
  shows "\<exists>D'. KLfreeListMemAllocRegion e n D = Some (e, D') \<and> FirstFreeEntry D' = e + sz
    \<and> Fsize D' (e + sz) = k"
proof -
  have st: "fl_str D [e]" using inv by (simp add: fl_inv_def)
  obtain Y where s: "size_lists D {e} Y" and m: "main_list D ([] @ e # [])"
    using st by (auto simp: fl_str_def)
  have e: "e \<noteq> NIL" "Fprev D e = NIL" "Fnext D e = NIL" using m by (auto simp: main_list_def)
  have kk: "Fsize D e - sz = k"
    using k(1) by (simp add: word_unat_eq_iff unat_sub_le)
  have le: "sz \<le> Fsize D e" using k(1) by (simp add: word_le_nat_alt)
  have k0: "k \<noteq> 0" using k(2) by auto
  let ?D1 = "KLfreeListRemove e D"
  let ?D3 = "KLfreeListInsert NIL (e + sz) NIL (set_size (e + sz) k ?D1)"
  let ?D' = "?D3\<lparr>FreeMemory := FreeMemory ?D3 - sz\<rparr>"
  have step: "region_tables e sz D ts = Some (e, ?D')"
    if "KLgetFastLookupToUse (Fsize D e) \<in> set ts" "\<forall>t\<in>set ts. t < 8" for ts
    using that
  proof (induction ts)
    case (Cons t ts)
    have Y: "dlist (Fnextsize D) (Fprevsize D) (FirstFreeSizeEntry D ! t) (Y t)"
        "distinct (Y t)" "set (Y t) = {a. a = e \<and> Flookup D a = t}"
      using s Cons.prems by (auto simp: size_lists_def)
    have lk: "Flookup D e = KLgetFastLookupToUse (Fsize D e)" using s by (simp add: size_lists_def)
    show ?case
    proof (cases "t = KLgetFastLookupToUse (Fsize D e)")
      case True
      then have sy: "set (Y t) = {e}" using Y(3) lk by auto
      have "Y t = [e]"
      proof (cases "Y t")
        case (Cons a l)
        then have "a = e" "set l \<subseteq> {e}" "e \<notin> set l" using sy Y(2) by auto
        then show ?thesis using Cons by (cases l) auto
      qed (use sy in simp)
      then have "FirstFreeSizeEntry D ! t = e" using Y(1) by simp
      then have "region_search (flmem D) e sz (FirstFreeSizeEntry D ! t) = Some (Found e k)"
        using e le kk by (subst region_search.simps) simp
      then show ?thesis using e k0 by (simp add: take_middle_def Let_def fun_upd_def)
    next
      case False
      then have "set (Y t) = {}" using Y(3) lk by auto
      then have "FirstFreeSizeEntry D ! t = NIL" using Y(1) by simp
      then have "region_search (flmem D) e sz (FirstFreeSizeEntry D ! t) = Some NotHere"
        by (subst region_search.simps) simp
      then show ?thesis using Cons False by simp
    qed
  qed simp
  have "KLgetFastLookupToUse (Fsize D e) \<in> set [KLgetFastLookupToUse sz..<8]"
    using lookup_mono[OF le] lookup_less by simp
  then have "KLfreeListMemAllocRegion e n D = Some (e, ?D')"
    using step sz(1) by (simp add: KLfreeListMemAllocRegion_def Let_def)
  moreover have "FirstFreeEntry ?D' = e + sz"
  proof -
    obtain D1 where "?D3 = KLfreeListSizeInsert (e + sz) D1" "FirstFreeEntry D1 = e + sz"
      unfolding KLfreeListInsert_def Let_def by simp
    then show ?thesis by (simp add: SizeInsert_fields)
  qed
  moreover have "Fsize ?D' (e + sz) = k"
    by (simp add: KLfreeListInsert_def Let_def SizeInsert_fields(3)[THEN fun_cong])
  ultimately show ?thesis by blast
qed

section \<open>The allocator's properties\<close>

text \<open>A free list with one block, for the examples.\<close>

definition no_entry :: KLfreeListEntry where
  "no_entry = \<lparr>fprev = 0, fnext = 0, fprevsize = 0, fnextsize = 0, fsize = 0, flookup = 0\<rparr>"

definition one_block :: "addr \<Rightarrow> u32 \<Rightarrow> unit KLfreeListDescriptor" where
  "one_block a n = \<lparr>FirstFreeEntry = a,
     FirstFreeSizeEntry = (replicate 8 NIL)[KLgetFastLookupToUse n := a], FreeMemory = n,
     AllocChunk = None, PrepareFreeChunk = None, FreeChunk = None, DisallowFreeChunk = False,
     flmem = (\<lambda>_. no_entry)(a := no_entry\<lparr>fsize := n, flookup := KLgetFastLookupToUse n\<rparr>), flenv = ()\<rparr>"

lemma one_block_inv:
  assumes "a \<noteq> NIL" "24 \<le> unat n" "unat a + unat n \<le> 2 ^ 32"
  shows "fl_inv (one_block a n) [a]"
proof -
  have "main_list (one_block a n) [a]" using assms(1)
    by (simp add: main_list_def one_block_def no_entry_def)
  moreover have "size_lists (one_block a n) {a} (\<lambda>t. if t = KLgetFastLookupToUse n then [a] else [])"
    using assms(1) lookup_less[of n]
    by (auto simp: size_lists_def one_block_def no_entry_def nth_list_update)
  moreover have "blocks_ok (one_block a n) [a]" using assms by (simp add: blocks_ok_def one_block_def no_entry_def)
  ultimately show ?thesis
    by (auto simp: fl_inv_def fl_str_def free_sum_def one_block_def no_entry_def)
qed

lemma one_block_fields [simp]:
  "AllocChunk (one_block a n) = None" "PrepareFreeChunk (one_block a n) = None"
  "FreeChunk (one_block a n) = None" "FreeMemory (one_block a n) = n" "Fsize (one_block a n) a = n"
  "free_bytes (one_block a n) [a] = bytes a n"
  by (simp_all add: one_block_def no_entry_def free_bytes_def)

text \<open>C2: A request to the free list allocator returns; when it gets a block, the block
  was free, is free no more, all other free memory stays free, the lists stay consistent and
  the count of free memory is right; when it gets none, nothing changes and no free block
  is an exact fit or leaves room for a header (FreelistAlloc.c, \<open>KLfreeListMemAlloc\<close>).\<close>

theorem freelist_alloc:
  assumes "fl_inv D xs" and "AllocChunk D = None" and "0 < AdjustSize n"
  shows "\<exists>r D'. KLfreeListMemAlloc n D = Some (r, D')
    \<and> (if r = NIL then D' = D \<and> no_block D (set xs) (AdjustSize n) else allocated D xs r (AdjustSize n) D')"
  using KLfreeListMemAlloc_ok[OF assms(1,2) refl assms(3)] .

theorem freelist_alloc_witness:
  "\<exists>r D'. KLfreeListMemAlloc 100 (one_block 0x1000 0x1000) = Some (r, D') \<and> r \<noteq> NIL
    \<and> FreeMemory D' = 0xF9C"
proof -
  have i: "fl_inv (one_block 0x1000 0x1000) [0x1000]" by (rule one_block_inv) simp_all
  have a: "AdjustSize 100 = 100" by (simp add: AdjustSize_def)
  obtain r D' where r: "KLfreeListMemAlloc 100 (one_block 0x1000 0x1000) = Some (r, D')"
      "if r = NIL then D' = one_block 0x1000 0x1000 \<and> no_block (one_block 0x1000 0x1000) (set [0x1000]) 100
       else allocated (one_block 0x1000 0x1000) [0x1000] r 100 D'"
    using freelist_alloc[OF i, where n = 100] unfolding a by fastforce
  have "r \<noteq> NIL" using r(2) by (auto simp: no_block_def fits_def)
  then show ?thesis using r by (auto simp: allocated_def)
qed

text \<open>C3: Giving back a block that is not free returns and makes exactly its bytes free;
  the list stays sorted with neighbouring blocks joined, and the count of free memory is right
  (FreelistAlloc.c, \<open>KLfreeListMemFree\<close>, without chunk callbacks).\<close>

theorem freelist_free:
  assumes "fl_inv D xs" and "PrepareFreeChunk D = None" and "data \<noteq> NIL"
    and "24 \<le> unat (AdjustSize n)" and "unat data + unat (AdjustSize n) \<le> 2 ^ 32"
    and "bytes data (AdjustSize n) \<inter> free_bytes D xs = {}"
  shows "\<exists>D' xs'. KLfreeListMemFree data n D = Some D' \<and> fl_inv D' xs'
    \<and> free_bytes D' xs' = free_bytes D xs \<union> bytes data (AdjustSize n)
    \<and> FreeMemory D' = FreeMemory D + AdjustSize n"
  using KLfreeListMemFree_ok[OF assms(1,2) refl assms(3-6)] by blast

theorem freelist_free_witness:
  "\<exists>D' xs'. KLfreeListMemFree 0x2000 98 (one_block 0x1000 0x1000) = Some D' \<and> fl_inv D' xs'
    \<and> free_bytes D' xs' = {0x1000..<0x2064}"
proof -
  have i: "fl_inv (one_block 0x1000 0x1000) [0x1000]" by (rule one_block_inv) simp_all
  have a: "AdjustSize 98 = 100" by (simp add: AdjustSize_def)
  show ?thesis using freelist_free[OF i, where data = "0x2000" and n = 98] unfolding a
    by (auto simp: bytes_def ivl_disj_un)
qed

text \<open>C22: An aligned request returns, and a block it gets is aligned and was free, and only
  it is taken (FreelistAlloc.c, \<open>KLfreeListMemAllocAlign\<close>).\<close>

theorem freelist_align:
  assumes "fl_inv D xs" and "AllocChunk D = None" and "24 \<le> unat (AdjustSize n)" and "k < 32"
  shows "\<exists>r D'. KLfreeListMemAllocAlign n k D = Some (r, D')
    \<and> (if r = NIL then D' = D else allocated D xs r (AdjustSize n) D' \<and> 2 ^ k dvd unat r)"
  using KLfreeListMemAllocAlign_ok[OF assms(1,2) refl assms(3,4)] .

theorem freelist_align_witness:
  "\<exists>r D'. KLfreeListMemAllocAlign 0x1000 12 (one_block 0x1010 0x4000) = Some (r, D') \<and> 4096 dvd unat r"
proof -
  have i: "fl_inv (one_block 0x1010 0x4000) [0x1010]" by (rule one_block_inv) simp_all
  have a: "AdjustSize 0x1000 = 0x1000" by (simp add: AdjustSize_def)
  show ?thesis using freelist_align[OF i, where n = "0x1000" and k = 12] unfolding a
    by (auto split: if_splits)
qed

text \<open>C23: A request for a given region returns; if it succeeds the region was free and it
  alone is taken, provided no free block ends within a header's size behind the region
  (FreelistAlloc.c, \<open>KLfreeListMemAllocRegion\<close>).\<close>

theorem freelist_region:
  assumes "fl_inv D xs" and "0 < AdjustSize n" and "rest_ok D (set xs) data (AdjustSize n)"
  shows "\<exists>r D'. KLfreeListMemAllocRegion data n D = Some (r, D')
    \<and> (if r = NIL then D' = D else r = data \<and> allocated D xs data (AdjustSize n) D')"
  using KLfreeListMemAllocRegion_ok[OF assms(1) refl assms(2,3)] .

theorem freelist_region_witness:
  "\<exists>r D'. KLfreeListMemAllocRegion 0x1800 0x100 (one_block 0x1000 0x1000) = Some (r, D')
    \<and> (r = NIL \<or> r = 0x1800)"
proof -
  have i: "fl_inv (one_block 0x1000 0x1000) [0x1000]" by (rule one_block_inv) simp_all
  have a: "AdjustSize 0x100 = 0x100" by (simp add: AdjustSize_def)
  show ?thesis using freelist_region[OF i, where n = "0x100" and data = "0x1800"] unfolding a
    by (auto simp: rest_ok_def split: if_splits)
qed

text \<open>Without that proviso the remainder goes into the list although it has no room for
  the list's own header: an entry of less than 24 bytes (FreelistAlloc.c,
  \<open>KLfreeListMemAllocRegion\<close>).\<close>

theorem freelist_region_overlap:
  assumes "fl_inv D [e]" and "0 < AdjustSize n"
    and "unat (Fsize D e) = unat (AdjustSize n) + unat k" and "0 < unat k" and "unat k < 24"
  shows "\<exists>D'. KLfreeListMemAllocRegion e n D = Some (e, D') \<and> FirstFreeEntry D' = e + AdjustSize n
    \<and> Fsize D' (FirstFreeEntry D') = k \<and> \<not> (\<exists>xs. fl_inv D' xs)"
proof -
  obtain D' where d: "KLfreeListMemAllocRegion e n D = Some (e, D')" "FirstFreeEntry D' = e + AdjustSize n"
      "Fsize D' (e + AdjustSize n) = k"
    using region_small_rest[OF assms(1) refl assms(2-5)] by blast
  have st: "fl_str D [e]" using assms(1) by (simp add: fl_inv_def)
  have e: "e \<noteq> NIL" "unat e + unat (Fsize D e) \<le> 2 ^ 32"
    using fl_strD(2,3)[OF st] by (simp_all add: blocks_ok_def)
  have "unat (e + AdjustSize n) = unat e + unat (AdjustSize n)"
    by (rule unat_add_small) (use e(2) assms(3,4) in simp)
  then have ne: "e + AdjustSize n \<noteq> NIL" using assms(2) by (auto simp: word_less_nat_alt)
  have "\<not> fl_inv D' xs" for xs
  proof
    assume "fl_inv D' xs"
    then have s: "fl_str D' xs" by (simp add: fl_inv_def)
    have "FirstFreeEntry D' \<in> set xs"
      using s ne d(2) by (cases xs) (auto simp: fl_str_def main_list_def)
    then have "24 \<le> unat k" using fl_strD(3)[OF s] d(2,3) by (auto simp: blocks_ok_def)
    then show False using assms(5) by simp
  qed
  then show ?thesis using d by auto
qed

theorem freelist_region_overlap_witness:
  "\<exists>D'. KLfreeListMemAllocRegion 0x1000 96 (one_block 0x1000 100) = Some (0x1000, D')
    \<and> FirstFreeEntry D' = 0x1060 \<and> Fsize D' 0x1060 = 4"
proof -
  have i: "fl_inv (one_block 0x1000 100) [0x1000]" by (rule one_block_inv) simp_all
  have a: "AdjustSize 96 = 96" by (simp add: AdjustSize_def)
  show ?thesis using freelist_region_overlap[OF i, where n = 96 and k = 4] unfolding a by auto
qed

text \<open>When the client is ready to take a whole free block back, the block is lost: it is
  neither put into the list nor handed to \<open>FreeChunk\<close>; and once the flag that is meant to
  hold releases off is set, no block is ever offered (FreelistAlloc.c,
  \<open>KLfreeListMemFreeChunk\<close>).\<close>

theorem freelist_chunk_lost:
  assumes "PrepareFreeChunk D = Some prep" and "FreeChunk D = Some free"
    and "prep entry (fsize (flmem D entry)) (flenv D) = (True, entry, sz, env)"
  shows "KLfreeListMemFreeChunk p entry n D
    = (if DisallowFreeChunk D then KLfreeListInsert p entry n D else D\<lparr>flenv := env\<rparr>)"
  using assms by (simp add: KLfreeListMemFreeChunk_def)

text \<open>The client's environment counts the bytes it got back.\<close>

theorem freelist_chunk_lost_witness:
  "flenv (KLfreeListMemFreeChunk NIL 0x1000 NIL
     \<lparr>FirstFreeEntry = NIL, FirstFreeSizeEntry = replicate 8 NIL, FreeMemory = 0x1000, AllocChunk = None,
      PrepareFreeChunk = Some (\<lambda>a n e. (True, a, n, e)), FreeChunk = Some (\<lambda>a n e. e + unat n),
      DisallowFreeChunk = False, flmem = (\<lambda>_. no_entry\<lparr>fsize := 0x1000\<rparr>), flenv = 0\<rparr>) = 0"
  by (subst freelist_chunk_lost[where prep = "\<lambda>a n e. (True, a, n, e)" and free = "\<lambda>a n e. e + unat n"
        and sz = "0x1000" and env = 0]) (simp_all add: no_entry_def)

end
