(* ===== verification/CK_Memory.thy ===== *)
theory CK_Memory
  imports KL_FreelistAlign
begin

text \<open>
  The Cache Kernel's private memory: \<^verbatim>\<open>CK/memory.c\<close>, a free list behind a polled mutex,
  and the marking of the physical memory in
  \<^verbatim>\<open>CK/architecture/I80X86/memhw.c\<close>. The interface its clients rely on is the locale
  \<open>allocator\<close>; its interpretation discharges the laws for \<open>CKmemAlloc\<close> and \<open>CKmemFree\<close>.
\<close>

section \<open>The operations (memory.c)\<close>

record CKMEM =
  CKFreeListLock :: CKMutex
  CKFreeList :: "unit KLfreeListDescriptor"

abbreviation PAGEBITS :: nat where
  "PAGEBITS \<equiv> 12"

text \<open>Entering and leaving the lock around a call of the free list.\<close>

definition CKmemAlloc :: "u32 \<Rightarrow> CKMEM \<Rightarrow> (addr \<times> CKMEM) option" where
  "CKmemAlloc sz m =
     do {
       l \<leftarrow> CKenterCritical (CKFreeListLock m);
       (r, D) \<leftarrow> KLfreeListMemAlloc sz (CKFreeList m);
       Some (r, m\<lparr>CKFreeListLock := CKexitCritical l, CKFreeList := D\<rparr>)
     }"

definition CKmemAllocAlign :: "u32 \<Rightarrow> nat \<Rightarrow> CKMEM \<Rightarrow> (addr \<times> CKMEM) option" where
  "CKmemAllocAlign sz alignment m =
     do {
       l \<leftarrow> CKenterCritical (CKFreeListLock m);
       (r, D) \<leftarrow> KLfreeListMemAllocAlign sz alignment (CKFreeList m);
       Some (r, m\<lparr>CKFreeListLock := CKexitCritical l, CKFreeList := D\<rparr>)
     }"

definition CKmemAllocPages :: "u32 \<Rightarrow> CKMEM \<Rightarrow> (addr \<times> CKMEM) option" where
  "CKmemAllocPages nopages m =
     do {
       l \<leftarrow> CKenterCritical (CKFreeListLock m);
       (r, D) \<leftarrow> KLfreeListMemAllocAlign (push_bit PAGEBITS nopages) PAGEBITS (CKFreeList m);
       Some (r, m\<lparr>CKFreeListLock := CKexitCritical l, CKFreeList := D\<rparr>)
     }"

definition CKmemAllocRegion :: "addr \<Rightarrow> u32 \<Rightarrow> CKMEM \<Rightarrow> (addr \<times> CKMEM) option" where
  "CKmemAllocRegion data sz m =
     do {
       l \<leftarrow> CKenterCritical (CKFreeListLock m);
       (r, D) \<leftarrow> KLfreeListMemAllocRegion data sz (CKFreeList m);
       Some (r, m\<lparr>CKFreeListLock := CKexitCritical l, CKFreeList := D\<rparr>)
     }"

definition CKmemFree :: "addr \<Rightarrow> u32 \<Rightarrow> CKMEM \<Rightarrow> CKMEM option" where
  "CKmemFree data sz m =
     do {
       l \<leftarrow> CKenterCritical (CKFreeListLock m);
       D \<leftarrow> KLfreeListMemFree data sz (CKFreeList m);
       Some (m\<lparr>CKFreeListLock := CKexitCritical l, CKFreeList := D\<rparr>)
     }"

text \<open>\<open>CKmemFreePages\<close> enters the lock and calls \<open>CKmemFree\<close>, which enters it again.\<close>

definition CKmemFreePages :: "addr \<Rightarrow> u32 \<Rightarrow> CKMEM \<Rightarrow> CKMEM option" where
  "CKmemFreePages data nopages m =
     do {
       l \<leftarrow> CKenterCritical (CKFreeListLock m);
       m' \<leftarrow> CKmemFree data (push_bit PAGEBITS nopages) (m\<lparr>CKFreeListLock := l\<rparr>);
       Some (m'\<lparr>CKFreeListLock := CKexitCritical (CKFreeListLock m')\<rparr>)
     }"

section \<open>The memory the machine has (memhw.c)\<close>

definition LINEAR :: "addr \<Rightarrow> addr" where
  "LINEAR x = x + 0xc0000000"

definition PHYS :: "addr \<Rightarrow> addr" where
  "PHYS x = x - 0xc0000000"

record bootmodule =
  bm_physstart :: addr
  bm_size :: u32
  bm_entry :: addr
  bm_next :: addr

record bootinfo =
  lowMemTop :: addr
  totalMem :: u32
  pagedir :: addr
  numpagetab :: u32
  modules :: addr

text \<open>The loop over the boot modules; \<open>None\<close> when their list has no end.\<close>

partial_function (option) mark_modules :: "(addr \<Rightarrow> bootmodule) \<Rightarrow> addr \<Rightarrow> CKMEM \<Rightarrow> CKMEM option" where
  "mark_modules bm nextmod m =
     (if LINEAR 0 < nextmod then
        (let loc = LINEAR (bm_physstart (bm nextmod)) AND NOT 0xfff;
             sz = (if bm_size (bm nextmod) AND 0xfff \<noteq> 0
                   then (bm_size (bm nextmod) AND NOT 0xfff) + 0x1000 else bm_size (bm nextmod)) in
         case CKmemAllocRegion loc sz m of
           None \<Rightarrow> None
         | Some (r, m') \<Rightarrow> mark_modules bm (LINEAR (bm_next (bm nextmod))) m')
      else Some m)"

text \<open>\<open>start\<close> and \<open>fin\<close> are the linker's symbols around the kernel.\<close>

definition CKpageMarkHardwareDependent ::
  "bootinfo \<Rightarrow> (addr \<Rightarrow> bootmodule) \<Rightarrow> addr \<Rightarrow> addr \<Rightarrow> CKMEM \<Rightarrow> CKMEM option" where
  "CKpageMarkHardwareDependent sysinf bm start fin m =
     do {
       m1 \<leftarrow> CKmemFree (LINEAR (lowMemTop sysinf)) (start - LINEAR (lowMemTop sysinf)) m;
       m2 \<leftarrow> CKmemFree fin (LINEAR (totalMem sysinf) - fin) m1;
       (r, m3) \<leftarrow> CKmemAllocRegion (LINEAR 0xa0000) 0x60000 m2;
       mark_modules bm (LINEAR (modules sysinf)) m3
     }"

text \<open>Everything of the descriptor is set but \<open>DisallowFreeChunk\<close>.\<close>

definition empty_freelist :: "unit KLfreeListDescriptor \<Rightarrow> unit KLfreeListDescriptor" where
  "empty_freelist D = D\<lparr>FirstFreeEntry := NIL, FirstFreeSizeEntry := replicate 8 NIL,
     FreeMemory := 0, AllocChunk := None, PrepareFreeChunk := None, FreeChunk := None\<rparr>"

definition CKinitMem ::
  "bootinfo \<Rightarrow> (addr \<Rightarrow> bootmodule) \<Rightarrow> addr \<Rightarrow> addr \<Rightarrow> CKMEM \<Rightarrow> CKMEM option" where
  "CKinitMem sysinf bm start fin m =
     CKpageMarkHardwareDependent sysinf bm start fin
       (m\<lparr>CKFreeList := empty_freelist (CKFreeList m)\<rparr>)"

section \<open>The allocator interface\<close>

text \<open>
  What the clients of the allocator rely on: a call returns, a block it hands out was
  available and is not any more, a request it refuses changes nothing, and a block handed
  back is available. \<open>extent n\<close> is what a request of \<open>n\<close> bytes takes.
\<close>

locale allocator =
  fixes mem_alloc :: "u32 \<Rightarrow> 'm \<Rightarrow> (addr \<times> 'm) option"
    and mem_free :: "addr \<Rightarrow> u32 \<Rightarrow> 'm \<Rightarrow> 'm option"
    and mem_ok :: "'m \<Rightarrow> bool"
    and avail :: "'m \<Rightarrow> nat set"
    and extent :: "u32 \<Rightarrow> u32"
    and sound :: "u32 \<Rightarrow> bool"
  assumes alloc_returns: "mem_ok m \<Longrightarrow> sound n \<Longrightarrow> \<exists>r m'. mem_alloc n m = Some (r, m') \<and> mem_ok m'"
    and alloc_block: "mem_ok m \<Longrightarrow> sound n \<Longrightarrow> mem_alloc n m = Some (r, m') \<Longrightarrow> r \<noteq> NIL \<Longrightarrow>
      bytes r (extent n) \<subseteq> avail m \<and> avail m' = avail m - bytes r (extent n)
      \<and> unat r + unat (extent n) \<le> 2 ^ 32"
    and alloc_fail: "mem_ok m \<Longrightarrow> sound n \<Longrightarrow> mem_alloc n m = Some (NIL, m') \<Longrightarrow> m' = m"
    and free_block: "mem_ok m \<Longrightarrow> sound n \<Longrightarrow> r \<noteq> NIL \<Longrightarrow> unat r + unat (extent n) \<le> 2 ^ 32 \<Longrightarrow>
      bytes r (extent n) \<inter> avail m = {} \<Longrightarrow>
      \<exists>m'. mem_free r n m = Some m' \<and> mem_ok m' \<and> avail m' = avail m \<union> bytes r (extent n)"
begin

lemma alloc_ok: "mem_ok m \<Longrightarrow> sound n \<Longrightarrow> mem_alloc n m = Some (r, m') \<Longrightarrow> mem_ok m'"
  using alloc_returns[of m n] by auto

text \<open>Handing a block back undoes the request.\<close>

lemma alloc_free:
  assumes m: "mem_ok m" "sound n" and a: "mem_alloc n m = Some (r, m')" "r \<noteq> NIL"
  shows "\<exists>m''. mem_free r n m' = Some m'' \<and> mem_ok m'' \<and> avail m'' = avail m"
proof -
  note b = alloc_block[OF m a]
  then obtain m'' where "mem_free r n m' = Some m''" "mem_ok m''"
      "avail m'' = avail m' \<union> bytes r (extent n)"
    using free_block[OF alloc_ok[OF m a(1)] m(2) a(2)] by blast
  then show ?thesis using b by blast
qed

text \<open>Blocks handed out one after the other are apart.\<close>

lemma alloc_apart:
  assumes m: "mem_ok m" "sound n" "sound k" and a: "mem_alloc n m = Some (r, m')" "r \<noteq> NIL"
    and b: "mem_alloc k m' = Some (q, m'')" "q \<noteq> NIL"
  shows "bytes r (extent n) \<inter> bytes q (extent k) = {}"
  using alloc_block[OF m(1,2) a] alloc_block[OF alloc_ok[OF m(1,2) a(1)] m(3) b] by blast

end

definition CKmem_ok :: "CKMEM \<Rightarrow> bool" where
  "CKmem_ok m \<longleftrightarrow> CKFreeListLock m = 0 \<and> (\<exists>xs. fl_inv (CKFreeList m) xs)
     \<and> AllocChunk (CKFreeList m) = None \<and> PrepareFreeChunk (CKFreeList m) = None"

definition CKmem_avail :: "CKMEM \<Rightarrow> nat set" where
  "CKmem_avail m = {b. \<exists>xs. main_list (CKFreeList m) xs \<and> b \<in> free_bytes (CKFreeList m) xs}"

definition CKmem_sound :: "u32 \<Rightarrow> bool" where
  "CKmem_sound n \<longleftrightarrow> unat n \<le> 2 ^ 32 - 4"

lemma CKmem_avail: "fl_inv (CKFreeList m) xs \<Longrightarrow> CKmem_avail m = free_bytes (CKFreeList m) xs"
  by (auto simp: CKmem_avail_def fl_inv_def fl_str_def main_list_def dest: dseg_unique)

lemma AdjustSize_pos: "CKmem_sound n \<Longrightarrow> 0 < AdjustSize n"
  using AdjustSize_bounds(1)[of n] by (auto simp: CKmem_sound_def word_less_nat_alt)

lemma CKmemAlloc_spec:
  assumes ok: "CKmem_ok m" and n: "CKmem_sound n"
  shows "\<exists>r m'. CKmemAlloc n m = Some (r, m') \<and> CKmem_ok m'
    \<and> (if r = NIL then m' = m
       else bytes r (AdjustSize n) \<subseteq> CKmem_avail m
         \<and> CKmem_avail m' = CKmem_avail m - bytes r (AdjustSize n)
         \<and> unat r + unat (AdjustSize n) \<le> 2 ^ 32
         \<and> FreeMemory (CKFreeList m') = FreeMemory (CKFreeList m) - AdjustSize n)"
proof -
  obtain xs where i: "fl_inv (CKFreeList m) xs" "AllocChunk (CKFreeList m) = None"
      "PrepareFreeChunk (CKFreeList m) = None" "CKFreeListLock m = 0"
    using ok by (auto simp: CKmem_ok_def)
  obtain r D where a: "KLfreeListMemAlloc n (CKFreeList m) = Some (r, D)"
      "if r = NIL then D = CKFreeList m \<and> no_block (CKFreeList m) (set xs) (AdjustSize n)
       else allocated (CKFreeList m) xs r (AdjustSize n) D"
    using KLfreeListMemAlloc_ok[OF i(1,2) refl AdjustSize_pos[OF n]] by blast
  let ?m = "m\<lparr>CKFreeListLock := 0, CKFreeList := D\<rparr>"
  have c: "CKmemAlloc n m = Some (r, ?m)" using a i(4) by (simp add: CKmemAlloc_def)
  show ?thesis
  proof (cases "r = NIL")
    case True
    then have "?m = m" using a i(4) by simp
    then show ?thesis using c ok True by simp
  next
    case False
    then obtain xs' where x: "fl_inv D xs'" "bytes r (AdjustSize n) \<subseteq> free_bytes (CKFreeList m) xs"
        "free_bytes D xs' = free_bytes (CKFreeList m) xs - bytes r (AdjustSize n)"
        "unat r + unat (AdjustSize n) \<le> 2 ^ 32" "AllocChunk D = None" "PrepareFreeChunk D = None"
        "FreeMemory D = FreeMemory (CKFreeList m) - AdjustSize n"
      using a i(2,3) by (auto simp: allocated_def)
    have "CKmem_ok ?m" using x by (auto simp: CKmem_ok_def)
    moreover have "CKmem_avail ?m = free_bytes D xs'" using CKmem_avail[of ?m xs'] x(1) by simp
    ultimately show ?thesis using c x CKmem_avail[OF i(1)] False by simp
  qed
qed

lemma CKmemFree_spec:
  assumes ok: "CKmem_ok m" and n: "CKmem_sound n" and r: "r \<noteq> NIL"
    and e: "unat r + unat (AdjustSize n) \<le> 2 ^ 32" and dj: "bytes r (AdjustSize n) \<inter> CKmem_avail m = {}"
  shows "\<exists>m'. CKmemFree r n m = Some m' \<and> CKmem_ok m'
    \<and> CKmem_avail m' = CKmem_avail m \<union> bytes r (AdjustSize n)
    \<and> FreeMemory (CKFreeList m') = FreeMemory (CKFreeList m) + AdjustSize n"
proof -
  obtain xs where i: "fl_inv (CKFreeList m) xs" "AllocChunk (CKFreeList m) = None"
      "PrepareFreeChunk (CKFreeList m) = None" "CKFreeListLock m = 0"
    using ok by (auto simp: CKmem_ok_def)
  have b: "24 \<le> unat (AdjustSize n)" using n AdjustSize_bounds(1) by (simp add: CKmem_sound_def)
  obtain D xs' where d: "KLfreeListMemFree r n (CKFreeList m) = Some D" "fl_inv D xs'"
      "free_bytes D xs' = free_bytes (CKFreeList m) xs \<union> bytes r (AdjustSize n)"
      "AllocChunk D = None" "PrepareFreeChunk D = None"
      "FreeMemory D = FreeMemory (CKFreeList m) + AdjustSize n"
    using KLfreeListMemFree_ok[OF i(1,3) refl r b e] dj i(2,3) unfolding CKmem_avail[OF i(1)] by auto
  let ?m = "m\<lparr>CKFreeListLock := 0, CKFreeList := D\<rparr>"
  have "CKmemFree r n m = Some ?m" using d i(4) by (simp add: CKmemFree_def)
  moreover have "CKmem_ok ?m" using d by (auto simp: CKmem_ok_def)
  moreover have "CKmem_avail ?m = free_bytes D xs'" using CKmem_avail[of ?m xs'] d(2) by simp
  ultimately show ?thesis using d CKmem_avail[OF i(1)] by simp
qed

interpretation ck: allocator CKmemAlloc CKmemFree CKmem_ok CKmem_avail AdjustSize CKmem_sound
proof unfold_locales
  fix m n r m'
  assume m: "CKmem_ok m" "CKmem_sound n"
  show "\<exists>r m'. CKmemAlloc n m = Some (r, m') \<and> CKmem_ok m'"
    using CKmemAlloc_spec[OF m] by blast
  show "bytes r (AdjustSize n) \<subseteq> CKmem_avail m \<and> CKmem_avail m' = CKmem_avail m - bytes r (AdjustSize n)
      \<and> unat r + unat (AdjustSize n) \<le> 2 ^ 32"
    if "CKmemAlloc n m = Some (r, m')" "r \<noteq> NIL"
    using CKmemAlloc_spec[OF m] that by auto
  show "m' = m" if "CKmemAlloc n m = Some (NIL, m')"
    using CKmemAlloc_spec[OF m] that by auto
  show "\<exists>m'. CKmemFree r n m = Some m' \<and> CKmem_ok m' \<and> CKmem_avail m' = CKmem_avail m \<union> bytes r (AdjustSize n)"
    if "r \<noteq> NIL" "unat r + unat (AdjustSize n) \<le> 2 ^ 32" "bytes r (AdjustSize n) \<inter> CKmem_avail m = {}"
    using CKmemFree_spec[OF m that] by blast
qed

section \<open>The pages\<close>

lemma CKmemFreePages_None: "CKmemFreePages data n m = None"
  by (cases "CKFreeListLock m = 0")
     (simp_all add: CKmemFreePages_def CKmemFree_def CKenterCritical_held)

section \<open>The memory's properties\<close>

definition one_block_mem :: CKMEM where
  "one_block_mem = \<lparr>CKFreeListLock = 0, CKFreeList = one_block 0x1000 0x1000\<rparr>"

lemma one_block_mem_ok: "CKmem_ok one_block_mem" "CKmem_sound 100"
proof -
  have "fl_inv (one_block 0x1000 0x1000) [0x1000]" by (rule one_block_inv) simp_all
  then show "CKmem_ok one_block_mem" by (auto simp: CKmem_ok_def one_block_mem_def)
qed (simp add: CKmem_sound_def)

lemma one_block_avail: "CKmem_avail one_block_mem = {0x1000..<0x2000}"
proof -
  have "fl_inv (one_block 0x1000 0x1000) [0x1000]" by (rule one_block_inv) simp_all
  then have "fl_inv (CKFreeList one_block_mem) [0x1000]" by (simp add: one_block_mem_def)
  from CKmem_avail[OF this] show ?thesis by (simp add: one_block_mem_def bytes_def)
qed

text \<open>C14: A block got from the kernel's allocator and given back with the same size leaves
  the same memory available as before; neither call hangs on the lock (memory.c,
  \<open>CKmemAlloc\<close>, \<open>CKmemFree\<close>).\<close>

theorem mem_alloc_free:
  assumes "CKmem_ok m" and "CKmem_sound n"
  shows "\<exists>r m'. CKmemAlloc n m = Some (r, m') \<and> CKmem_ok m'
    \<and> (r = NIL \<and> m' = m
       \<or> (\<exists>m''. CKmemFree r n m' = Some m'' \<and> CKmem_ok m'' \<and> CKmem_avail m'' = CKmem_avail m))"
proof -
  obtain r m' where a: "CKmemAlloc n m = Some (r, m')" "CKmem_ok m'"
    using ck.alloc_returns[OF assms] by blast
  then show ?thesis using ck.alloc_free[OF assms a(1)] ck.alloc_fail[OF assms] by (cases "r = NIL") auto
qed

theorem mem_alloc_free_witness:
  "\<exists>r m'. CKmemAlloc 100 one_block_mem = Some (r, m') \<and> CKmem_ok m'"
  using mem_alloc_free[OF one_block_mem_ok] by auto

text \<open>C24: Freeing pages never returns: \<open>CKmemFreePages\<close> takes the polled lock and calls
  \<open>CKmemFree\<close>, which takes it again (memory.c).\<close>

theorem mem_free_pages_hangs:
  "CKmemFreePages data nopages m = None"
  by (rule CKmemFreePages_None)

lemma nth_upd: "n < length xs \<Longrightarrow> xs[n := a] ! m = (if m = n then a else xs ! m)"
  by (simp add: nth_list_update)

lemma upt_8: "[0..<8] = [0, 1, 2, 3, 4, 5, 6, 7 :: nat]"
  by (simp add: upt_rec)

lemma two_blocks:
  "\<exists>m' m''. CKmemAlloc 100 one_block_mem = Some (0x1000, m') \<and> CKmemAlloc 40 m' = Some (0x1064, m'')"
  by (simp add: CKmemAlloc_def one_block_mem_def one_block_def no_entry_def KLfreeListMemAlloc_def AdjustSize_def
    alloc_pass_def KLgetFastLookupToUse_def alloc_scan.simps upt_8 take_best_def Let_def nth_upd
    KLfreeListRemove_def KLfreeListSizeRemove_def KLfreeListInsert_def KLfreeListSizeInsert_def)

text \<open>Two blocks handed out by the kernel's allocator one after the other do not
  overlap (memory.c, \<open>CKmemAlloc\<close>).\<close>

theorem mem_blocks_apart:
  assumes "CKmem_ok m" and "CKmem_sound n" and "CKmem_sound k"
    and "CKmemAlloc n m = Some (r, m')" and "r \<noteq> NIL"
    and "CKmemAlloc k m' = Some (q, m'')" and "q \<noteq> NIL"
  shows "bytes r (AdjustSize n) \<inter> bytes q (AdjustSize k) = {}"
  using ck.alloc_apart[OF assms] .

theorem mem_blocks_apart_witness:
  "bytes 0x1000 (AdjustSize 100) \<inter> bytes 0x1064 (AdjustSize 40) = {}"
proof -
  obtain m' m'' where "CKmemAlloc 100 one_block_mem = Some (0x1000, m')" "CKmemAlloc 40 m' = Some (0x1064, m'')"
    using two_blocks by blast
  then show ?thesis
    using mem_blocks_apart[OF one_block_mem_ok, of 40 "0x1000" m' "0x1064" m''] by (simp add: CKmem_sound_def)
qed

end
