(* ===== verification/CK_Sched.thy ===== *)
theory CK_Sched
  imports CK_Heap CK_Graph CK_Memory
begin

text \<open>
  The scheduler: \<^verbatim>\<open>CK/sched.c\<close>, the timer and context switch primitives of
  \<^verbatim>\<open>CK/include/architecture/I80X86/tasks.h\<close> and the critical sections of
  \<^verbatim>\<open>hwkernel.h\<close>. The state holds the kernel's globals: the stores of the thread objects
  and of their loader structures, the three heaps, the current thread and the clock.
  \<open>None\<close> is a call that does not return or writes outside a heap array.
\<close>

section \<open>State\<close>

text \<open>The loader's thread object (objects.h).\<close>

record ThreadObject =
  u_self :: addr
  u_addressSpace :: addr
  u_parentKernel :: addr
  u_quantum :: TIME
  u_defer :: TIME
  u_time :: TIME
  u_realtime :: TIME
  u_interruptable :: u32
  userState :: TSS

text \<open>
  \<open>irq_on\<close> is the processor's interrupt flag, \<open>timer_latch\<close> what channel 1 of the timer
  reads, \<open>timer_ports\<close> the bytes written to channel 0, latest first, \<open>tss_base\<close> the thread
  the task descriptor points at, and \<open>soft_irq\<close> says that a software interrupt into the
  timer service was raised.
\<close>

record SCHED =
  ckmem :: CKMEM
  headers :: VERTICES
  odg :: ODG
  threads :: EVENTS
  uthreads :: "addr \<Rightarrow> ThreadObject"
  heaps :: "HeapType \<Rightarrow> HeapSelector"
  currtask :: addr
  idleLoop :: addr
  zombietask :: addr
  lasttime :: TIME
  realtime :: TIME
  fudge :: TIME
  doingRealtime :: u8
  schedLock :: CKMutex
  irq_on :: bool
  timer_latch :: u32
  timer_ports :: "u8 list"
  tss_base :: addr
  soft_irq :: bool

abbreviation set_thread :: "addr \<Rightarrow> (CKThreadObject \<Rightarrow> CKThreadObject) \<Rightarrow> 'a SCHED_scheme \<Rightarrow> 'a SCHED_scheme" where
  "set_thread a f s \<equiv> s\<lparr>threads := (threads s)(a := f (threads s a))\<rparr>"

abbreviation set_uthread :: "addr \<Rightarrow> (ThreadObject \<Rightarrow> ThreadObject) \<Rightarrow> 'a SCHED_scheme \<Rightarrow> 'a SCHED_scheme" where
  "set_uthread a f s \<equiv> s\<lparr>uthreads := (uthreads s)(a := f (uthreads s a))\<rparr>"

section \<open>Hardware primitives (hwkernel.h, realtime.h, tasks.h)\<close>

definition CKlock :: "'a SCHED_scheme \<Rightarrow> 'a SCHED_scheme" where
  "CKlock s = s\<lparr>irq_on := False\<rparr>"

definition CKunlock :: "'a SCHED_scheme \<Rightarrow> 'a SCHED_scheme" where
  "CKunlock s = s\<lparr>irq_on := True\<rparr>"

definition quantumDone :: "'a SCHED_scheme \<Rightarrow> 'a SCHED_scheme" where
  "quantumDone s = s\<lparr>soft_irq := True\<rparr>"

definition CKsetTimerPeriod :: "TIME \<Rightarrow> 'a SCHED_scheme \<Rightarrow> 'a SCHED_scheme" where
  "CKsetTimerPeriod q s =
     (let quantum = (if 0xffff < q then 0xffff else q)
      in s\<lparr>timer_ports := ucast (drop_bit 8 quantum) # ucast (quantum AND 0xff) # timer_ports s\<rparr>)"

text \<open>The two bytes read from the port; the counter has 16 bits.\<close>

definition CKgetTimerValue :: "'a SCHED_scheme \<Rightarrow> TIME" where
  "CKgetTimerValue s = timer_latch s AND 0xffff"

definition CKupdateRealtime :: "'a SCHED_scheme \<Rightarrow> 'a SCHED_scheme" where
  "CKupdateRealtime s =
     (let t_value = CKgetTimerValue s;
          t_value = - (t_value + realtime s) AND 0xffff
      in s\<lparr>realtime := realtime s + t_value\<rparr>)"

definition CKgetRealtime :: "'a SCHED_scheme \<Rightarrow> TIME" where
  "CKgetRealtime s =
     (let t_value = CKgetTimerValue s; t_value = - (t_value + realtime s) AND 0xffff
      in realtime s + t_value)"

text \<open>The switch turns interrupts off and releases the scheduler.\<close>

definition CKcontextSwitch :: "addr \<Rightarrow> 'a SCHED_scheme \<Rightarrow> 'a SCHED_scheme" where
  "CKcontextSwitch event s = s\<lparr>tss_base := event, irq_on := False, schedLock := 0\<rparr>"

section \<open>The heaps in the state\<close>

text \<open>Calling a heap operation on one of the heaps.\<close>

definition on_heap ::
  "HeapType \<Rightarrow> (HeapSelector \<times> EVENTS \<Rightarrow> (HeapSelector \<times> EVENTS) option)
     \<Rightarrow> 'a SCHED_scheme \<Rightarrow> 'a SCHED_scheme option" where
  "on_heap h f s = map_option (\<lambda>(H, ev). s\<lparr>heaps := (heaps s)(h := H), threads := ev\<rparr>)
     (f (heaps s h, threads s))"

abbreviation heap_insert :: "HeapType \<Rightarrow> addr \<Rightarrow> 'a SCHED_scheme \<Rightarrow> 'a SCHED_scheme option" where
  "heap_insert h a \<equiv> on_heap h (CKsiftup a)"

abbreviation heap_remove :: "HeapType \<Rightarrow> addr \<Rightarrow> 'a SCHED_scheme \<Rightarrow> 'a SCHED_scheme option" where
  "heap_remove h a s \<equiv> on_heap h (CKremoveEvent (eheap (threads s a))) s"

abbreviation heap_siftdown :: "HeapType \<Rightarrow> 'a SCHED_scheme \<Rightarrow> 'a SCHED_scheme option" where
  "heap_siftdown h \<equiv> on_heap h (\<lambda>x. Some (CKsiftdown x))"

abbreviation heap_empty :: "HeapType \<Rightarrow> 'a SCHED_scheme \<Rightarrow> bool" where
  "heap_empty h s \<equiv> CKisHeapEmpty (heaps s h)"

abbreviation next_event :: "HeapType \<Rightarrow> 'a SCHED_scheme \<Rightarrow> addr" where
  "next_event h s \<equiv> CKgetNextEvent (heaps s h)"

abbreviation next_time :: "HeapType \<Rightarrow> 'a SCHED_scheme \<Rightarrow> TIME" where
  "next_time h s \<equiv> CKgetNextTime (heaps s h) (threads s)"

abbreviation next_quantum :: "HeapType \<Rightarrow> 'a SCHED_scheme \<Rightarrow> TIME" where
  "next_quantum h s \<equiv> CKgetNextQuantum (heaps s h) (threads s)"

section \<open>The scheduler itself (sched.c)\<close>

definition CKflushPrevTask :: "'a SCHED_scheme \<Rightarrow> 'a SCHED_scheme option" where
  "CKflushPrevTask s0 =
     (let s = CKlock s0; c = currtask s in
      do {
        s' \<leftarrow> (case ts (threads s c) of
          ts_Running \<Rightarrow>
            if \<not> CLESS (lasttime s) (etime (threads s c)) then
              heap_siftdown ht_timesharing
                (set_thread c (\<lambda>t. t\<lparr>etime := etime t + defer_time t\<rparr>) s)
            else
              do {
                s1 \<leftarrow> heap_remove ht_timesharing c (set_thread c (\<lambda>t. t\<lparr>ts := ts_RealTime\<rparr>) s);
                heap_insert ht_realtime c s1
              }
        | ts_RealTime \<Rightarrow>
            (let s = s\<lparr>doingRealtime := 0\<rparr> in
             if CLESS (lasttime s) (etime (threads s c)) then heap_siftdown ht_realtime s
             else
               do {
                 s1 \<leftarrow> heap_remove ht_realtime c
                   (set_thread c (\<lambda>t. t\<lparr>ts := ts_Running, etime := next_time ht_timesharing s\<rparr>) s);
                 heap_insert ht_timesharing c s1
               })
        | ts_Idle \<Rightarrow>
            if c \<noteq> idleLoop s then
              heap_siftdown ht_idle (set_thread c (\<lambda>t. t\<lparr>etime := etime t + defer_time t\<rparr>) s)
            else Some s
        | ts_Blocked \<Rightarrow> Some s);
        Some (CKunlock s')
      })"

text \<open>The choice of the next task, after the clock has been updated: the task and its period.\<close>

definition idle_choice :: "'a SCHED_scheme \<Rightarrow> addr \<times> TIME" where
  "idle_choice s =
     (let period =
        (if \<not> heap_empty ht_realtime s then
           if heap_empty ht_idle s \<and>
                CLSE (next_time ht_realtime s - fudge s) (quantum (threads s (idleLoop s)) + realtime s)
              \<or> \<not> heap_empty ht_idle s \<and>
                CLSE (next_time ht_realtime s - fudge s) (next_quantum ht_idle s + realtime s)
           then next_time ht_realtime s - realtime s - fudge s
           else if \<not> heap_empty ht_idle s then next_quantum ht_idle s
           else quantum (threads s (idleLoop s))
         else if \<not> heap_empty ht_idle s then next_quantum ht_idle s
         else quantum (threads s (idleLoop s)))
      in (if \<not> heap_empty ht_idle s then next_event ht_idle s else idleLoop s, period))"

definition CKgetNextTask :: "'a SCHED_scheme \<Rightarrow> addr \<times> TIME \<times> 'a SCHED_scheme" where
  "CKgetNextTask s0 =
     (let s = CKupdateRealtime s0;
          timesharing = (next_event ht_timesharing s, next_quantum ht_timesharing s, s);
          idle = (fst (idle_choice s), snd (idle_choice s), s) in
      if \<not> heap_empty ht_realtime s then
        if CLSE (next_time ht_realtime s - fudge s) (realtime s) then
          (next_event ht_realtime s, next_quantum ht_realtime s,
           s\<lparr>doingRealtime := doingRealtime s + 1\<rparr>)
        else if heap_empty ht_timesharing s then idle
        else if CLSE (next_time ht_realtime s - fudge s) (next_quantum ht_timesharing s + realtime s) then
          (next_event ht_timesharing s, next_time ht_realtime s - realtime s - fudge s, s)
        else timesharing
      else if heap_empty ht_timesharing s then idle
      else timesharing)"

text \<open>
  \<open>CKschedule\<close> up to the context switch, and from the point where the thread that called it
  gets the processor back. The local \<open>usertask\<close> is on the stack of that thread.
\<close>

definition CKschedule :: "'a SCHED_scheme \<Rightarrow> 'a SCHED_scheme option" where
  "CKschedule s =
     (let usertask = objectData (headers s (currtask s));
          s1 = set_thread (currtask s) (\<lambda>t. t\<lparr>etime := u_time (uthreads s usertask)\<rparr>) s in
      do {
        s2 \<leftarrow> CKflushPrevTask s1;
        let (next, period, s3) = CKgetNextTask s2;
        let s4 = s3\<lparr>currtask := next\<rparr>;
        let s5 = s4\<lparr>lasttime := etime (threads s4 next)\<rparr>;
        Some (CKcontextSwitch next (CKsetTimerPeriod period s5))
      })"

definition SFBUSY :: u32 where
  "SFBUSY = push_bit 31 1"

definition CKschedule_resume :: "addr \<Rightarrow> 'a SCHED_scheme \<Rightarrow> bool \<times> 'a SCHED_scheme" where
  "CKschedule_resume usertask s0 =
     (let c = currtask s0;
          s = set_uthread usertask (\<lambda>u. u\<lparr>u_time := etime (threads s0 c), u_realtime := realtime s0\<rparr>) s0 in
      case signals (threads s c) of
        [] \<Rightarrow> (False, s)
      | sg # sgs \<Rightarrow>
          if sig_signal sg AND SFBUSY \<noteq> 0 \<or> u_interruptable (uthreads s usertask) \<noteq> 0 then (False, s)
          else (True, set_thread c (\<lambda>t. t\<lparr>signals := sg\<lparr>sig_signal := sig_signal sg OR SFBUSY\<rparr> # sgs\<rparr>) s))"

section \<open>Blocking, unblocking, idling (sched.c)\<close>

definition CKblockThread :: "addr \<Rightarrow> 'a SCHED_scheme \<Rightarrow> 'a SCHED_scheme option" where
  "CKblockThread thread s =
     (let out = (\<lambda>h. do {
        s1 \<leftarrow> heap_remove h thread (CKlock s);
        Some (CKunlock (set_thread thread (\<lambda>t. t\<lparr>ts := ts_Blocked\<rparr>) s1))
      }) in
      case ts (threads s thread) of
        ts_Running \<Rightarrow> out ht_timesharing
      | ts_RealTime \<Rightarrow> out ht_realtime
      | ts_Idle \<Rightarrow> out ht_idle
      | ts_Blocked \<Rightarrow> Some s)"

definition CKunblockThread :: "addr \<Rightarrow> 'a SCHED_scheme \<Rightarrow> 'a SCHED_scheme option" where
  "CKunblockThread thread s =
     (case ts (threads s thread) of
        ts_Blocked \<Rightarrow>
          (let t0 = (if heap_empty ht_timesharing s then 0 else next_time ht_timesharing s);
               s1 = set_thread thread (\<lambda>t. t\<lparr>etime := t0, ts := ts_Running\<rparr>) s in
           do {
             s2 \<leftarrow> heap_insert ht_timesharing thread (CKlock s1);
             Some (CKunlock s2)
           })
      | _ \<Rightarrow> Some s)"

definition CKidleThread :: "addr \<Rightarrow> 'a SCHED_scheme \<Rightarrow> 'a SCHED_scheme option" where
  "CKidleThread thread s =
     (case ts (threads s thread) of
        ts_Blocked \<Rightarrow>
          (let t0 = (if heap_empty ht_idle s then 0 else next_time ht_idle s);
               s1 = set_thread thread (\<lambda>t. t\<lparr>etime := t0, ts := ts_Idle\<rparr>) s in
           do {
             s2 \<leftarrow> heap_insert ht_idle thread (CKlock s1);
             Some (CKunlock s2)
           })
      | _ \<Rightarrow> Some s)"

section \<open>System calls on threads (sched.c)\<close>

definition SIGTHREAD :: u32 where
  "SIGTHREAD = 0x416c4f54"

definition CKvalidThread :: "addr \<Rightarrow> 'a SCHED_scheme \<Rightarrow> bool" where
  "CKvalidThread vertex s \<longleftrightarrow> objectSignature (headers s vertex) = SIGTHREAD"

text \<open>The heap a thread is in, by its state.\<close>

primrec state_heap :: "ThreadState \<Rightarrow> HeapType option" where
  "state_heap ts_Running = Some ht_timesharing"
| "state_heap ts_RealTime = Some ht_realtime"
| "state_heap ts_Idle = Some ht_idle"
| "state_heap ts_Blocked = None"

text \<open>The switches of the code that take a thread out of the heap it is in, if any.\<close>

definition unheap :: "addr \<Rightarrow> 'a SCHED_scheme \<Rightarrow> 'a SCHED_scheme option" where
  "unheap thread s =
     (case state_heap (ts (threads s thread)) of
        Some h \<Rightarrow> heap_remove h thread s
      | None \<Rightarrow> Some s)"

text \<open>The labels \<open>ts_siftup\<close> and \<open>idle_siftup\<close>; the user structure is set for a set state.\<close>

definition enheap :: "HeapType \<Rightarrow> ThreadState \<Rightarrow> addr option \<Rightarrow> addr \<Rightarrow> 'a SCHED_scheme \<Rightarrow> 'a SCHED_scheme option" where
  "enheap h st uthread thread s =
     (let t0 = (if heap_empty h s then 0 else next_time h s);
          s1 = set_thread thread (\<lambda>t. t\<lparr>etime := t0, ts := st\<rparr>) s;
          s2 = (case uthread of None \<Rightarrow> s1 | Some u \<Rightarrow> set_uthread u (\<lambda>x. x\<lparr>u_time := t0\<rparr>) s1)
      in heap_insert h thread s2)"

definition CKthreadTunnel :: "addr \<Rightarrow> TunnelType option \<Rightarrow> 'a SCHED_scheme \<Rightarrow> (ckresult \<times> 'a SCHED_scheme) option" where
  "CKthreadTunnel object type s =
     (if \<not> CKvalidThread object s then Some (Some ENOVALIDTHREAD, s)
      else case type of
        Some tt_Conservative \<Rightarrow>
          Some (CK_OK, if object = currtask s then CKcontextSwitch object s else quantumDone s)
      | Some tt_Swapping \<Rightarrow>
          do {
            s1 \<leftarrow> unheap (currtask s) (CKlock s);
            let s2 = set_thread (currtask s1) (\<lambda>t. t\<lparr>ts := ts_Blocked\<rparr>) s1;
            s3 \<leftarrow> (if ts (threads s2 object) = ts_Running then Some s2
                  else do { s' \<leftarrow> unheap object s2; enheap ht_timesharing ts_Running None object s' });
            s4 \<leftarrow> CKschedule (CKunlock s3);
            Some (CK_OK, s4)
          }
      | Some tt_Unblocking \<Rightarrow>
          do {
            s1 \<leftarrow> CKunblockThread object s;
            s2 \<leftarrow> CKschedule s1;
            Some (CK_OK, s2)
          }
      | None \<Rightarrow> Some (Some EINVALIDPARAMS, s))"

text \<open>A user may ask for any state by number; \<open>ts_RealTime\<close> is not one to be set.\<close>

definition CKsetThreadState :: "addr \<Rightarrow> ThreadState option \<Rightarrow> 'a SCHED_scheme \<Rightarrow> (ckresult \<times> 'a SCHED_scheme) option" where
  "CKsetThreadState object state s0 =
     (let uthread = objectData (headers s0 object) in
      if \<not> CKvalidThread object s0 then Some (Some ENOVALIDTHREAD, s0)
      else
        let s = CKlock s0 in
        do {
          (err, s') \<leftarrow> (case state of
            Some ts_Running \<Rightarrow>
              (if ts (threads s object) = ts_Running then Some (CK_OK, s)
               else do {
                 s1 \<leftarrow> unheap object s;
                 s2 \<leftarrow> enheap ht_timesharing ts_Running (Some uthread) object s1;
                 Some (CK_OK, s2)
               })
          | Some ts_Blocked \<Rightarrow>
              (if ts (threads s object) = ts_Blocked then Some (CK_OK, s)
               else do {
                 s1 \<leftarrow> unheap object s;
                 Some (CK_OK, set_thread object (\<lambda>t. t\<lparr>ts := ts_Blocked\<rparr>) s1)
               })
          | Some ts_Idle \<Rightarrow>
              (if ts (threads s object) = ts_Idle then Some (CK_OK, s)
               else do {
                 s1 \<leftarrow> unheap object s;
                 s2 \<leftarrow> enheap ht_idle ts_Idle (Some uthread) object s1;
                 Some (CK_OK, s2)
               })
          | _ \<Rightarrow> Some (Some EINVALIDPARAMS, s));
          Some (err, CKunlock s')
        })"

end
