(* ===== verification/CK_SchedInv.thy ===== *)
theory CK_SchedInv
  imports CK_Sched
begin

text \<open>
  The scheduler's invariant: every thread is in the heap its state names, once, and in no
  other, and the backpointers agree. \<open>sched_at\<close> says it for any assignment of heaps to
  threads, so that it holds also between the two halves of a move, when a thread's state
  has been changed and its heap has not.
\<close>

section \<open>The invariant\<close>

definition heaps_ok :: "(HeapType \<Rightarrow> HeapSelector) \<Rightarrow> EVENTS \<Rightarrow> bool" where
  "heaps_ok hs ev \<longleftrightarrow> (\<forall>h. heap_wf (hs h) ev)
     \<and> (\<forall>h k. h \<noteq> k \<longrightarrow> set (events_of (hs h)) \<inter> set (events_of (hs k)) = {})"

definition sched_at :: "'a SCHED_scheme \<Rightarrow> addr set \<Rightarrow> (addr \<Rightarrow> HeapType option) \<Rightarrow> bool" where
  "sched_at s T loc \<longleftrightarrow> heaps_ok (heaps s) (threads s) \<and> finite T \<and> card T \<le> MAXEVENTS
     \<and> (\<forall>h. set (events_of (heaps s h)) = {a \<in> T. loc a = Some h})"

definition sched_wf :: "'a SCHED_scheme \<Rightarrow> addr set \<Rightarrow> bool" where
  "sched_wf s T \<longleftrightarrow> sched_at s T (\<lambda>a. state_heap (ts (threads s a)))"

lemma heaps_ok_family: "heaps_ok = eh.family"
  by (simp add: fun_eq_iff heaps_ok_def eh.family_def)

lemma sched_wfI:
  "sched_at s T loc \<Longrightarrow> (\<And>a. a \<in> T \<Longrightarrow> loc a = state_heap (ts (threads s a))) \<Longrightarrow> sched_wf s T"
  unfolding sched_wf_def sched_at_def by (auto simp: Collect_conj_eq)

text \<open>Changes that the invariant does not see.\<close>

definition only_heaps :: "'a SCHED_scheme \<Rightarrow> 'a SCHED_scheme \<Rightarrow> bool" where
  "only_heaps s s' \<longleftrightarrow> (\<exists>hs ev. s' = s\<lparr>heaps := hs, threads := ev\<rparr>)
     \<and> same_but_heap (threads s) (threads s')"

lemma only_heapsD:
  assumes "only_heaps s s'"
  shows "ckmem s' = ckmem s" "headers s' = headers s" "odg s' = odg s" "uthreads s' = uthreads s"
    "currtask s' = currtask s" "idleLoop s' = idleLoop s" "zombietask s' = zombietask s"
    "lasttime s' = lasttime s" "realtime s' = realtime s" "fudge s' = fudge s"
    "doingRealtime s' = doingRealtime s" "schedLock s' = schedLock s" "irq_on s' = irq_on s"
    "timer_latch s' = timer_latch s" "timer_ports s' = timer_ports s" "tss_base s' = tss_base s"
    "soft_irq s' = soft_irq s" "SCHED.more s' = SCHED.more s"
    "ts (threads s' a) = ts (threads s a)" "etime (threads s' a) = etime (threads s a)"
    "quantum (threads s' a) = quantum (threads s a)" "signals (threads s' a) = signals (threads s a)"
    "addressSpace (threads s' a) = addressSpace (threads s a)"
    "parentKernel (threads s' a) = parentKernel (threads s a)"
    "defer_time (threads s' a) = defer_time (threads s a)" "taskState (threads s' a) = taskState (threads s a)"
proof -
  obtain hs ev where s: "s' = s\<lparr>heaps := hs, threads := ev\<rparr>" using assms by (auto simp: only_heaps_def)
  show "ckmem s' = ckmem s" "headers s' = headers s" "odg s' = odg s" "uthreads s' = uthreads s"
    "currtask s' = currtask s" "idleLoop s' = idleLoop s" "zombietask s' = zombietask s"
    "lasttime s' = lasttime s" "realtime s' = realtime s" "fudge s' = fudge s"
    "doingRealtime s' = doingRealtime s" "schedLock s' = schedLock s" "irq_on s' = irq_on s"
    "timer_latch s' = timer_latch s" "timer_ports s' = timer_ports s" "tss_base s' = tss_base s"
    "soft_irq s' = soft_irq s" "SCHED.more s' = SCHED.more s"
    using s by simp_all
  show "ts (threads s' a) = ts (threads s a)" "etime (threads s' a) = etime (threads s a)"
    "quantum (threads s' a) = quantum (threads s a)" "signals (threads s' a) = signals (threads s a)"
    "addressSpace (threads s' a) = addressSpace (threads s a)"
    "parentKernel (threads s' a) = parentKernel (threads s a)"
    "defer_time (threads s' a) = defer_time (threads s a)" "taskState (threads s' a) = taskState (threads s a)"
    using same_but_heap_fields[of "threads s" "threads s'" a] assms by (simp_all add: only_heaps_def)
qed

lemma only_heaps_refl [simp]: "only_heaps s s"
  unfolding only_heaps_def by (intro conjI exI[of _ "heaps s"] exI[of _ "threads s"]) simp_all

lemma only_heaps_trans: "only_heaps a b \<Longrightarrow> only_heaps b c \<Longrightarrow> only_heaps a c"
proof -
  assume "only_heaps a b" "only_heaps b c"
  then obtain hs ev hs' ev' where b: "b = a\<lparr>heaps := hs, threads := ev\<rparr>"
      and c: "c = b\<lparr>heaps := hs', threads := ev'\<rparr>"
      and t: "same_but_heap (threads a) (threads b)" "same_but_heap (threads b) (threads c)"
    by (auto simp: only_heaps_def)
  have "c = a\<lparr>heaps := hs', threads := ev'\<rparr>" using b c by simp
  then show "only_heaps a c" unfolding only_heaps_def using same_but_heap_trans[OF t] by blast
qed

lemma sched_at_frame:
  assumes "sched_at s T loc" and "heaps s' = heaps s" and "\<And>a. eheap (threads s' a) = eheap (threads s a)"
  shows "sched_at s' T loc"
  using assms eh.family_frame[of "heaps s" "threads s" "threads s'"]
  by (simp add: sched_at_def heaps_ok_family)

section \<open>The heap operations\<close>

lemma heap_remove_ok:
  assumes s: "sched_at s T loc" and a: "a \<in> T" "loc a = Some h"
  shows "\<exists>s'. heap_remove h a s = Some s' \<and> sched_at s' T (loc(a := None)) \<and> only_heaps s s'"
proof -
  have f: "eh.family (heaps s) (threads s)" and e: "a \<in> set (events_of (heaps s h))"
    using s a by (auto simp: sched_at_def heaps_ok_family)
  obtain H' ev' where r: "CKremoveEvent (eheap (threads s a)) (heaps s h, threads s) = Some (H', ev')"
      "eh.family ((heaps s)(h := H')) ev'" "set (events_of H') = set (events_of (heaps s h)) - {a}"
      "same_but_heap (threads s) ev'"
    using eh.family_del[where hs = "heaps s" and k = h, OF f e] by blast
  let ?s = "s\<lparr>heaps := (heaps s)(h := H'), threads := ev'\<rparr>"
  have "heap_remove h a s = Some ?s" using r(1) by (simp add: on_heap_def)
  moreover have "sched_at ?s T (loc(a := None))"
    using s r(2,3) a by (auto simp: sched_at_def heaps_ok_family)
  moreover have "only_heaps s ?s" using r(4) by (auto simp: only_heaps_def)
  ultimately show ?thesis by blast
qed

lemma heap_insert_ok:
  assumes s: "sched_at s T loc" and a: "a \<in> T" "loc a = None"
  shows "\<exists>s'. heap_insert h a s = Some s' \<and> sched_at s' T (loc(a := Some h)) \<and> only_heaps s s'"
proof -
  have f: "eh.family (heaps s) (threads s)" and e: "\<And>k. a \<notin> set (events_of (heaps s k))"
    using s a by (auto simp: sched_at_def heaps_ok_family)
  have w: "heap_wf (heaps s h) (threads s)" using s by (simp add: sched_at_def heaps_ok_def)
  have "length (events_of (heaps s h)) = card (set (events_of (heaps s h)))"
    using distinct_card[of "events_of (heaps s h)"] w by (simp add: heap_wf_def)
  also have "\<dots> < card T"
  proof (rule psubset_card_mono)
    show "finite T" using s by (simp add: sched_at_def)
    have "set (events_of (heaps s h)) \<subseteq> T" using s by (auto simp: sched_at_def)
    then show "set (events_of (heaps s h)) \<subset> T" using a(1) e[of h] by blast
  qed
  also have "\<dots> \<le> MAXEVENTS" using s by (simp add: sched_at_def)
  finally have l: "length (events_of (heaps s h)) < MAXEVENTS" .
  obtain H' ev' where r: "CKsiftup a (heaps s h, threads s) = Some (H', ev')"
      "eh.family ((heaps s)(h := H')) ev'" "set (events_of H') = insert a (set (events_of (heaps s h)))"
      "same_but_heap (threads s) ev'"
    using eh.family_ins[where hs = "heaps s" and k = h, OF f l e] by blast
  let ?s = "s\<lparr>heaps := (heaps s)(h := H'), threads := ev'\<rparr>"
  have "heap_insert h a s = Some ?s" using r(1) by (simp add: on_heap_def)
  moreover have "sched_at ?s T (loc(a := Some h))"
    using s r(2,3) a by (auto simp: sched_at_def heaps_ok_family)
  moreover have "only_heaps s ?s" using r(4) by (auto simp: only_heaps_def)
  ultimately show ?thesis by blast
qed

lemma heap_siftdown_ok:
  assumes s: "sched_at s T loc" and a: "a \<in> T" "loc a = Some h"
  shows "\<exists>s'. heap_siftdown h s = Some s' \<and> sched_at s' T loc \<and> only_heaps s s'"
proof -
  have w: "\<And>k. heap_wf (heaps s k) (threads s)" and e: "a \<in> set (events_of (heaps s h))"
    and dj: "\<And>j k x. j \<noteq> k \<Longrightarrow> x \<in> set (events_of (heaps s j)) \<Longrightarrow> x \<notin> set (events_of (heaps s k))"
    using s a by (auto simp: sched_at_def heaps_ok_def)
  have n: "0 < hcount (heaps s h)" using e by (cases "hcount (heaps s h)") (auto simp: events_of_def)
  obtain H' ev' where c: "CKsiftdown (heaps s h, threads s) = (H', ev')" by fastforce
  have r: "heap_wf H' ev'" "mset (events_of H') = mset (events_of (heaps s h))"
      "same_but_heap (threads s) ev'" "\<forall>x. x \<notin> set (events_of (heaps s h)) \<longrightarrow> ev' x = threads s x"
    using CKsiftdown_ok[OF w n c] by simp_all
  have st: "set (events_of H') = set (events_of (heaps s h))" by (rule mset_eq_setD[OF r(2)])
  let ?s = "s\<lparr>heaps := (heaps s)(h := H'), threads := ev'\<rparr>"
  have "heap_wf (heaps s k) ev'" if k: "k \<noteq> h" for k
    using dj[OF k] r(4) by (intro heap_wf_frame[OF w]) auto
  then have "heaps_ok ((heaps s)(h := H')) ev'"
    using r(1) st s by (auto simp: heaps_ok_def sched_at_def)
  then have "sched_at ?s T loc" using s st by (simp add: sched_at_def)
  moreover have "heap_siftdown h s = Some ?s" using c by (simp add: on_heap_def)
  moreover have "only_heaps s ?s" using r(3) by (auto simp: only_heaps_def)
  ultimately show ?thesis by blast
qed

section \<open>Threads change their state\<close>

lemma set_thread_at:
  "sched_at s T loc \<Longrightarrow> (\<And>t. eheap (f t) = eheap t) \<Longrightarrow> sched_at (set_thread a f s) T loc"
  by (erule sched_at_frame) simp_all

lemma irq_at [simp]:
  "sched_at (CKlock s) T loc = sched_at s T loc" "sched_at (CKunlock s) T loc = sched_at s T loc"
  "sched_wf (CKlock s) T = sched_wf s T" "sched_wf (CKunlock s) T = sched_wf s T"
  by (simp_all add: sched_at_def sched_wf_def CKlock_def CKunlock_def)

lemma irq_fields [simp]:
  "threads (CKlock s) = threads s" "threads (CKunlock s) = threads s" "heaps (CKlock s) = heaps s"
  "heaps (CKunlock s) = heaps s" "currtask (CKlock s) = currtask s" "currtask (CKunlock s) = currtask s"
  "idleLoop (CKlock s) = idleLoop s" "idleLoop (CKunlock s) = idleLoop s" "lasttime (CKlock s) = lasttime s"
  "uthreads (CKlock s) = uthreads s" "uthreads (CKunlock s) = uthreads s"
  "headers (CKlock s) = headers s" "headers (CKunlock s) = headers s"
  "ckmem (CKlock s) = ckmem s" "ckmem (CKunlock s) = ckmem s"
  "odg (CKlock s) = odg s" "odg (CKunlock s) = odg s"
  "SCHED.more (CKlock s) = SCHED.more s" "SCHED.more (CKunlock s) = SCHED.more s"
  "lasttime (CKunlock s) = lasttime s" "realtime (CKlock s) = realtime s" "realtime (CKunlock s) = realtime s"
  "fudge (CKlock s) = fudge s" "fudge (CKunlock s) = fudge s"
  by (simp_all add: CKlock_def CKunlock_def)

lemma unheap_ok:
  assumes s: "sched_wf s T" and a: "a \<in> T"
  shows "\<exists>s'. unheap a s = Some s' \<and> sched_at s' T ((\<lambda>b. state_heap (ts (threads s b)))(a := None))
    \<and> only_heaps s s'"
proof (cases "state_heap (ts (threads s a))")
  case None
  then have "(\<lambda>b. state_heap (ts (threads s b)))(a := None) = (\<lambda>b. state_heap (ts (threads s b)))"
    by (simp add: fun_upd_idem)
  then show ?thesis using s None by (auto simp: unheap_def sched_wf_def)
next
  case (Some h)
  then show ?thesis
    using heap_remove_ok[OF s[unfolded sched_wf_def] a] by (simp add: unheap_def)
qed

text \<open>A thread that is in no heap gets a state and goes into its heap.\<close>

lemma enheap_ok:
  assumes s: "sched_at s T loc" and a: "a \<in> T" "loc a = None" and h: "state_heap st = Some h"
    and oth: "\<And>b. b \<in> T \<Longrightarrow> b \<noteq> a \<Longrightarrow> loc b = state_heap (ts (threads s b))"
  defines "t0 \<equiv> if heap_empty h s then 0 else next_time h s"
  shows "\<exists>s'. enheap h st u a s = Some s' \<and> sched_wf s' T
    \<and> same_but_heap ((threads s)(a := (threads s a)\<lparr>etime := t0, ts := st\<rparr>)) (threads s')
    \<and> only_heaps (case u of
        None \<Rightarrow> set_thread a (\<lambda>t. t\<lparr>etime := t0, ts := st\<rparr>) s
      | Some v \<Rightarrow> set_uthread v (\<lambda>x. x\<lparr>u_time := t0\<rparr>) (set_thread a (\<lambda>t. t\<lparr>etime := t0, ts := st\<rparr>) s)) s'"
proof -
  let ?s1 = "set_thread a (\<lambda>t. t\<lparr>etime := t0, ts := st\<rparr>) s"
  let ?s2 = "case u of None \<Rightarrow> ?s1 | Some v \<Rightarrow> set_uthread v (\<lambda>x. x\<lparr>u_time := t0\<rparr>) ?s1"
  have th: "threads ?s2 = (threads s)(a := (threads s a)\<lparr>etime := t0, ts := st\<rparr>)" "heaps ?s2 = heaps s"
    by (simp_all split: option.split)
  have sa: "sched_at ?s2 T loc" by (rule sched_at_frame[OF s]) (simp_all add: th)
  obtain s' where s': "heap_insert h a ?s2 = Some s'" "sched_at s' T (loc(a := Some h))"
      "only_heaps ?s2 s'"
    using heap_insert_ok[OF sa a] by blast
  have "sched_wf s' T"
  proof (rule sched_wfI[OF s'(2)])
    fix b assume "b \<in> T"
    then show "(loc(a := Some h)) b = state_heap (ts (threads s' b))"
      using oth[of b] h by (simp add: only_heapsD(19)[OF s'(3)] th)
  qed
  moreover have "enheap h st u a s = Some s'"
    using s'(1) unfolding enheap_def Let_def t0_def .
  moreover have "same_but_heap ((threads s)(a := (threads s a)\<lparr>etime := t0, ts := st\<rparr>)) (threads s')"
    using s'(3) th(1) by (simp only: only_heaps_def)
  ultimately show ?thesis using s'(3) by blast
qed

lemma CKblockThread_eq:
  "CKblockThread a s = (if ts (threads s a) = ts_Blocked then Some s
     else map_option (\<lambda>s1. CKunlock (set_thread a (\<lambda>t. t\<lparr>ts := ts_Blocked\<rparr>) s1)) (unheap a (CKlock s)))"
  by (cases "ts (threads s a)") (simp_all add: CKblockThread_def Let_def unheap_def map_conv_bind_option comp_def)

lemma lock_threads: "CKlock (s\<lparr>threads := ev\<rparr>) = (CKlock s)\<lparr>threads := ev\<rparr>"
  by (cases s) (simp add: CKlock_def)

lemma lock_heaps [simp]:
  "heap_empty h (CKlock s) = heap_empty h s" "next_time h (CKlock s) = next_time h s"
  by simp_all

lemma CKunblockThread_eq:
  "CKunblockThread a s = (if ts (threads s a) = ts_Blocked
     then map_option CKunlock (enheap ht_timesharing ts_Running None a (CKlock s)) else Some s)"
  by (cases "ts (threads s a)") (simp_all add: CKunblockThread_def enheap_def Let_def lock_threads map_conv_bind_option comp_def)

lemma CKidleThread_eq:
  "CKidleThread a s = (if ts (threads s a) = ts_Blocked
     then map_option CKunlock (enheap ht_idle ts_Idle None a (CKlock s)) else Some s)"
  by (cases "ts (threads s a)") (simp_all add: CKidleThread_def enheap_def Let_def lock_threads map_conv_bind_option comp_def)


section \<open>Blocking, unblocking and idling keep the invariant\<close>

text \<open>What such a call leaves as it was.\<close>

definition rest_kept :: "'a SCHED_scheme \<Rightarrow> 'a SCHED_scheme \<Rightarrow> bool" where
  "rest_kept s s' \<longleftrightarrow> ckmem s' = ckmem s \<and> headers s' = headers s \<and> odg s' = odg s
     \<and> uthreads s' = uthreads s \<and> currtask s' = currtask s \<and> idleLoop s' = idleLoop s
     \<and> lasttime s' = lasttime s \<and> realtime s' = realtime s \<and> fudge s' = fudge s
     \<and> SCHED.more s' = SCHED.more s"

lemma rest_kept_trans: "rest_kept a b \<Longrightarrow> rest_kept b c \<Longrightarrow> rest_kept a c"
  by (simp add: rest_kept_def)

lemma only_heaps_rest: "only_heaps s s' \<Longrightarrow> rest_kept s s'"
  using only_heapsD[of s s'] by (simp add: rest_kept_def)

lemma only_heaps_threads: "only_heaps s s' \<Longrightarrow> same_but_heap (threads s) (threads s')"
  by (simp add: only_heaps_def)

lemma same_but_heap_upd:
  "same_but_heap ev ev' \<Longrightarrow> (\<And>t n. f (t\<lparr>eheap := n\<rparr>) = (f t)\<lparr>eheap := n\<rparr>)
   \<Longrightarrow> same_but_heap (ev(a := f (ev a))) (ev'(a := f (ev' a)))"
  unfolding same_but_heap_def by (metis fun_upd_apply)

lemma thread_blocked_ok:
  assumes s: "sched_at s T (loc(a := None))" and a: "a \<in> T"
    and loc: "\<And>b. b \<in> T \<Longrightarrow> b \<noteq> a \<Longrightarrow> loc b = state_heap (ts (threads s b))"
  shows "sched_wf (set_thread a (\<lambda>t. t\<lparr>ts := ts_Blocked\<rparr>) s) T"
proof (rule sched_wfI)
  show "sched_at (set_thread a (\<lambda>t. t\<lparr>ts := ts_Blocked\<rparr>) s) T (loc(a := None))"
    by (rule set_thread_at[OF s]) simp
  show "(loc(a := None)) b = state_heap (ts (threads (set_thread a (\<lambda>t. t\<lparr>ts := ts_Blocked\<rparr>) s) b))"
    if "b \<in> T" for b using loc[OF that] by simp
qed

theorem CKblockThread_ok:
  assumes s: "sched_wf s T" and a: "a \<in> T"
  shows "\<exists>s'. CKblockThread a s = Some s' \<and> sched_wf s' T \<and> rest_kept s s'
    \<and> same_but_heap ((threads s)(a := (threads s a)\<lparr>ts := ts_Blocked\<rparr>)) (threads s')"
proof (cases "ts (threads s a) = ts_Blocked")
  case True
  then have "threads s a = (threads s a)\<lparr>ts := ts_Blocked\<rparr>" by simp
  then have "(threads s)(a := (threads s a)\<lparr>ts := ts_Blocked\<rparr>) = threads s"
    by (metis fun_upd_triv)
  then show ?thesis using s True by (simp add: CKblockThread_eq rest_kept_def)
next
  case False
  have "sched_wf (CKlock s) T" using s by simp
  from unheap_ok[OF this a] obtain s1 where u: "unheap a (CKlock s) = Some s1"
      and at: "sched_at s1 T ((\<lambda>b. state_heap (ts (threads (CKlock s) b)))(a := None))"
      and oh: "only_heaps (CKlock s) s1" by blast
  let ?s2 = "set_thread a (\<lambda>t. t\<lparr>ts := ts_Blocked\<rparr>) s1"
  have "sched_wf ?s2 T" by (rule thread_blocked_ok[OF at a]) (simp add: only_heapsD(19)[OF oh])
  moreover have "rest_kept s (CKunlock ?s2)"
    using only_heaps_rest[OF oh] by (simp add: rest_kept_def CKunlock_def CKlock_def)
  moreover have "same_but_heap ((threads s)(a := (threads s a)\<lparr>ts := ts_Blocked\<rparr>)) (threads ?s2)"
    using same_but_heap_upd[OF only_heaps_threads[OF oh], of "\<lambda>t. t\<lparr>ts := ts_Blocked\<rparr>" a] by simp
  ultimately show ?thesis using False u by (simp add: CKblockThread_eq)
qed

lemma into_heap_ok:
  assumes s: "sched_wf s T" and a: "a \<in> T" and b: "ts (threads s a) = ts_Blocked"
    and h: "state_heap st = Some h"
  shows "\<exists>s'. map_option CKunlock (enheap h st None a (CKlock s)) = Some s' \<and> sched_wf s' T
    \<and> rest_kept s s' \<and> same_but_heap ((threads s)(a := (threads s a)
       \<lparr>etime := (if heap_empty h s then 0 else next_time h s), ts := st\<rparr>)) (threads s')"
proof -
  let ?loc = "\<lambda>b. state_heap (ts (threads s b))"
  have at: "sched_at (CKlock s) T ?loc" using s by (simp add: sched_wf_def)
  have n: "?loc a = None" using b by simp
  obtain s' where e: "enheap h st None a (CKlock s) = Some s'" "sched_wf s' T"
      "same_but_heap ((threads s)(a := (threads s a)
         \<lparr>etime := (if heap_empty h s then 0 else next_time h s), ts := st\<rparr>)) (threads s')"
      "only_heaps (set_thread a (\<lambda>t. t\<lparr>etime := (if heap_empty h s then 0 else next_time h s), ts := st\<rparr>) (CKlock s)) s'"
    using enheap_ok[OF at a n h, of None] unfolding irq_fields option.case by blast
  have "rest_kept s (CKunlock s')"
    using only_heaps_rest[OF e(4)] by (simp add: rest_kept_def CKunlock_def CKlock_def)
  then show ?thesis using e(1-3) by auto
qed

theorem CKunblockThread_ok:
  assumes s: "sched_wf s T" and a: "a \<in> T"
  shows "\<exists>s'. CKunblockThread a s = Some s' \<and> sched_wf s' T \<and> rest_kept s s'
    \<and> same_but_heap (if ts (threads s a) = ts_Blocked then (threads s)(a := (threads s a)
         \<lparr>etime := (if heap_empty ht_timesharing s then 0 else next_time ht_timesharing s),
          ts := ts_Running\<rparr>) else threads s) (threads s')"
  using into_heap_ok[OF s a, of ts_Running ht_timesharing] s
  by (cases "ts (threads s a) = ts_Blocked") (auto simp: CKunblockThread_eq rest_kept_def)

theorem CKidleThread_ok:
  assumes s: "sched_wf s T" and a: "a \<in> T"
  shows "\<exists>s'. CKidleThread a s = Some s' \<and> sched_wf s' T \<and> rest_kept s s'
    \<and> same_but_heap (if ts (threads s a) = ts_Blocked then (threads s)(a := (threads s a)
         \<lparr>etime := (if heap_empty ht_idle s then 0 else next_time ht_idle s),
          ts := ts_Idle\<rparr>) else threads s) (threads s')"
  using into_heap_ok[OF s a, of ts_Idle ht_idle] s
  by (cases "ts (threads s a) = ts_Blocked") (auto simp: CKidleThread_eq rest_kept_def)


section \<open>Setting a state\<close>

lemma sched_wf_rest: "rest_kept s s' \<Longrightarrow> threads s' = threads s \<Longrightarrow> heaps s' = heaps s \<Longrightarrow> sched_wf s' T = sched_wf s T"
  by (simp add: sched_wf_def sched_at_def)

lemma move_to_heap:
  assumes s: "sched_wf s T" and a: "a \<in> T" and h: "state_heap st = Some h"
  shows "\<exists>s1 s'. unheap a s = Some s1 \<and> enheap h st u a s1 = Some s' \<and> sched_wf s' T
    \<and> (\<forall>b. b \<noteq> a \<longrightarrow> ts (threads s' b) = ts (threads s b)) \<and> ts (threads s' a) = st
    \<and> currtask s' = currtask s \<and> idleLoop s' = idleLoop s"
proof -
  let ?loc = "(\<lambda>b. state_heap (ts (threads s b)))(a := None)"
  obtain s1 where u: "unheap a s = Some s1" "sched_at s1 T ?loc" "only_heaps s s1"
    using unheap_ok[OF s a] by blast
  have n: "?loc a = None" by simp
  have o: "?loc b = state_heap (ts (threads s1 b))" if "b \<in> T" "b \<noteq> a" for b
    using that(2) by (simp add: only_heapsD(19)[OF u(3)])
  let ?t0 = "if heap_empty h s1 then 0 else next_time h s1"
  let ?s2 = "case u of None \<Rightarrow> set_thread a (\<lambda>t. t\<lparr>etime := ?t0, ts := st\<rparr>) s1
    | Some v \<Rightarrow> set_uthread v (\<lambda>x. x\<lparr>u_time := ?t0\<rparr>) (set_thread a (\<lambda>t. t\<lparr>etime := ?t0, ts := st\<rparr>) s1)"
  obtain s' where e: "enheap h st u a s1 = Some s'" "sched_wf s' T" "only_heaps ?s2 s'"
    using enheap_ok[OF u(2) a n h o, of u] by blast
  have "ts (threads s' b) = (if b = a then st else ts (threads s b))" for b
    using only_heapsD(19)[OF e(3), of b] only_heapsD(19)[OF u(3), of b]
    by (simp split: option.splits)
  moreover have "currtask s' = currtask s" "idleLoop s' = idleLoop s"
    using only_heapsD(5,6)[OF e(3)] only_heapsD(5,6)[OF u(3)] by (simp_all split: option.splits)
  ultimately show ?thesis using u(1) e(1,2) by auto
qed

theorem CKsetThreadState_ok:
  assumes s: "sched_wf s T" and a: "a \<in> T" and v: "CKvalidThread a s"
    and st: "st \<noteq> ts_RealTime"
  shows "\<exists>s'. CKsetThreadState a (Some st) s = Some (CK_OK, s') \<and> sched_wf s' T
    \<and> ts (threads s' a) = st \<and> (\<forall>b. b \<noteq> a \<longrightarrow> ts (threads s' b) = ts (threads s b))"
proof (cases "ts (threads s a) = st")
  case True
  then show ?thesis using s v st
    by (cases st) (auto simp: CKsetThreadState_def Let_def)
next
  case False
  have l: "sched_wf (CKlock s) T" using s by simp
  show ?thesis
  proof (cases "state_heap st")
    case None
    then have b: "st = ts_Blocked" by (cases st) auto
    obtain s1 where u: "unheap a (CKlock s) = Some s1"
        "sched_at s1 T ((\<lambda>b. state_heap (ts (threads (CKlock s) b)))(a := None))" "only_heaps (CKlock s) s1"
      using unheap_ok[OF l a] by blast
    have w: "sched_wf (set_thread a (\<lambda>t. t\<lparr>ts := ts_Blocked\<rparr>) s1) T"
      by (rule thread_blocked_ok[OF u(2) a]) (simp add: only_heapsD(19)[OF u(3)])
    then show ?thesis using False v u(1) b only_heapsD(19)[OF u(3)]
      by (simp add: CKsetThreadState_def Let_def)
  next
    case (Some h)
    then have h: "st = ts_Running \<and> h = ht_timesharing \<or> st = ts_Idle \<and> h = ht_idle"
      using st by (cases st) auto
    obtain s1 s' where m: "unheap a (CKlock s) = Some s1"
        "enheap h st (Some (objectData (headers s a))) a s1 = Some s'" "sched_wf s' T"
        "\<forall>b. b \<noteq> a \<longrightarrow> ts (threads s' b) = ts (threads (CKlock s) b)" "ts (threads s' a) = st"
      using move_to_heap[OF l a Some] by blast
    then show ?thesis using False v h
      by (auto simp: CKsetThreadState_def Let_def)
  qed
qed

section \<open>Flushing the previous task\<close>

text \<open>The thread that ran is a known one, the idle loop, or one that is blocked (the zombie).\<close>

definition runner_ok :: "'a SCHED_scheme \<Rightarrow> addr set \<Rightarrow> bool" where
  "runner_ok s T \<longleftrightarrow> currtask s \<in> T
     \<or> ts (threads s (currtask s)) = ts_Idle \<and> currtask s = idleLoop s
     \<or> ts (threads s (currtask s)) = ts_Blocked"

text \<open>What becomes of it.\<close>

definition flushed :: "'a SCHED_scheme \<Rightarrow> CKThreadObject" where
  "flushed s = (let c = currtask s; t = threads s c in case ts t of
       ts_Running \<Rightarrow> if \<not> CLESS (lasttime s) (etime t) then t\<lparr>etime := etime t + defer_time t\<rparr>
                    else t\<lparr>ts := ts_RealTime\<rparr>
     | ts_RealTime \<Rightarrow> if CLESS (lasttime s) (etime t) then t
                    else t\<lparr>ts := ts_Running, etime := next_time ht_timesharing s\<rparr>
     | ts_Idle \<Rightarrow> if c \<noteq> idleLoop s then t\<lparr>etime := etime t + defer_time t\<rparr> else t
     | ts_Blocked \<Rightarrow> t)"

lemma heap_move:
  assumes s: "sched_at s T loc" and a: "a \<in> T" "loc a = Some h"
  shows "\<exists>s1 s'. heap_remove h a s = Some s1 \<and> heap_insert k a s1 = Some s'
    \<and> sched_at s' T (loc(a := Some k)) \<and> only_heaps s s'"
proof -
  obtain s1 where r: "heap_remove h a s = Some s1" "sched_at s1 T (loc(a := None))" "only_heaps s s1"
    using heap_remove_ok[OF s a] by blast
  have n: "(loc(a := None)) a = None" by simp
  obtain s' where i: "heap_insert k a s1 = Some s'" "sched_at s' T ((loc(a := None))(a := Some k))"
      "only_heaps s1 s'"
    using heap_insert_ok[OF r(2) a(1) n, of k] by blast
  then show ?thesis using r(1) only_heaps_trans[OF r(3) i(3)] by auto
qed


text \<open>The two ways to flush: down the heap the thread is in, or over to another one.\<close>

lemma flush_stay:
  assumes s: "sched_wf s T" and c: "c \<in> T" and h: "state_heap (ts (threads s c)) = Some h"
    and f: "\<And>t. eheap (f t) = eheap t" "ts (f (threads s c)) = ts (threads s c)"
  shows "\<exists>s'. heap_siftdown h (set_thread c f s) = Some s' \<and> sched_wf s' T
    \<and> only_heaps (set_thread c f s) s'"
proof -
  let ?loc = "\<lambda>b. state_heap (ts (threads s b))"
  have at: "sched_at (set_thread c f s) T ?loc"
    by (rule set_thread_at[OF s[unfolded sched_wf_def] f(1)])
  obtain s' where r: "heap_siftdown h (set_thread c f s) = Some s'" "sched_at s' T ?loc"
      "only_heaps (set_thread c f s) s'"
    using heap_siftdown_ok[OF at c h] by blast
  have "sched_wf s' T"
    by (rule sched_wfI[OF r(2)]) (simp add: only_heapsD(19)[OF r(3)] f(2))
  then show ?thesis using r(1,3) by blast
qed

lemma flush_move:
  assumes s: "sched_wf s T" and c: "c \<in> T" and h: "state_heap (ts (threads s c)) = Some h"
    and f: "\<And>t. eheap (f t) = eheap t" "state_heap (ts (f (threads s c))) = Some k"
  shows "\<exists>s1 s'. heap_remove h c (set_thread c f s) = Some s1 \<and> heap_insert k c s1 = Some s'
    \<and> sched_wf s' T \<and> only_heaps (set_thread c f s) s'"
proof -
  let ?loc = "\<lambda>b. state_heap (ts (threads s b))"
  have at: "sched_at (set_thread c f s) T ?loc"
    by (rule set_thread_at[OF s[unfolded sched_wf_def] f(1)])
  obtain s1 s' where r: "heap_remove h c (set_thread c f s) = Some s1" "heap_insert k c s1 = Some s'"
      "sched_at s' T (?loc(c := Some k))" "only_heaps (set_thread c f s) s'"
    using heap_move[OF at c h] by blast
  have "sched_wf s' T"
    by (rule sched_wfI[OF r(3)]) (simp add: only_heapsD(19)[OF r(4)] f(2))
  then show ?thesis using r(1,2,4) by blast
qed

lemma set_thread_dr: "set_thread c f (s\<lparr>doingRealtime := d\<rparr>) = (set_thread c f s)\<lparr>doingRealtime := d\<rparr>"
  by (cases s) simp

lemma sched_wf_dr [simp]: "sched_wf (s\<lparr>doingRealtime := d\<rparr>) T = sched_wf s T"
  by (simp add: sched_wf_def sched_at_def)

lemma same_threads: "(CKlock s)\<lparr>doingRealtime := d, threads := threads s\<rparr> = (CKlock s)\<lparr>doingRealtime := d\<rparr>"
  by (cases s) (simp add: CKlock_def)

lemma CKflushPrevTask_some:
  assumes s: "sched_wf s T" and r: "runner_ok s T"
  shows "\<exists>s'. CKflushPrevTask s = Some s' \<and> sched_wf s' T \<and> rest_kept s s'
    \<and> same_but_heap ((threads s)(currtask s := flushed s)) (threads s')"
proof -
  let ?c = "currtask s" and ?t = "threads s (currtask s)" and ?s = "CKlock s"
  have l: "sched_wf ?s T" and ld: "sched_wf (?s\<lparr>doingRealtime := 0\<rparr>) T" using s by simp_all
  have fin: "\<exists>s''. Some (CKunlock s') = Some s'' \<and> sched_wf s'' T \<and> rest_kept s s''
      \<and> same_but_heap ((threads s)(?c := flushed s)) (threads s'')"
    if "sched_wf s' T" and "only_heaps s0 s'" and "rest_kept s s0"
      and "threads s0 = (threads s)(?c := flushed s)" for s' s0
  proof -
    have "sched_wf (CKunlock s') T" using that(1) by simp
    then show ?thesis
      using rest_kept_trans[OF that(3) only_heaps_rest[OF that(2)]] only_heaps_threads[OF that(2)] that(4)
      by (simp add: rest_kept_def CKunlock_def)
  qed
  show ?thesis
  proof (cases "ts ?t")
    case ts_Running
    have c: "?c \<in> T" using r ts_Running by (auto simp: runner_ok_def)
    have h: "state_heap (ts (threads ?s ?c)) = Some ht_timesharing" using ts_Running by simp
    show ?thesis
    proof (cases "CLESS (lasttime s) (etime ?t)")
      case False
      let ?f = "\<lambda>t. t\<lparr>etime := etime t + defer_time t\<rparr>"
      obtain s' where s': "heap_siftdown ht_timesharing (set_thread ?c ?f ?s) = Some s'" "sched_wf s' T"
          "only_heaps (set_thread ?c ?f ?s) s'"
        using flush_stay[OF l c h, of ?f] by auto
      show ?thesis using fin[OF s'(2,3)] s'(1) ts_Running False
        by (simp add: CKflushPrevTask_def Let_def flushed_def rest_kept_def)
    next
      case True
      let ?f = "\<lambda>t. t\<lparr>ts := ts_RealTime\<rparr>"
      obtain s1 s' where s': "heap_remove ht_timesharing ?c (set_thread ?c ?f ?s) = Some s1"
          "heap_insert ht_realtime ?c s1 = Some s'" "sched_wf s' T"
          "only_heaps (set_thread ?c ?f ?s) s'"
        using flush_move[OF l c h, of ?f ht_realtime] by auto
      show ?thesis using fin[OF s'(3,4)] s'(1,2) ts_Running True
        by (simp add: CKflushPrevTask_def Let_def flushed_def rest_kept_def)
    qed
  next
    case ts_RealTime
    have c: "?c \<in> T" using r ts_RealTime by (auto simp: runner_ok_def)
    let ?s = "(CKlock s)\<lparr>doingRealtime := 0\<rparr>"
    have h: "state_heap (ts (threads ?s ?c)) = Some ht_realtime" using ts_RealTime by simp
    show ?thesis
    proof (cases "CLESS (lasttime s) (etime ?t)")
      case True
      obtain s' where s': "heap_siftdown ht_realtime ?s = Some s'" "sched_wf s' T"
          "only_heaps ?s s'"
        using flush_stay[OF ld c h, of "\<lambda>t. t"] by (auto simp: same_threads)
      show ?thesis using fin[OF s'(2,3)] s'(1) ts_RealTime True
        by (simp add: CKflushPrevTask_def Let_def flushed_def rest_kept_def)
    next
      case False
      let ?f = "\<lambda>t. t\<lparr>ts := ts_Running, etime := next_time ht_timesharing ?s\<rparr>"
      obtain s1 s' where s': "heap_remove ht_realtime ?c (set_thread ?c ?f ?s) = Some s1"
          "heap_insert ht_timesharing ?c s1 = Some s'" "sched_wf s' T"
          "only_heaps (set_thread ?c ?f ?s) s'"
        using flush_move[OF ld c h, of ?f ht_timesharing] by auto
      show ?thesis using fin[OF s'(3,4)] s'(1,2) ts_RealTime False
        by (simp add: CKflushPrevTask_def Let_def flushed_def rest_kept_def)
    qed
  next
    case ts_Idle
    show ?thesis
    proof (cases "?c = idleLoop s")
      case True
      then show ?thesis using fin[OF l only_heaps_refl] ts_Idle
        by (simp add: CKflushPrevTask_def Let_def flushed_def rest_kept_def)
    next
      case False
      have c: "?c \<in> T" using r ts_Idle False by (auto simp: runner_ok_def)
      have h: "state_heap (ts (threads ?s ?c)) = Some ht_idle" using ts_Idle by simp
      let ?f = "\<lambda>t. t\<lparr>etime := etime t + defer_time t\<rparr>"
      obtain s' where s': "heap_siftdown ht_idle (set_thread ?c ?f ?s) = Some s'" "sched_wf s' T"
          "only_heaps (set_thread ?c ?f ?s) s'"
        using flush_stay[OF l c h, of ?f] by auto
      show ?thesis using fin[OF s'(2,3)] s'(1) ts_Idle False
        by (simp add: CKflushPrevTask_def Let_def flushed_def rest_kept_def)
    qed
  next
    case ts_Blocked
    then show ?thesis using fin[OF l only_heaps_refl]
      by (simp add: CKflushPrevTask_def Let_def flushed_def rest_kept_def)
  qed
qed


section \<open>Choosing the next task\<close>

lemma sched_wf_heap:
  assumes "sched_wf s T"
  shows "heap_wf (heaps s h) (threads s)"
    and "a \<in> set (events_of (heaps s h)) \<longleftrightarrow> a \<in> T \<and> state_heap (ts (threads s a)) = Some h"
  using assms by (auto simp: sched_wf_def sched_at_def heaps_ok_def)

lemma next_event_in:
  assumes "\<not> heap_empty h s" and "heap_wf (heaps s h) (threads s)"
  shows "next_event h s \<in> set (events_of (heaps s h))"
proof -
  have "0 < hcount (heaps s h)" "hcount (heaps s h) \<le> length (harr (heaps s h))"
    using assms by (simp_all add: CKisHeapEmpty_def heap_wf_def)
  then show ?thesis unfolding CKgetNextEvent_def by (rule events_of_mem)
qed

lemma next_event_wf:
  assumes "sched_wf s T" and "\<not> heap_empty h s"
  shows "next_event h s \<in> T" "state_heap (ts (threads s (next_event h s))) = Some h"
  using next_event_in[OF assms(2) sched_wf_heap(1)[OF assms(1)]] sched_wf_heap(2)[OF assms(1)] by simp_all

lemma heap_empty_iff:
  assumes "sched_wf s T"
  shows "heap_empty h s \<longleftrightarrow> (\<forall>a\<in>T. state_heap (ts (threads s a)) \<noteq> Some h)"
proof -
  have "heap_empty h s \<longleftrightarrow> events_of (heaps s h) = []"
    using sched_wf_heap(1)[OF assms, of h]
    by (auto simp: CKisHeapEmpty_def events_of_def heap_wf_def MAXEVENTS_def)
  also have "\<dots> \<longleftrightarrow> (\<forall>a. a \<notin> set (events_of (heaps s h)))" by (cases "events_of (heaps s h)") auto
  finally show ?thesis using sched_wf_heap(2)[OF assms] by auto
qed

lemma updateRealtime_fields [simp]:
  "heaps (CKupdateRealtime s) = heaps s" "threads (CKupdateRealtime s) = threads s"
  "idleLoop (CKupdateRealtime s) = idleLoop s" "fudge (CKupdateRealtime s) = fudge s"
  "currtask (CKupdateRealtime s) = currtask s" "headers (CKupdateRealtime s) = headers s"
  "lasttime (CKupdateRealtime s) = lasttime s" "uthreads (CKupdateRealtime s) = uthreads s"
  "ckmem (CKupdateRealtime s) = ckmem s" "odg (CKupdateRealtime s) = odg s"
  "SCHED.more (CKupdateRealtime s) = SCHED.more s"
  by (simp_all add: CKupdateRealtime_def Let_def)

lemma CKgetNextTask_frame:
  assumes "CKgetNextTask s = (e, p, s')"
  shows "heaps s' = heaps s" "threads s' = threads s" "idleLoop s' = idleLoop s"
    "realtime s' = CKgetRealtime s" "headers s' = headers s" "uthreads s' = uthreads s"
    "currtask s' = currtask s" "SCHED.more s' = SCHED.more s"
  using assms by (auto simp: CKgetNextTask_def Let_def CKgetRealtime_def CKupdateRealtime_def split: if_splits)

text \<open>
  The choice: a realtime thread exactly when the first of them is due, else a timesharing
  thread if there is one, else an idle thread, else the idle loop.
\<close>

lemma CKgetNextTask_choice:
  assumes "CKgetNextTask s = (e, p, s')"
  shows "e = (if \<not> heap_empty ht_realtime s \<and> CLSE (next_time ht_realtime s - fudge s) (CKgetRealtime s)
      then next_event ht_realtime s
    else if \<not> heap_empty ht_timesharing s then next_event ht_timesharing s
    else if \<not> heap_empty ht_idle s then next_event ht_idle s else idleLoop s)"
  using assms
  by (auto simp: CKgetNextTask_def idle_choice_def Let_def CKgetRealtime_def CKupdateRealtime_def split: if_splits)

lemma CLESS_CLSE: "CLESS a b \<Longrightarrow> CLSE a b"
  by (simp add: CLESS_def CLSE_def)


text \<open>Unless a realtime thread is due, the quantum ends no later than the next one is.\<close>

lemma CKgetNextTask_quantum:
  assumes g: "CKgetNextTask s = (e, p, s')" and n: "\<not> heap_empty ht_realtime s"
    and d: "\<not> CLSE (next_time ht_realtime s - fudge s) (CKgetRealtime s)"
  shows "\<not> CLESS (next_time ht_realtime s - fudge s) (CKgetRealtime s + p)"
proof -
  let ?x = "next_time ht_realtime s - fudge s" and ?r = "CKgetRealtime s"
  have r: "realtime (CKupdateRealtime s) = ?r"
    by (simp add: CKupdateRealtime_def CKgetRealtime_def Let_def)
  have "p = ?x - ?r \<or> \<not> CLSE ?x (p + ?r)"
    using g n d unfolding CKgetNextTask_def idle_choice_def Let_def updateRealtime_fields r
    by (auto simp: algebra_simps split: if_splits)
  then show ?thesis
  proof
    assume "p = ?x - ?r"
    then have "?r + p = ?x" by simp
    then show ?thesis by (simp add: CLESS_def)
  next
    assume "\<not> CLSE ?x (p + ?r)"
    then show ?thesis unfolding add.commute[of ?r p] using CLESS_CLSE by blast
  qed
qed

text \<open>The invariant between two calls: the idle loop is an idle thread that is in no heap.\<close>

definition sched_inv :: "'a SCHED_scheme \<Rightarrow> addr set \<Rightarrow> bool" where
  "sched_inv s T \<longleftrightarrow> sched_wf s T \<and> idleLoop s \<notin> T
     \<and> ts (threads s (idleLoop s)) = ts_Idle \<and> runner_ok s T"

lemma CKgetNextTask_runs:
  assumes s: "sched_wf s T" and g: "CKgetNextTask s = (e, p, s')"
  shows "e \<in> T \<and> ts (threads s e) \<noteq> ts_Blocked \<or> e = idleLoop s"
proof -
  have "e \<in> T \<and> ts (threads s e) \<noteq> ts_Blocked" if "\<not> heap_empty h s" "e = next_event h s" for h
    using next_event_wf[OF s that(1)] that(2) by (auto split: ThreadState.splits)
  then show ?thesis using CKgetNextTask_choice[OF g] by presburger
qed

lemma flushed_ts_idle:
  "ts (threads s (currtask s)) = ts_Idle \<Longrightarrow> ts (flushed s) = ts_Idle"
  by (cases "currtask s = idleLoop s") (simp_all add: flushed_def Let_def)

lemma CKschedule_some:
  assumes inv: "sched_inv s T"
  shows "\<exists>s'. CKschedule s = Some s' \<and> sched_inv s' T \<and> tss_base s' = currtask s'
    \<and> ts (threads s' (currtask s')) \<noteq> ts_Blocked
    \<and> (currtask s' \<in> T \<or> currtask s' = idleLoop s)
    \<and> lasttime s' = etime (threads s' (currtask s')) \<and> schedLock s' = 0
    \<and> headers s' = headers s \<and> SCHED.more s' = SCHED.more s"
proof -
  let ?c = "currtask s"
  let ?s1 = "set_thread ?c (\<lambda>t. t\<lparr>etime := u_time (uthreads s (objectData (headers s ?c)))\<rparr>) s"
  have wf: "sched_wf s T" and i: "idleLoop s \<notin> T" "ts (threads s (idleLoop s)) = ts_Idle"
    and r: "runner_ok s T" using inv by (simp_all add: sched_inv_def)
  have w1: "sched_wf ?s1 T"
    by (rule sched_wfI[OF set_thread_at[OF wf[unfolded sched_wf_def]]]) simp_all
  have r1: "runner_ok ?s1 T" using r by (auto simp: runner_ok_def)
  obtain s2 where f: "CKflushPrevTask ?s1 = Some s2" "sched_wf s2 T" "rest_kept ?s1 s2"
      "same_but_heap ((threads ?s1)(currtask ?s1 := flushed ?s1)) (threads s2)"
    using CKflushPrevTask_some[OF w1 r1] by blast
  have l2: "idleLoop s2 = idleLoop s" using f(3) by (simp add: rest_kept_def)
  have t2: "ts (threads s2 a) = ts (((threads ?s1)(currtask ?s1 := flushed ?s1)) a)" for a
    using same_but_heap_fields[OF f(4)] by simp
  have i2: "ts (threads s2 (idleLoop s)) = ts_Idle"
    using i(2) flushed_ts_idle[of ?s1] unfolding t2 by (cases "idleLoop s = ?c") simp_all
  obtain e p s3 where g: "CKgetNextTask s2 = (e, p, s3)" by (cases "CKgetNextTask s2") auto
  note fr = CKgetNextTask_frame[OF g]
  let ?s' = "CKcontextSwitch e (CKsetTimerPeriod p (s3\<lparr>currtask := e, lasttime := etime (threads s3 e)\<rparr>))"
  have th: "threads ?s' = threads s2" "heaps ?s' = heaps s2" "currtask ?s' = e"
      "idleLoop ?s' = idleLoop s" "tss_base ?s' = e" "lasttime ?s' = etime (threads s2 e)"
      "schedLock ?s' = 0" "headers ?s' = headers s" "SCHED.more ?s' = SCHED.more s"
    using fr l2 f(3) by (simp_all add: CKcontextSwitch_def CKsetTimerPeriod_def Let_def rest_kept_def)
  have "sched_wf ?s' T" using f(2) unfolding sched_wf_def sched_at_def th by simp
  moreover have run: "e \<in> T \<and> ts (threads s2 e) \<noteq> ts_Blocked \<or> e = idleLoop s"
    using CKgetNextTask_runs[OF f(2) g] l2 by simp
  ultimately have "sched_inv ?s' T"
    using i(1) i2 unfolding sched_inv_def runner_ok_def th by auto
  moreover have "CKschedule s = Some ?s'" using f(1) g by (simp add: CKschedule_def Let_def)
  ultimately show ?thesis using run i2 th by auto
qed


section \<open>Thread tunnels\<close>

lemma sched_inv_irq [simp]:
  "sched_inv (CKunlock s) T = sched_inv s T" "sched_inv (CKlock s) T = sched_inv s T"
  by (simp_all add: sched_inv_def runner_ok_def)

lemma unblock_inv:
  assumes s: "sched_inv s T" and a: "a \<in> T"
  shows "\<exists>s'. CKunblockThread a s = Some s' \<and> sched_inv s' T \<and> rest_kept s s'"
proof -
  have w: "sched_wf s T" and i: "idleLoop s \<notin> T" "ts (threads s (idleLoop s)) = ts_Idle"
    and r: "runner_ok s T" using s by (simp_all add: sched_inv_def)
  obtain s' where s': "CKunblockThread a s = Some s'" "sched_wf s' T" "rest_kept s s'"
      "same_but_heap (if ts (threads s a) = ts_Blocked then (threads s)(a := (threads s a)
         \<lparr>etime := (if heap_empty ht_timesharing s then 0 else next_time ht_timesharing s),
          ts := ts_Running\<rparr>) else threads s) (threads s')"
    using CKunblockThread_ok[OF w a] by blast
  have t: "ts (threads s' b) = ts (threads s b)" if "b \<noteq> a" for b
    using same_but_heap_fields[OF s'(4), of b] that by (simp split: if_splits)
  have k: "currtask s' = currtask s" "idleLoop s' = idleLoop s"
    using s'(3) by (simp_all add: rest_kept_def)
  have "idleLoop s \<noteq> a" using i(1) a by auto
  moreover have "currtask s \<in> T \<or> ts (threads s' (currtask s)) = ts (threads s (currtask s))"
    using a t[of "currtask s"] by (cases "currtask s = a") auto
  ultimately have "sched_inv s' T"
    using s'(2) i r t[of "idleLoop s"] unfolding sched_inv_def runner_ok_def k by auto
  then show ?thesis using s'(1,3) by blast
qed

lemma swap_states:
  assumes s: "sched_wf s T" and a: "a \<in> T" and c: "currtask s \<in> T"
  shows "\<exists>s1 s3. unheap (currtask s) s = Some s1
    \<and> (let s2 = set_thread (currtask s1) (\<lambda>t. t\<lparr>ts := ts_Blocked\<rparr>) s1 in
       (if ts (threads s2 a) = ts_Running then Some s2
        else do { s' \<leftarrow> unheap a s2; enheap ht_timesharing ts_Running None a s' }) = Some s3)
    \<and> sched_wf s3 T \<and> ts (threads s3 a) = ts_Running \<and> currtask s3 = currtask s
    \<and> idleLoop s3 = idleLoop s
    \<and> (\<forall>b. b \<noteq> a \<longrightarrow> ts (threads s3 b) = (if b = currtask s then ts_Blocked else ts (threads s b)))"
proof -
  let ?c = "currtask s"
  obtain s1 where u: "unheap ?c s = Some s1"
      "sched_at s1 T ((\<lambda>b. state_heap (ts (threads s b)))(?c := None))" "only_heaps s s1"
    using unheap_ok[OF s c] by blast
  let ?s2 = "set_thread ?c (\<lambda>t. t\<lparr>ts := ts_Blocked\<rparr>) s1"
  have w: "sched_wf ?s2 T"
    by (rule thread_blocked_ok[OF u(2) c]) (simp add: only_heapsD(19)[OF u(3)])
  have cc: "currtask s1 = ?c" "idleLoop s1 = idleLoop s" by (rule only_heapsD[OF u(3)])+
  have t2: "ts (threads ?s2 b) = (if b = ?c then ts_Blocked else ts (threads s b))" for b
    by (simp add: only_heapsD(19)[OF u(3)])
  show ?thesis
  proof (cases "ts (threads ?s2 a) = ts_Running")
    case True
    then show ?thesis using u(1) w cc t2 by (intro exI[of _ s1] exI[of _ ?s2]) auto
  next
    case False
    have h: "state_heap ts_Running = Some ht_timesharing" by simp
    obtain s' s3 where m: "unheap a ?s2 = Some s'" "enheap ht_timesharing ts_Running None a s' = Some s3"
        "sched_wf s3 T" "\<forall>b. b \<noteq> a \<longrightarrow> ts (threads s3 b) = ts (threads ?s2 b)"
        "ts (threads s3 a) = ts_Running" "currtask s3 = currtask ?s2" "idleLoop s3 = idleLoop ?s2"
      using move_to_heap[OF w a h, of None] by blast
    have "b \<noteq> a \<longrightarrow> ts (threads s3 b) = (if b = ?c then ts_Blocked else ts (threads s b))" for b
      using m(4) t2[of b] by simp
    then show ?thesis using False u(1) m(1,2,3,5,6,7) cc
      by (intro exI[of _ s1] exI[of _ s3]) simp
  qed
qed

lemma CKthreadTunnel_some:
  assumes s: "sched_inv s T" and a: "a \<in> T" and v: "CKvalidThread a s" and c: "currtask s \<in> T"
  shows "\<exists>s'. CKthreadTunnel a (Some ty) s = Some (CK_OK, s') \<and> sched_inv s' T"
proof (cases ty)
  case tt_Conservative
  have "sched_inv (CKcontextSwitch a s) T \<or> a \<noteq> currtask s" "sched_inv (quantumDone s) T"
    using s by (auto simp: sched_inv_def runner_ok_def sched_wf_def sched_at_def
      CKcontextSwitch_def quantumDone_def)
  then show ?thesis using v tt_Conservative by (auto simp: CKthreadTunnel_def)
next
  case tt_Unblocking
  obtain s1 where u: "CKunblockThread a s = Some s1" "sched_inv s1 T"
    using unblock_inv[OF s a] by blast
  then show ?thesis using v tt_Unblocking CKschedule_some[OF u(2)]
    by (auto simp: CKthreadTunnel_def)
next
  case tt_Swapping
  have w: "sched_wf (CKlock s) T" and c': "currtask (CKlock s) \<in> T" using s c by (simp_all add: sched_inv_def)
  obtain s1 s3 where p: "unheap (currtask (CKlock s)) (CKlock s) = Some s1"
      "(let s2 = set_thread (currtask s1) (\<lambda>t. t\<lparr>ts := ts_Blocked\<rparr>) s1 in
       (if ts (threads s2 a) = ts_Running then Some s2
        else do { s' \<leftarrow> unheap a s2; enheap ht_timesharing ts_Running None a s' }) = Some s3)"
      "sched_wf s3 T" "currtask s3 = currtask s" "idleLoop s3 = idleLoop s"
      "\<forall>b. b \<noteq> a \<longrightarrow> ts (threads s3 b) = (if b = currtask s then ts_Blocked else ts (threads s b))"
    using swap_states[OF w a c'] by auto
  have i: "idleLoop s \<notin> T" "ts (threads s (idleLoop s)) = ts_Idle" using s by (simp_all add: sched_inv_def)
  then have "idleLoop s \<noteq> a" "idleLoop s \<noteq> currtask s" using a c by auto
  then have "sched_inv (CKunlock s3) T"
    using p(3-6) i c by (simp add: sched_inv_def runner_ok_def)
  then obtain s' where "CKschedule (CKunlock s3) = Some s'" "sched_inv s' T"
    using CKschedule_some by blast
  then show ?thesis using v tt_Swapping p(1,2)
    by (auto simp: CKthreadTunnel_def Let_def bind_eq_Some_conv)
qed

section \<open>The scheduler's properties\<close>

text \<open>
  A kernel with two threads, 1 and 2, that time-share, for the examples. Thread 1 is
  running; 9 is the idle loop.
\<close>

definition two_threads :: "unit SCHED_scheme" where
  "two_threads = \<lparr>ckmem = one_block_mem,
     headers = (\<lambda>a. no_header\<lparr>objectSignature := (if a = 1 \<or> a = 2 then SIGTHREAD else 0), objectData := a\<rparr>),
     odg = empty_odg,
     threads = (\<lambda>a. if a = 1 then thread_of ts_Running 5 0 else if a = 2 then thread_of ts_Running 7 1
       else thread_of ts_Idle 0 0),
     uthreads = (\<lambda>_. \<lparr>u_self = 0, u_addressSpace = 0, u_parentKernel = 0, u_quantum = 0, u_defer = 0,
       u_time = 0, u_realtime = 0, u_interruptable = 0, userState = no_TSS\<rparr>),
     heaps = (\<lambda>h. if h = ht_timesharing then heap_of [1, 2] else heap_of []),
     currtask = 1, idleLoop = 9, zombietask = 8, lasttime = 5, realtime = 0, fudge = 0,
     doingRealtime = 0, schedLock = 0, irq_on = True, timer_latch = 0xFF00, timer_ports = [],
     tss_base = 1, soft_irq = False\<rparr>"

lemma two_threads_inv: "sched_inv two_threads {1, 2}"
proof -
  have "heap_wf (heap_of [1, 2]) (threads two_threads)" "heap_wf (heap_of []) (threads two_threads)"
    by (simp_all add: heap_eval two_threads_def)
  then have "sched_wf two_threads {1, 2}"
    by (auto simp: sched_wf_def sched_at_def heaps_ok_def two_threads_def MAXEVENTS_def)
  then show ?thesis by (simp add: sched_inv_def runner_ok_def two_threads_def)
qed

text \<open>C5: The scheduler returns for every state of its invariant and keeps the invariant: every
  thread stays in the one heap its state names. The thread it switches to is never blocked
  and is a known thread or the idle loop (sched.c, \<open>CKschedule\<close>).\<close>

theorem schedule_keeps_invariant:
  assumes "sched_inv s T"
  shows "\<exists>s'. CKschedule s = Some s' \<and> sched_inv s' T \<and> tss_base s' = currtask s'
    \<and> ts (threads s' (currtask s')) \<noteq> ts_Blocked \<and> (currtask s' \<in> T \<or> currtask s' = idleLoop s)
    \<and> lasttime s' = etime (threads s' (currtask s')) \<and> schedLock s' = 0"
  using CKschedule_some[OF assms] by blast

theorem schedule_keeps_invariant_witness:
  "\<exists>s'. CKschedule two_threads = Some s' \<and> sched_inv s' {1, 2} \<and> currtask s' \<in> {1, 2, 9}"
  using schedule_keeps_invariant[OF two_threads_inv] by (auto simp: two_threads_def)

text \<open>C19: The next task is the earliest realtime thread when that one is due, else the earliest
  timesharing thread, else the earliest idle thread, else the idle loop; and of its heap's
  threads none is due before it (sched.c, \<open>CKgetNextTask\<close>).\<close>

theorem next_task_choice:
  assumes "CKgetNextTask s = (e, p, s')" and "sched_inv s T"
    and "\<And>h. heap_ord (heaps s h) (threads s) \<and> times_in b (set (events_of (heaps s h))) (threads s)"
  shows "e = (if \<not> heap_empty ht_realtime s \<and> CLSE (next_time ht_realtime s - fudge s) (CKgetRealtime s)
      then next_event ht_realtime s
    else if \<not> heap_empty ht_timesharing s then next_event ht_timesharing s
    else if \<not> heap_empty ht_idle s then next_event ht_idle s else idleLoop s)
    \<and> (e \<in> T \<longrightarrow> (\<forall>a\<in>T. ts (threads s a) = ts (threads s e) \<longrightarrow> \<not> CLESS (etime (threads s a)) (etime (threads s e))))"
proof (intro conjI ballI impI)
  have wf: "sched_wf s T" and idle: "idleLoop s \<notin> T" using assms(2) by (simp_all add: sched_inv_def)
  show c: "e = (if \<not> heap_empty ht_realtime s \<and> CLSE (next_time ht_realtime s - fudge s) (CKgetRealtime s)
      then next_event ht_realtime s
    else if \<not> heap_empty ht_timesharing s then next_event ht_timesharing s
    else if \<not> heap_empty ht_idle s then next_event ht_idle s else idleLoop s)"
    by (rule CKgetNextTask_choice[OF assms(1)])
  fix a assume e: "e \<in> T" and a: "a \<in> T" "ts (threads s a) = ts (threads s e)"
  have "e \<noteq> idleLoop s" using e idle by auto
  then obtain h where h: "e = next_event h s" "\<not> heap_empty h s" using c by (auto split: if_splits)
  have m: "a \<in> set (events_of (heaps s h))"
    using a next_event_wf(2)[OF wf h(2)] h(1) sched_wf_heap(2)[OF wf] by simp
  show "\<not> CLESS (etime (threads s a)) (etime (threads s e))"
    using heap_root_min(1)[OF sched_wf_heap(1)[OF wf] conjunct1[OF assms(3)] conjunct2[OF assms(3)] m] h(1)
    by (simp add: CKgetNextTime_def)
qed

lemma two_threads_ord:
  "heap_ord (heaps two_threads h) (threads two_threads)
    \<and> times_in 0 (set (events_of (heaps two_threads h))) (threads two_threads)"
  by (simp add: two_threads_def heap_eval)

theorem next_task_choice_witness:
  "fst (CKgetNextTask two_threads) = 1"
proof -
  obtain e p s' where g: "CKgetNextTask two_threads = (e, p, s')" by (cases "CKgetNextTask two_threads")
  show ?thesis using next_task_choice[OF g two_threads_inv two_threads_ord]
    by (simp add: g) (simp add: two_threads_def CKisHeapEmpty_def CKgetNextEvent_def heap_of_def)
qed



text \<open>Tunnelling to a valid thread, whatever the kind of tunnel, returns no error and
  keeps the scheduler's invariant when the caller is a known thread (sched.c,
  \<open>CKthreadTunnel\<close>).\<close>

theorem thread_tunnel_keeps:
  assumes "sched_inv s T" and "a \<in> T" and "CKvalidThread a s" and "currtask s \<in> T"
  shows "\<exists>s'. CKthreadTunnel a (Some ty) s = Some (CK_OK, s') \<and> sched_inv s' T"
  using CKthreadTunnel_some[OF assms] .

theorem thread_tunnel_keeps_witness:
  "\<exists>s'. CKthreadTunnel 2 (Some tt_Swapping) two_threads = Some (CK_OK, s') \<and> sched_inv s' {1, 2}"
  by (rule thread_tunnel_keeps[OF two_threads_inv]) (simp_all add: two_threads_def CKvalidThread_def)

text \<open>C21: Setting the state of a valid thread gives it that state, moves it to the heap of that
  state and touches no other thread's; an invalid object or the realtime state is refused
  without a change to the heaps (sched.c, \<open>CKsetThreadState\<close>).\<close>

theorem set_thread_state:
  assumes "sched_wf s T" and "CKvalidThread a s \<longrightarrow> a \<in> T"
  shows "\<exists>r s'. CKsetThreadState a (Some st) s = Some (r, s') \<and> sched_wf s' T
    \<and> (if \<not> CKvalidThread a s then r = Some ENOVALIDTHREAD \<and> s' = s
       else if st = ts_RealTime then r = Some EINVALIDPARAMS \<and> threads s' = threads s \<and> heaps s' = heaps s
       else r = CK_OK \<and> ts (threads s' a) = st \<and> (\<forall>b. b \<noteq> a \<longrightarrow> ts (threads s' b) = ts (threads s b)))"
proof (cases "CKvalidThread a s \<and> st \<noteq> ts_RealTime")
  case True
  then show ?thesis using CKsetThreadState_ok[OF assms(1), of a st] assms(2) by auto
next
  case False
  then show ?thesis using assms(1) by (auto simp: CKsetThreadState_def Let_def)
qed

theorem set_thread_state_witness:
  "\<exists>r s'. CKsetThreadState 2 (Some ts_Blocked) two_threads = Some (r, s') \<and> sched_wf s' {1, 2}
    \<and> r = CK_OK \<and> ts (threads s' 2) = ts_Blocked"
proof -
  have "sched_wf two_threads {1, 2}" using two_threads_inv by (simp add: sched_inv_def)
  moreover have "CKvalidThread 2 two_threads" by (simp add: CKvalidThread_def two_threads_def)
  ultimately show ?thesis using set_thread_state[of two_threads "{1, 2}" 2 ts_Blocked] by auto
qed

text \<open>Blocking a thread takes it, and it alone, out of all heaps; unblocking it after
  that puts it into the timesharing heap with the time of the first thread there (sched.c,
  \<open>CKblockThread\<close>, \<open>CKunblockThread\<close>).\<close>

theorem block_unblock:
  assumes "sched_wf s T" and "a \<in> T"
  shows "\<exists>s1 s2. CKblockThread a s = Some s1 \<and> CKunblockThread a s1 = Some s2 \<and> sched_wf s1 T \<and> sched_wf s2 T
    \<and> (\<forall>h. set (events_of (heaps s1 h)) = set (events_of (heaps s h)) - {a})
    \<and> (\<forall>h. set (events_of (heaps s2 h)) = (if h = ht_timesharing then {a} else {}) \<union> set (events_of (heaps s1 h)))
    \<and> etime (threads s2 a) = (if heap_empty ht_timesharing s1 then 0 else next_time ht_timesharing s1)"
proof -
  obtain s1 where s1: "CKblockThread a s = Some s1" "sched_wf s1 T"
      "same_but_heap ((threads s)(a := (threads s a)\<lparr>ts := ts_Blocked\<rparr>)) (threads s1)"
    using CKblockThread_ok[OF assms] by blast
  have t1: "ts (threads s1 b) = (if b = a then ts_Blocked else ts (threads s b))" for b
    using same_but_heap_fields(2)[OF s1(3), of b] by simp
  obtain s2 where s2: "CKunblockThread a s1 = Some s2" "sched_wf s2 T"
      "same_but_heap ((threads s1)(a := (threads s1 a)
         \<lparr>etime := (if heap_empty ht_timesharing s1 then 0 else next_time ht_timesharing s1),
          ts := ts_Running\<rparr>)) (threads s2)"
    using CKunblockThread_ok[OF s1(2) assms(2)] unfolding t1[of a] if_P[OF refl] by blast
  have t2: "ts (threads s2 b) = (if b = a then ts_Running else ts (threads s1 b))" for b
    using same_but_heap_fields(2)[OF s2(3), of b] by simp
  have e: "etime (threads s2 a) = (if heap_empty ht_timesharing s1 then 0 else next_time ht_timesharing s1)"
    using same_but_heap_fields(1)[OF s2(3), of a] by simp
  have m1: "set (events_of (heaps s1 h)) = set (events_of (heaps s h)) - {a}" for h
    unfolding set_eq_iff Diff_iff sched_wf_heap(2)[OF s1(2)] sched_wf_heap(2)[OF assms(1)] t1 by auto
  have m2: "set (events_of (heaps s2 h)) = (if h = ht_timesharing then {a} else {}) \<union> set (events_of (heaps s1 h))" for h
    unfolding set_eq_iff Un_iff sched_wf_heap(2)[OF s2(2)] sched_wf_heap(2)[OF s1(2)] t2 t1 using assms(2) by auto
  show ?thesis using s1(1,2) s2(1,2) e m1 m2 by blast
qed

theorem block_unblock_witness:
  "\<exists>s1 s2. CKblockThread 2 two_threads = Some s1 \<and> CKunblockThread 2 s1 = Some s2 \<and> sched_wf s2 {1, 2}"
proof -
  have "sched_wf two_threads {1, 2}" using two_threads_inv by (simp add: sched_inv_def)
  then show ?thesis using block_unblock[of two_threads "{1, 2}" 2] by auto
qed

lemma low_half_add:
  fixes a b :: u32
  shows "take_bit 16 (a + take_bit 16 b) = take_bit 16 (a + b)"
proof -
  have l: "uint (take_bit 16 x) = uint x mod 2 ^ 16" for x :: u32
    unfolding unsigned_take_bit_eq by (rule take_bit_eq_mod)
  have p: "uint (x + y) mod 2 ^ 16 = (uint x + uint y) mod 2 ^ 16" for x y :: u32
    by (simp add: uint_word_ariths mod_mod_cancel)
  have "uint (take_bit 16 (a + take_bit 16 b)) = uint (take_bit 16 (a + b))"
    unfolding l p by (simp add: mod_add_right_eq)
  then show ?thesis by (simp only: word_uint_eq_iff)
qed

text \<open>The clock is moved on by less than one turn of the 16-bit timer, to the value whose
  low half is the complement of what the timer reads (realtime.h, \<open>CKupdateRealtime\<close>).\<close>

theorem clock_follows_timer:
  "unat (realtime (CKupdateRealtime s) - realtime s) < 2 ^ 16
    \<and> realtime (CKupdateRealtime s) AND 0xFFFF = - CKgetTimerValue s AND 0xFFFF"
proof -
  let ?d = "- (CKgetTimerValue s + realtime s) AND 0xFFFF"
  have r: "realtime (CKupdateRealtime s) = realtime s + ?d" by (simp add: CKupdateRealtime_def Let_def)
  have m: "x AND 0xFFFF = take_bit 16 x" for x :: u32 by (simp add: take_bit_eq_mask mask_eq_exp_minus_1)
  have "unat ?d < 2 ^ 16" unfolding m by (simp add: unsigned_take_bit_eq take_bit_nat_def)
  moreover have "take_bit 16 (realtime s + take_bit 16 (- (CKgetTimerValue s + realtime s)))
      = take_bit 16 (realtime s + - (CKgetTimerValue s + realtime s))"
    by (rule low_half_add)
  ultimately show ?thesis unfolding r m by simp
qed

end
