(* ===== verification/CK_State.thy ===== *)
theory CK_State
  imports CK_SchedInv
begin

text \<open>
  The state of the whole Cache Kernel: the scheduler's state extended by the kernel memory
  that holds page tables, the object stores of \<^verbatim>\<open>ckobjects.h\<close> and \<^verbatim>\<open>objects.h\<close>, the shared
  memory structures of \<^verbatim>\<open>shmem.h\<close>, the resources of \<^verbatim>\<open>ckresource.h\<close> and \<^verbatim>\<open>resource.h\<close>, and
  the machine's interrupt table and masks. A store maps the address of a structure to its
  contents; the sizes are those of the packed structures.
\<close>

section \<open>Objects (ckobjects.h, objects.h)\<close>

record CKAddrSpcObject =
  a_parentKernel :: addr
  addrSpc :: addr

record CKKernelObject =
  k_addrSpace :: addr
  sigHandler :: addr
  physregion_res :: addr

record AddrSpcObject =
  ua_self :: addr
  ua_parentKernel :: addr

record KernelObject =
  uk_self :: addr
  uk_addrSpace :: addr
  uk_sigHandler :: addr

definition SIGADDRSPC :: u32 where
  "SIGADDRSPC = 0x416c4f41"

definition SIGKERNEL :: u32 where
  "SIGKERNEL = 0x416c4f4b"

definition SIGSHMEM :: u32 where
  "SIGSHMEM = 0x416c4f53"

definition OFLOCKED :: u32 where
  "OFLOCKED = 1"

section \<open>Shared memory (shmem.h)\<close>

record SHTHREADLIST =
  sh_next :: addr
  sh_thread :: addr
  sh_logicalAddr :: addr
  sh_size :: u32

record SHMEMOBJ =
  sm_mutex :: CKMutex
  sm_owner :: addr
  sm_dead :: bool
  sm_logicalAddr :: addr
  sm_size :: u32
  firstInvited :: addr
  lastInvited :: addr
  firstThread :: addr
  lastThread :: addr

section \<open>Resources (ckresource.h, resource.h)\<close>

text \<open>The header all resources share, and the data of each kind.\<close>

record CKResource =
  r_sig :: u32
  r_owner :: addr
  r_next :: addr
  r_prev :: addr
  r_flags :: u32

record CKIOregionAlloc =
  io_base :: u32
  io_limit :: u32
  io_prevAlloc :: addr
  io_nextAlloc :: addr

record CKTrapAlloc =
  tr_trap :: u32
  tr_sigThread :: addr
  tr_priority :: u32
  ntp :: addr
  tr_stub :: addr
  tr_stubsize :: u32
  tr_retrostub :: addr

record CKPhysRegionAlloc =
  ph_start :: addr
  ph_length :: u32

text \<open>The loader's structure: the words behind the type, by what each kind calls them.\<close>

record Resource =
  typeSignature :: u32
  res_0 :: u32
  res_1 :: u32
  res_2 :: u32

definition SIGPHYSREGION :: u32 where
  "SIGPHYSREGION = 0x416c5250"

definition SIGTRAP :: u32 where
  "SIGTRAP = 0x416c5254"

definition SIGDMA :: u32 where
  "SIGDMA = 0x416c5244"

definition SIGIOREGION :: u32 where
  "SIGIOREGION = 0x416c5249"

abbreviation DMACHANNELS :: u32 where
  "DMACHANNELS \<equiv> 8"

abbreviation PAGEBLOCKBITS :: nat where
  "PAGEBLOCKBITS \<equiv> 17"

abbreviation PAGEBLOCKSIZE :: u32 where
  "PAGEBLOCKSIZE \<equiv> 0x20000"

abbreviation KSTACKSIZE :: u32 where
  "KSTACKSIZE \<equiv> 8192"

text \<open>Sizes of the packed structures, in bytes.\<close>

definition sizeof_CKThreadObject :: u32 where "sizeof_CKThreadObject = 296"

definition sizeof_ThreadObject :: u32 where "sizeof_ThreadObject = 260"

definition sizeof_CKAddrSpcObject :: u32 where "sizeof_CKAddrSpcObject = 44"

definition sizeof_CKKernelObject :: u32 where "sizeof_CKKernelObject = 48"

definition sizeof_CKSHMemObject :: u32 where "sizeof_CKSHMemObject = 40"

definition sizeof_SHMEMOBJ :: u32 where "sizeof_SHMEMOBJ = 36"

definition sizeof_SHTHREADLIST :: u32 where "sizeof_SHTHREADLIST = 16"

definition sizeof_SIGNAL :: u32 where "sizeof_SIGNAL = 20"

definition sizeof_CKIOregionAlloc :: u32 where "sizeof_CKIOregionAlloc = 36"

definition sizeof_CKDMAchannelAlloc :: u32 where "sizeof_CKDMAchannelAlloc = 24"

definition sizeof_CKTrapAlloc :: u32 where "sizeof_CKTrapAlloc = 48"

definition sizeof_TrapAlloc :: u32 where "sizeof_TrapAlloc = 16"

definition sizeof_CKPhysRegionAlloc :: u32 where "sizeof_CKPhysRegionAlloc = 28"

lemmas sizeofs = sizeof_CKThreadObject_def sizeof_ThreadObject_def sizeof_CKAddrSpcObject_def
  sizeof_CKKernelObject_def sizeof_CKSHMemObject_def sizeof_SHMEMOBJ_def sizeof_SHTHREADLIST_def
  sizeof_SIGNAL_def sizeof_CKIOregionAlloc_def sizeof_CKDMAchannelAlloc_def sizeof_CKTrapAlloc_def
  sizeof_TrapAlloc_def sizeof_CKPhysRegionAlloc_def

section \<open>The interrupt table (gdt.h)\<close>

record x86Gate =
  offset_low :: "16 word"
  selector :: "16 word"
  access :: "16 word"
  offset_high :: "16 word"

section \<open>The state\<close>

text \<open>
  \<open>kmem\<close> are the words of the kernel's linear memory that hold page tables and stacks, and
  \<open>kcode\<close> the bytes that hold generated code. \<open>kernelPageDir\<close> is \<open>kernelAddrSpc.pageDir\<close>.
  \<open>fpu\<close> is the coprocessor's register file, \<open>cr0_ts\<close> the task-switched flag.
\<close>

record KERNEL = SCHED +
  kmem :: "addr \<Rightarrow> u32"
  kernelPageDir :: addr
  addrspcs :: "addr \<Rightarrow> CKAddrSpcObject"
  kernels :: "addr \<Rightarrow> CKKernelObject"
  shobjs :: "addr \<Rightarrow> addr"
  shmems :: "addr \<Rightarrow> SHMEMOBJ"
  shlists :: "addr \<Rightarrow> SHTHREADLIST"
  uaddrspcs :: "addr \<Rightarrow> AddrSpcObject"
  ukernels :: "addr \<Rightarrow> KernelObject"
  ushmems :: "addr \<Rightarrow> addr"
  sysObjManLock :: CKMutex
  kernelObjHead :: addr
  threadObjHead :: addr
  addrSpcObjHead :: addr
  shMemObjHead :: addr
  lastFPUUser :: addr
  fpu :: "u32 list"
  fpu_saved :: "addr \<Rightarrow> u32 list"
  cr0_ts :: bool
  tlb_flushes :: nat

record RKERNEL = KERNEL +
  cres :: "addr \<Rightarrow> CKResource"
  uresources :: "addr \<Rightarrow> Resource"
  resourceAllocLock :: CKMutex
  IOfirstAlloc :: addr
  ioregions :: "addr \<Rightarrow> CKIOregionAlloc"
  IOAllocLock :: CKMutex
  DMAallocationMap :: "u32 list"
  dmachannels :: "addr \<Rightarrow> u32"
  trapHeads :: "addr list"
  traps :: "addr \<Rightarrow> CKTrapAlloc"
  physregions :: "addr \<Rightarrow> CKPhysRegionAlloc"
  IDT :: "x86Gate list"
  kcode :: "addr \<Rightarrow> u8"
  IRQMaskMaster :: u8
  IRQMaskSlave :: u8
  imr_ports :: "u8 \<times> u8"

definition CKvalidAddrSpc :: "addr \<Rightarrow> 'a SCHED_scheme \<Rightarrow> bool" where
  "CKvalidAddrSpc vertex s \<longleftrightarrow> objectSignature (headers s vertex) = SIGADDRSPC"

definition CKvalidKernel :: "addr \<Rightarrow> 'a SCHED_scheme \<Rightarrow> bool" where
  "CKvalidKernel vertex s \<longleftrightarrow> objectSignature (headers s vertex) = SIGKERNEL"

definition CKvalidSHMem :: "addr \<Rightarrow> 'a SCHED_scheme \<Rightarrow> bool" where
  "CKvalidSHMem vertex s \<longleftrightarrow> objectSignature (headers s vertex) = SIGSHMEM"

text \<open>Calling the memory manager, and changing a structure in its store.\<close>

definition with_mem :: "(CKMEM \<Rightarrow> ('r \<times> CKMEM) option) \<Rightarrow> 'a SCHED_scheme \<Rightarrow> ('r \<times> 'a SCHED_scheme) option" where
  "with_mem f s = map_option (\<lambda>(r, m). (r, s\<lparr>ckmem := m\<rparr>)) (f (ckmem s))"

definition with_free :: "addr \<Rightarrow> u32 \<Rightarrow> 'a SCHED_scheme \<Rightarrow> 'a SCHED_scheme option" where
  "with_free a n s = map_option (\<lambda>m. s\<lparr>ckmem := m\<rparr>) (CKmemFree a n (ckmem s))"

abbreviation set_header :: "addr \<Rightarrow> (ObjectHeader \<Rightarrow> ObjectHeader) \<Rightarrow> 'a SCHED_scheme \<Rightarrow> 'a SCHED_scheme" where
  "set_header a f s \<equiv> s\<lparr>headers := (headers s)(a := f (headers s a))\<rparr>"

section \<open>A small system\<close>

text \<open>Two timesharing threads, a kernel memory of one free page, and nothing else.\<close>

definition small_kernel :: KERNEL where
  "small_kernel = SCHED.extend two_threads (KERNEL.fields (\<lambda>_. 0) 0
     (\<lambda>_. \<lparr>a_parentKernel = 0, addrSpc = 0\<rparr>) (\<lambda>_. \<lparr>k_addrSpace = 0, sigHandler = 0x7000, physregion_res = 0\<rparr>)
     (\<lambda>_. 0) (\<lambda>_. \<lparr>sm_mutex = 0, sm_owner = 0, sm_dead = False, sm_logicalAddr = 0, sm_size = 0,
        firstInvited = 0, lastInvited = 0, firstThread = 0, lastThread = 0\<rparr>)
     (\<lambda>_. \<lparr>sh_next = 0, sh_thread = 0, sh_logicalAddr = 0, sh_size = 0\<rparr>)
     (\<lambda>_. \<lparr>ua_self = 0, ua_parentKernel = 0\<rparr>) (\<lambda>_. \<lparr>uk_self = 0, uk_addrSpace = 0, uk_sigHandler = 0\<rparr>)
     (\<lambda>_. 0) 0 0 0 0 0 0 [] (\<lambda>_. []) False 0)"

lemma small_kernel_sched [simp]:
  "ckmem small_kernel = one_block_mem" "threads small_kernel = threads two_threads"
  "headers small_kernel = headers two_threads" "currtask small_kernel = 1" "idleLoop small_kernel = 9"
  "heaps small_kernel = heaps two_threads" "uthreads small_kernel = uthreads two_threads"
  "odg small_kernel = odg two_threads"
  by (simp_all add: small_kernel_def SCHED.defs KERNEL.defs two_threads_def)

lemma small_kernel_fields [simp]:
  "kmem small_kernel = (\<lambda>_. 0)" "sysObjManLock small_kernel = 0" "kernelObjHead small_kernel = 0"
  "threadObjHead small_kernel = 0" "addrSpcObjHead small_kernel = 0" "shMemObjHead small_kernel = 0"
  "kernelPageDir small_kernel = 0" "shlists small_kernel a = \<lparr>sh_next = 0, sh_thread = 0, sh_logicalAddr = 0, sh_size = 0\<rparr>"
  by (simp_all add: small_kernel_def SCHED.defs KERNEL.defs)

lemma small_kernel_inv: "sched_inv small_kernel {1, 2}"
  using two_threads_inv
  by (simp add: sched_inv_def sched_wf_def sched_at_def runner_ok_def small_kernel_def SCHED.defs)

end
