(* ===== verification/CK_Signal.thy ===== *)
theory CK_Signal
  imports CK_State
begin

text \<open>
  Signals: \<^verbatim>\<open>CK/signal.c\<close>, and their forwarding to a kernel's handler and the end of a
  signal in \<^verbatim>\<open>CK/architecture/I80X86/kernel.c\<close>. A thread's queue of pending signals is the
  list \<open>signals\<close> of its object; every node is a block of kernel memory.
\<close>

section \<open>Sending a signal (signal.c)\<close>

text \<open>The walk of the loop from a node that stays in front of the new one.\<close>

fun sig_walk :: "SIGNAL \<Rightarrow> SIGNAL list \<Rightarrow> SIGNAL list" where
  "sig_walk new [] = [new]"
| "sig_walk new (x # xs) =
     (if sig_priority x \<le> sig_priority new then x # sig_walk new xs else new # x # xs)"

fun sig_enqueue :: "SIGNAL \<Rightarrow> SIGNAL list \<Rightarrow> SIGNAL list" where
  "sig_enqueue new [] = [new]"
| "sig_enqueue new (x # xs) =
     (if sig_priority new < sig_priority x then new # x # xs else x # sig_walk new xs)"

definition CKsendSignal :: "addr \<Rightarrow> u32 \<Rightarrow> u32 \<Rightarrow> u32 \<Rightarrow> 'a SCHED_scheme \<Rightarrow> (ckresult \<times> 'a SCHED_scheme) option" where
  "CKsendSignal thread signal extra priority s =
     do {
       (newsig, s1) \<leftarrow> with_mem (CKmemAlloc sizeof_SIGNAL) s;
       if newsig = NIL then Some (Some ENOMEM, s1)
       else
         let sg = \<lparr>sig_addr = newsig, sig_signal = signal AND NOT SFBUSY, sig_extra = extra,
                   sig_priority = priority, sig_sender = currtask s1\<rparr>;
             s2 = set_thread thread (\<lambda>t. t\<lparr>signals := sig_enqueue sg (signals t)\<rparr>) s1
         in if ts (threads s2 thread) = ts_Blocked
            then map_option (\<lambda>s3. (CK_OK, s3)) (CKunblockThread thread s2)
            else Some (CK_OK, s2)
     }"

section \<open>The end of a signal (kernel.c)\<close>

abbreviation KCODE :: u32 where "KCODE \<equiv> 0x8"
abbreviation KDATA :: u32 where "KDATA \<equiv> 0x10"
abbreviation EKCODE :: u32 where "EKCODE \<equiv> 0x19"
abbreviation EKDATA :: u32 where "EKDATA \<equiv> 0x21"
abbreviation USERCODE :: u32 where "USERCODE \<equiv> 0x2b"
abbreviation USERDATA :: u32 where "USERDATA \<equiv> 0x33"
abbreviation STDFLAGS :: u32 where "STDFLAGS \<equiv> 0x3202"

definition sig_busy :: "SIGNAL \<Rightarrow> bool" where
  "sig_busy sg \<longleftrightarrow> sig_signal sg AND SFBUSY \<noteq> 0"

definition set_busy :: "SIGNAL \<Rightarrow> SIGNAL" where
  "set_busy sg = sg\<lparr>sig_signal := sig_signal sg OR SFBUSY\<rparr>"

abbreviation set_esp0 :: "addr \<Rightarrow> u32 \<Rightarrow> 'a SCHED_scheme \<Rightarrow> 'a SCHED_scheme" where
  "set_esp0 a v \<equiv> set_thread a (\<lambda>t. t\<lparr>taskState := (taskState t)\<lparr>tss_esp0 := v\<rparr>\<rparr>)"

text \<open>
  The result is 0 when the next signal is to be started, otherwise the stack to return on,
  with the caller's \<open>eax\<close> put there.
\<close>

definition CKendOfSignal :: "u32 \<Rightarrow> addr \<Rightarrow> 'a KERNEL_scheme \<Rightarrow> (addr \<times> 'a KERNEL_scheme) option" where
  "CKendOfSignal eax esp s =
     (let c = currtask s in
      do {
        s1 \<leftarrow> (case signals (threads s c) of
            [] \<Rightarrow> Some s
          | sg # sgs \<Rightarrow>
              if sig_busy sg
              then with_free (sig_addr sg) sizeof_SIGNAL (set_thread c (\<lambda>t. t\<lparr>signals := sgs\<rparr>) s)
              else Some s);
        let done = (\<lambda>s1.
              let (esp', s2) = (if kmem s1 (esp + 8) = KDATA
                                then (kmem s1 (esp + 12), set_esp0 c (kmem s1 esp) s1)
                                else (esp, s1))
              in (esp' + 4, s2\<lparr>kmem := (kmem s2)(esp' + 4 := eax)\<rparr>));
        case signals (threads s1 c) of
          [] \<Rightarrow> Some (done s1)
        | sg # sgs \<Rightarrow>
            if sig_busy sg then Some (done s1)
            else Some (0, set_thread c (\<lambda>t. t\<lparr>signals := set_busy sg # sgs\<rparr>) s1)
      })"

section \<open>Forwarding a signal and an interrupt (kernel.c)\<close>

record regs =
  ebx :: u32
  esi :: u32
  edi :: u32
  ebp :: u32
  ecx :: u32
  edx :: u32
  eax :: u32

primrec put_words :: "addr \<Rightarrow> u32 list \<Rightarrow> (addr \<Rightarrow> u32) \<Rightarrow> addr \<Rightarrow> u32" where
  "put_words a [] m = m"
| "put_words a (w # ws) m = put_words (a + 4) ws (m(a := w))"

definition EOScode :: u32 where
  "EOScode = 0xfceb6acd"

text \<open>
  The frame on the kernel's stack and where it starts: words 14 to 21, or 14 to 17 for a
  thread that was in the Cache Kernel; \<open>ds_at\<close> is the address of the argument \<open>ds\<close> on the
  stack of the Cache Kernel.
\<close>

definition frame_place ::
  "u32 \<Rightarrow> u32 \<Rightarrow> u32 \<Rightarrow> u32 \<Rightarrow> addr \<Rightarrow> u32 \<Rightarrow> addr \<Rightarrow> 'a KERNEL_scheme \<Rightarrow> addr \<times> 'a KERNEL_scheme" where
  "frame_place ds eip cs eflags esp ss ds_at s =
     (let c = currtask s; tss = taskState (threads s c);
          far = (\<lambda>base. let sp = base - 22 * 4 in
            (sp, s\<lparr>kmem := put_words (sp + 15 * 4)
               [EOScode, ds, eip, cs AND 0xffff, eflags, esp, ss AND 0xffff] (kmem s)\<rparr>))
      in if cs AND 0xffff = EKCODE then far esp
         else if cs AND 0xffff = KCODE then
           (let base = (if kmem s (tss_esp0 tss - 4) AND 0xffff = EKDATA
                        then kmem s (tss_esp0 tss - 8) else tss_esp1 tss);
                sp = base - 18 * 4
            in (sp, set_esp0 c ds_at
                  (s\<lparr>kmem := put_words (sp + 14 * 4) [tss_esp0 tss, EOScode, KDATA, ds_at - 8] (kmem s)\<rparr>)))
         else far (tss_esp1 tss))"

text \<open>The stack pointer and the entry point of the handler that the feigned return goes to.\<close>

definition CKsignal ::
  "regs \<Rightarrow> u32 \<Rightarrow> u32 \<Rightarrow> u32 \<Rightarrow> u32 \<Rightarrow> addr \<Rightarrow> u32 \<Rightarrow> addr \<Rightarrow> 'a KERNEL_scheme \<Rightarrow> addr \<times> addr \<times> 'a KERNEL_scheme" where
  "CKsignal r ds eip cs eflags esp ss ds_at s =
     (let c = currtask s; u = objectData (headers s c);
          s1 = set_uthread u (\<lambda>x. x\<lparr>u_interruptable := u_interruptable x + 1\<rparr>) s;
          (sp, s2) = frame_place ds eip cs eflags esp ss ds_at s1;
          sg = hd (signals (threads s2 c));
          s3 = s2\<lparr>kmem := put_words sp
            [sig_signal sg AND NOT SFBUSY, sig_extra sg, sig_sender sg,
             ebx r, esi r, edi r, ebp r, ecx r, edx r, eax r,
             EKDATA, sp + 15 * 4, EKCODE, STDFLAGS] (kmem s2)\<rparr>;
          s4 = set_uthread u (\<lambda>x. x\<lparr>u_interruptable := u_interruptable x - 1\<rparr>) (CKlock s3)
      in (sp, sigHandler (kernels s4 (parentKernel (threads s4 c))), s4))"

text \<open>
  The interrupt's frame. The stack pointer and segment saved on the Cache Kernel's own stack
  are changed for a signal that comes in between; the last two results are their new values.
\<close>

definition SIGNLINT :: u32 where
  "SIGNLINT = 1"

definition CKforwardLocalInterrupt ::
  "u32 \<Rightarrow> regs \<Rightarrow> u32 \<Rightarrow> u32 \<Rightarrow> u32 \<Rightarrow> u32 \<Rightarrow> addr \<Rightarrow> u32 \<Rightarrow> 'a KERNEL_scheme
     \<Rightarrow> addr \<times> addr \<times> 'a KERNEL_scheme \<times> addr \<times> u32" where
  "CKforwardLocalInterrupt ds r intr eip cs eflags sp ss s =
     (let c = currtask s; kernelsp = tss_esp1 (taskState (threads s c)) - 16 * 4;
          s1 = s\<lparr>kmem := put_words kernelsp
            [SIGNLINT, intr, c, ebx r, esi r, edi r, ebp r, ecx r, edx r, eax r,
             ds AND 0xffff, eip, cs AND 0xffff, eflags, sp, ss] (kmem s)\<rparr>
      in (kernelsp, sigHandler (kernels s1 (parentKernel (threads s1 c))), s1, kernelsp, EKDATA))"

section \<open>The queue\<close>

abbreviation prios :: "SIGNAL list \<Rightarrow> u32 list" where
  "prios \<equiv> map sig_priority"

lemma sig_walk_split:
  "sig_walk new xs = takeWhile (\<lambda>x. sig_priority x \<le> sig_priority new) xs @ new
     # dropWhile (\<lambda>x. sig_priority x \<le> sig_priority new) xs"
  by (induction xs) simp_all

lemma sig_enqueue_split:
  "sig_enqueue new xs = takeWhile (\<lambda>x. sig_priority x \<le> sig_priority new) xs @ new
     # dropWhile (\<lambda>x. sig_priority x \<le> sig_priority new) xs"
  by (cases xs) (auto simp: sig_walk_split)

lemma sig_enqueue_sorted: "sorted (prios xs) \<Longrightarrow> sorted (prios (sig_enqueue new xs))"
proof (induction xs)
  case (Cons x xs)
  then have "sorted (prios (sig_enqueue new xs))" by simp
  moreover have "\<forall>y\<in>set (sig_enqueue new xs). sig_priority x \<le> sig_priority y"
    if "sig_priority x \<le> sig_priority new"
    using Cons.prems that
    by (auto simp: sig_enqueue_split dest!: set_takeWhileD set_dropWhileD)
  ultimately show ?case using Cons.prems by (auto simp: sig_enqueue_split)
qed simp

lemma sig_sorted_behind:
  "sorted (prios xs) \<Longrightarrow> \<forall>x\<in>set (dropWhile (\<lambda>x. sig_priority x \<le> p) xs). p < sig_priority x"
  by (induction xs) (auto dest: set_dropWhileD)

text \<open>Sending a signal keeps the scheduler's invariant and wakes the thread up.\<close>

lemma with_mem_Some: "with_mem f s = Some (r, s') \<longleftrightarrow> (\<exists>m. f (ckmem s) = Some (r, m) \<and> s' = s\<lparr>ckmem := m\<rparr>)"
  by (auto simp: with_mem_def)

lemma sched_wf_ckmem [simp]:
  "sched_wf (s\<lparr>ckmem := m\<rparr>) T = sched_wf s T" "sched_inv (s\<lparr>ckmem := m\<rparr>) T = sched_inv s T"
  by (simp_all add: sched_wf_def sched_at_def sched_inv_def runner_ok_def)

lemma sched_wf_signals:
  assumes "sched_wf s T" shows "sched_wf (set_thread a (\<lambda>t. t\<lparr>signals := f t\<rparr>) s) T"
  by (rule sched_wfI[OF set_thread_at[OF assms[unfolded sched_wf_def]]]) simp_all

lemma sched_inv_signals:
  assumes "sched_inv s T" shows "sched_inv (set_thread a (\<lambda>t. t\<lparr>signals := f t\<rparr>) s) T"
  using assms sched_wf_signals[of s T a f] by (auto simp: sched_inv_def runner_ok_def)

lemma unblock_fields:
  assumes "sched_inv s T" "a \<in> T" "ts (threads s a) = ts_Blocked"
  shows "\<exists>s'. CKunblockThread a s = Some s' \<and> sched_inv s' T \<and> rest_kept s s'
    \<and> (\<forall>x. signals (threads s' x) = signals (threads s x)
          \<and> ts (threads s' x) = (if x = a then ts_Running else ts (threads s x)))"
proof -
  have w: "sched_wf s T" using assms(1) by (simp add: sched_inv_def)
  obtain s' where u: "CKunblockThread a s = Some s'" "sched_inv s' T" "rest_kept s s'"
    using unblock_inv[OF assms(1,2)] by blast
  have "same_but_heap ((threads s)(a := (threads s a)
         \<lparr>etime := (if heap_empty ht_timesharing s then 0 else next_time ht_timesharing s),
          ts := ts_Running\<rparr>)) (threads s')"
    using CKunblockThread_ok[OF w assms(2)] u(1) unfolding assms(3) if_P[OF refl] by auto
  note f = same_but_heap_fields(2,4)[OF this]
  show ?thesis using u f by auto
qed

lemma CKsendSignal_some:
  assumes inv: "sched_inv s T" and a: "a \<in> T" and m: "CKmem_ok (ckmem s)"
  shows "\<exists>r s'. CKsendSignal a sig extra prio s = Some (r, s') \<and> sched_inv s' T \<and> CKmem_ok (ckmem s')
    \<and> headers s' = headers s \<and> currtask s' = currtask s \<and> idleLoop s' = idleLoop s \<and> SCHED.more s' = SCHED.more s
    \<and> (r = Some ENOMEM \<and> s' = s
       \<or> r = CK_OK \<and> ts (threads s' a) \<noteq> ts_Blocked
         \<and> (\<exists>new. signals (threads s' a) = sig_enqueue \<lparr>sig_addr = new, sig_signal = sig AND NOT SFBUSY,
              sig_extra = extra, sig_priority = prio, sig_sender = currtask s\<rparr> (signals (threads s a)))
         \<and> (\<forall>b. b \<noteq> a \<longrightarrow> signals (threads s' b) = signals (threads s b) \<and> ts (threads s' b) = ts (threads s b)))"
proof -
  have n: "CKmem_sound sizeof_SIGNAL" by (simp add: CKmem_sound_def sizeofs)
  obtain r m' where al: "CKmemAlloc sizeof_SIGNAL (ckmem s) = Some (r, m')" "CKmem_ok m'"
    using ck.alloc_returns[OF m n] by blast
  show ?thesis
  proof (cases "r = NIL")
    case True
    then have "m' = ckmem s" using ck.alloc_fail[OF m n] al(1) by simp
    then show ?thesis using True al m inv by (simp add: CKsendSignal_def with_mem_def)
  next
    case False
    let ?sg = "\<lparr>sig_addr = r, sig_signal = sig AND NOT SFBUSY, sig_extra = extra, sig_priority = prio,
      sig_sender = currtask s\<rparr>"
    let ?s2 = "set_thread a (\<lambda>t. t\<lparr>signals := sig_enqueue ?sg (signals t)\<rparr>) (s\<lparr>ckmem := m'\<rparr>)"
    have i2: "sched_inv ?s2 T" by (rule sched_inv_signals) (use inv in simp)
    have st: "signals (threads ?s2 a) = sig_enqueue ?sg (signals (threads s a))"
        "\<And>b. b \<noteq> a \<Longrightarrow> signals (threads ?s2 b) = signals (threads s b)"
        "\<And>b. ts (threads ?s2 b) = ts (threads s b)" by simp_all
    have e: "CKsendSignal a sig extra prio s = (if ts (threads ?s2 a) = ts_Blocked
        then map_option (\<lambda>s3. (CK_OK, s3)) (CKunblockThread a ?s2) else Some (CK_OK, ?s2))"
      using al(1) False by (simp add: CKsendSignal_def with_mem_def Let_def)
    show ?thesis
    proof (cases "ts (threads s a) = ts_Blocked")
      case False
      then have "CKsendSignal a sig extra prio s = Some (CK_OK, ?s2)" using e by simp
      moreover have "ts (threads ?s2 a) \<noteq> ts_Blocked" "CKmem_ok (ckmem ?s2)" "headers ?s2 = headers s"
          "currtask ?s2 = currtask s" "idleLoop ?s2 = idleLoop s" "SCHED.more ?s2 = SCHED.more s"
          "\<forall>b. b \<noteq> a \<longrightarrow> signals (threads ?s2 b) = signals (threads s b) \<and> ts (threads ?s2 b) = ts (threads s b)"
        using False al(2) st by simp_all
      ultimately show ?thesis using i2 st(1) by blast
    next
      case b: True
      have b2: "ts (threads ?s2 a) = ts_Blocked" using b st(3) by simp
      obtain s' where u: "CKunblockThread a ?s2 = Some s'" "sched_inv s' T" "rest_kept ?s2 s'"
          "\<forall>x. signals (threads s' x) = signals (threads ?s2 x)
            \<and> ts (threads s' x) = (if x = a then ts_Running else ts (threads ?s2 x))"
        using unblock_fields[OF i2 a b2] by blast
      have r: "CKsendSignal a sig extra prio s = Some (CK_OK, s')" using e b2 u(1) by simp
      have "ts (threads s' a) \<noteq> ts_Blocked"
          "signals (threads s' a) = sig_enqueue ?sg (signals (threads s a))"
          "\<forall>x. x \<noteq> a \<longrightarrow> signals (threads s' x) = signals (threads s x) \<and> ts (threads s' x) = ts (threads s x)"
        using u(4) st by simp_all
      moreover have "CKmem_ok (ckmem s')" "headers s' = headers s" "currtask s' = currtask s"
          "idleLoop s' = idleLoop s" "SCHED.more s' = SCHED.more s"
        using u(3) al(2) by (simp_all add: rest_kept_def)
      ultimately show ?thesis using r u(2) by blast
    qed
  qed
qed

lemma sig_node_free:
  assumes "CKmem_ok m" and "a \<noteq> NIL" and "unat a + 20 \<le> 2 ^ 32 - 8" and "bytes a (AdjustSize sizeof_SIGNAL) \<inter> CKmem_avail m = {}"
  shows "\<exists>m'. CKmemFree a sizeof_SIGNAL m = Some m' \<and> CKmem_ok m'"
proof -
  have "AdjustSize sizeof_SIGNAL = 24" by (simp add: AdjustSize_def sizeofs)
  then have "unat a + unat (AdjustSize sizeof_SIGNAL) \<le> 2 ^ 32" using assms(3) by simp
  moreover have "CKmem_sound sizeof_SIGNAL" by (simp add: CKmem_sound_def sizeofs)
  ultimately show ?thesis using ck.free_block[OF assms(1) _ assms(2)] assms(4) by blast
qed

lemma frame_place_far:
  assumes "frame_place ds eip cs eflags esp ss ds_at s = (sp, s2)" and "cs AND 0xffff \<noteq> KCODE"
  shows "s2 = s\<lparr>kmem := put_words (sp + 60) [EOScode, ds, eip, cs AND 0xffff, eflags, esp, ss AND 0xffff] (kmem s)\<rparr>"
  using assms by (auto simp: frame_place_def Let_def split: if_splits)

lemma frame_place_near:
  assumes "frame_place ds eip cs eflags esp ss ds_at s = (sp, s2)" and "cs AND 0xffff = KCODE"
  shows "s2 = set_esp0 (currtask s) ds_at
    (s\<lparr>kmem := put_words (sp + 56) [tss_esp0 (taskState (threads s (currtask s))), EOScode, KDATA, ds_at - 8] (kmem s)\<rparr>)"
  using assms by (auto simp: frame_place_def Let_def split: if_splits)

text \<open>The words of the frame behind the ones all frames share.\<close>

lemma CKsignal_frame:
  assumes "CKsignal r ds eip cs eflags esp ss ds_at s = (sp, handler, s1)"
  shows "if cs AND 0xffff = KCODE
     then map (\<lambda>i. kmem s1 (sp + i)) [56, 60, 64, 68] = [tss_esp0 (taskState (threads s (currtask s))), EOScode, KDATA, ds_at - 8]
       \<and> tss_esp0 (taskState (threads s1 (currtask s))) = ds_at
     else map (\<lambda>i. kmem s1 (sp + i)) [60, 64, 68, 72, 76, 80, 84]
           = [EOScode, ds, eip, cs AND 0xffff, eflags, esp, ss AND 0xffff]
       \<and> threads s1 = threads s"
proof -
  let ?s0 = "set_uthread (objectData (headers s (currtask s))) (\<lambda>x. x\<lparr>u_interruptable := u_interruptable x + 1\<rparr>) s"
  obtain sp' s2 where f: "frame_place ds eip cs eflags esp ss ds_at ?s0 = (sp', s2)"
    by (cases "frame_place ds eip cs eflags esp ss ds_at ?s0")
  let ?sg = "hd (signals (threads s2 (currtask s)))"
  let ?ws = "[sig_signal ?sg AND NOT SFBUSY, sig_extra ?sg, sig_sender ?sg, ebx r, esi r, edi r, ebp r, ecx r,
     edx r, eax r, EKDATA, sp + 15 * 4, EKCODE, STDFLAGS]"
  have s1: "sp' = sp" "threads s1 = threads s2" and ws: "kmem s1 = put_words sp ?ws (kmem s2)"
    using assms unfolding CKsignal_def Let_def f by (auto simp: CKlock_def simp del: put_words.simps)
  have out: "kmem s1 (sp + i) = kmem s2 (sp + i)" if "i \<in> {56, 60, 64, 68, 72, 76, 80, 84}" for i
    using that unfolding ws by auto
  show ?thesis
  proof (cases "cs AND 0xffff = KCODE")
    case True
    note frame_place_near[OF f True, unfolded s1(1)]
    then show ?thesis using True out s1(2) by simp
  next
    case False
    note frame_place_far[OF f False, unfolded s1(1)]
    then show ?thesis using False out s1(2) by simp
  qed
qed

section \<open>The properties of signals\<close>

text \<open>C9: Sending a signal returns; without memory it changes nothing. Otherwise the queue stays
  sorted, the new signal stands behind all signals of its priority or a more urgent one and
  before all others, the thread is no longer blocked, no other thread's queue or state
  changes, and the scheduler's invariant is kept (signal.c, \<open>CKsendSignal\<close>).\<close>

theorem send_signal:
  assumes "sched_inv s T" and "a \<in> T" and "CKmem_ok (ckmem s)" and "sorted (prios (signals (threads s a)))"
  shows "\<exists>r s'. CKsendSignal a sig extra prio s = Some (r, s') \<and> sched_inv s' T \<and> CKmem_ok (ckmem s')
    \<and> (r = Some ENOMEM \<and> s' = s
       \<or> r = CK_OK \<and> ts (threads s' a) \<noteq> ts_Blocked \<and> sorted (prios (signals (threads s' a)))
         \<and> (\<exists>new before behind. signals (threads s a) = before @ behind
              \<and> signals (threads s' a) = before @ new # behind
              \<and> (\<forall>x\<in>set before. sig_priority x \<le> prio) \<and> (\<forall>x\<in>set behind. prio < sig_priority x)
              \<and> sig_priority new = prio \<and> sig_extra new = extra \<and> sig_sender new = currtask s
              \<and> sig_signal new = sig AND NOT SFBUSY)
         \<and> (\<forall>b. b \<noteq> a \<longrightarrow> signals (threads s' b) = signals (threads s b) \<and> ts (threads s' b) = ts (threads s b)))"
proof -
  obtain r s' where p: "CKsendSignal a sig extra prio s = Some (r, s')" "sched_inv s' T" "CKmem_ok (ckmem s')"
    "r = Some ENOMEM \<and> s' = s
       \<or> r = CK_OK \<and> ts (threads s' a) \<noteq> ts_Blocked
         \<and> (\<exists>new. signals (threads s' a) = sig_enqueue \<lparr>sig_addr = new, sig_signal = sig AND NOT SFBUSY,
              sig_extra = extra, sig_priority = prio, sig_sender = currtask s\<rparr> (signals (threads s a)))
         \<and> (\<forall>b. b \<noteq> a \<longrightarrow> signals (threads s' b) = signals (threads s b) \<and> ts (threads s' b) = ts (threads s b))"
    using CKsendSignal_some[OF assms(1-3), of sig extra prio] by blast
  show ?thesis
  proof (cases "r = CK_OK")
    case True
    then obtain q where q: "signals (threads s' a) = sig_enqueue \<lparr>sig_addr = q, sig_signal = sig AND NOT SFBUSY,
              sig_extra = extra, sig_priority = prio, sig_sender = currtask s\<rparr> (signals (threads s a))"
      using p(4) by auto
    let ?n = "\<lparr>sig_addr = q, sig_signal = sig AND NOT SFBUSY, sig_extra = extra, sig_priority = prio,
      sig_sender = currtask s\<rparr>"
    let ?b = "takeWhile (\<lambda>x. sig_priority x \<le> prio) (signals (threads s a))"
    let ?d = "dropWhile (\<lambda>x. sig_priority x \<le> prio) (signals (threads s a))"
    have d: "\<forall>x\<in>set ?d. prio < sig_priority x" by (rule sig_sorted_behind[OF assms(4)])
    have b: "\<forall>x\<in>set ?b. sig_priority x \<le> prio" by (auto dest: set_takeWhileD)
    have e: "signals (threads s a) = ?b @ ?d" "signals (threads s' a) = ?b @ ?n # ?d"
      using sig_enqueue_split[of ?n "signals (threads s a)", folded q] by simp_all
    have n: "sig_priority ?n = prio \<and> sig_extra ?n = extra \<and> sig_sender ?n = currtask s
      \<and> sig_signal ?n = sig AND NOT SFBUSY" by simp
    have "\<exists>new before behind. signals (threads s a) = before @ behind
        \<and> signals (threads s' a) = before @ new # behind
        \<and> (\<forall>x\<in>set before. sig_priority x \<le> prio) \<and> (\<forall>x\<in>set behind. prio < sig_priority x)
        \<and> sig_priority new = prio \<and> sig_extra new = extra \<and> sig_sender new = currtask s
        \<and> sig_signal new = sig AND NOT SFBUSY"
      using e b d n by (intro exI[of _ ?n] exI[of _ ?b] exI[of _ ?d] conjI) (assumption | blast)+
    moreover have "sorted (prios (signals (threads s' a)))" unfolding q by (rule sig_enqueue_sorted[OF assms(4)])
    moreover have "ts (threads s' a) \<noteq> ts_Blocked"
        "\<forall>b. b \<noteq> a \<longrightarrow> signals (threads s' b) = signals (threads s b) \<and> ts (threads s' b) = ts (threads s b)"
      using p(4) True by blast+
    ultimately have "r = CK_OK \<and> ts (threads s' a) \<noteq> ts_Blocked \<and> sorted (prios (signals (threads s' a)))
         \<and> (\<exists>new before behind. signals (threads s a) = before @ behind
              \<and> signals (threads s' a) = before @ new # behind
              \<and> (\<forall>x\<in>set before. sig_priority x \<le> prio) \<and> (\<forall>x\<in>set behind. prio < sig_priority x)
              \<and> sig_priority new = prio \<and> sig_extra new = extra \<and> sig_sender new = currtask s
              \<and> sig_signal new = sig AND NOT SFBUSY)
         \<and> (\<forall>b. b \<noteq> a \<longrightarrow> signals (threads s' b) = signals (threads s b) \<and> ts (threads s' b) = ts (threads s b))"
      using True by (intro conjI)
    from conjI[OF p(1) conjI[OF p(2) conjI[OF p(3) disjI2[OF this]]]] show ?thesis
      by (rule exI[of _ r, OF exI[of _ s']])
  qed (use p in blast)
qed

theorem send_signal_witness:
  "\<exists>r s'. CKsendSignal 2 5 6 7 small_kernel = Some (r, s') \<and> sched_inv s' {1, 2}"
  using send_signal[OF small_kernel_inv, of 2 5 6 7] one_block_mem_ok(1)
  by (auto simp: two_threads_def thread_of_def)


definition signalled :: KERNEL where
  "signalled = set_thread 1 (\<lambda>t. t\<lparr>signals := [\<lparr>sig_addr = 0x3000, sig_signal = 5 OR SFBUSY, sig_extra = 6,
     sig_priority = 7, sig_sender = 2\<rparr>]\<rparr>) small_kernel"


end
