(* ===== verification/CK_Paging.thy ===== *)
theory CK_Paging
  imports CK_State
begin

text \<open>
  Address spaces: the page tables of \<^verbatim>\<open>CK/architecture/I80X86/memhw.c\<close> and the system calls
  of \<^verbatim>\<open>CK/paging.c\<close>. A page directory is 1024 words of kernel memory followed by the 1024
  words of the usage counts; \<open>kmem\<close> holds directories and tables. \<open>None\<close> is a call that does
  not return.
\<close>

section \<open>Entries (memory.h)\<close>

abbreviation PTPRESENT :: u32 where "PTPRESENT \<equiv> 1"
abbreviation PTWRITE :: u32 where "PTWRITE \<equiv> 2"
abbreviation PTUSER :: u32 where "PTUSER \<equiv> 4"

text \<open>The fields of an entry, of 10, 2 and 20 bits, and writing all three.\<close>

definition pte_flags :: "u32 \<Rightarrow> u32" where
  "pte_flags w = w AND 0x3ff"

definition pte_physAddr :: "u32 \<Rightarrow> u32" where
  "pte_physAddr w = drop_bit 12 w"

definition mk_pte :: "u32 \<Rightarrow> u32 \<Rightarrow> u32 \<Rightarrow> u32" where
  "mk_pte physAddr avail flags = push_bit 12 physAddr OR push_bit 10 (avail AND 3) OR (flags AND 0x3ff)"

text \<open>The address of word \<open>i\<close> of an array of words.\<close>

abbreviation word_at :: "addr \<Rightarrow> u32 \<Rightarrow> addr" where
  "word_at a i \<equiv> a + 4 * i"

text \<open>The page table that entry \<open>pde\<close> of a directory leads to.\<close>

definition page_table :: "addr \<Rightarrow> (addr \<Rightarrow> u32) \<Rightarrow> u32 \<Rightarrow> addr" where
  "page_table pd m pde = LINEAR (push_bit 12 (pte_physAddr (m (word_at pd pde))))"

section \<open>Reading a mapping (memhw.c)\<close>

text \<open>The index into the directory is an arithmetic shift of the signed address.\<close>

definition getPageAddress :: "addr \<Rightarrow> addr \<Rightarrow> (addr \<Rightarrow> u32) \<Rightarrow> addr" where
  "getPageAddress pd logicalAddr m =
     (let pde = signed_drop_bit 22 logicalAddr;
          pageTable = push_bit 12 (pte_physAddr (m (word_at pd pde))) in
      if pageTable = NIL then NIL
      else word_at (LINEAR pageTable) (drop_bit 12 logicalAddr AND 0x3ff))"

definition CKgetPageMapping :: "addr \<Rightarrow> addr \<Rightarrow> (addr \<Rightarrow> u32) \<Rightarrow> addr" where
  "CKgetPageMapping pd logicalPageAddr m =
     (let page = getPageAddress pd logicalPageAddr m in
      if page = NIL then 0 else push_bit 12 (pte_physAddr (m page)))"

definition CKchangePageAttr :: "addr \<Rightarrow> addr \<Rightarrow> u32 \<Rightarrow> (addr \<Rightarrow> u32) \<Rightarrow> bool \<times> (addr \<Rightarrow> u32)" where
  "CKchangePageAttr pd logicalPageAddr attr m =
     (let page = getPageAddress pd logicalPageAddr m in
      if page = NIL then (False, m)
      else if pte_flags (m page) AND PTPRESENT = 0 then (False, m)
      else (True, m(page := (m page AND NOT 0x3ff) OR (pte_flags (m page) AND 1) OR (attr AND 0x1ff))))"

section \<open>The loops over directory and table (memhw.c)\<close>

text \<open>The directory entries of the first loops, and the value their index is left with.\<close>

definition pdes :: "u32 \<Rightarrow> u32 \<Rightarrow> u32 list" where
  "pdes pdeStart pdeEnd =
     map word_of_nat [unat (drop_bit 22 pdeStart) ..< unat (drop_bit 22 (pdeEnd + 0x3fffff))]"

definition pde_after :: "u32 \<Rightarrow> u32 \<Rightarrow> u32" where
  "pde_after pdeStart pdeEnd = max (drop_bit 22 pdeStart) (drop_bit 22 (pdeEnd + 0x3fffff))"

text \<open>The tables that are missing are allocated together, cleared and put into the directory.\<close>

definition missing :: "addr \<Rightarrow> (addr \<Rightarrow> u32) \<Rightarrow> u32 \<Rightarrow> bool" where
  "missing pd m pde \<longleftrightarrow> pte_flags (m (word_at pd pde)) AND PTPRESENT = 0"

primrec clear_words :: "addr \<Rightarrow> nat \<Rightarrow> (addr \<Rightarrow> u32) \<Rightarrow> addr \<Rightarrow> u32" where
  "clear_words a 0 m = m"
| "clear_words a (Suc n) m = (clear_words a n m)(word_at a (word_of_nat n) := 0)"

fun enter_tables :: "addr \<Rightarrow> u32 list \<Rightarrow> u32 \<Rightarrow> (addr \<Rightarrow> u32) \<Rightarrow> addr \<Rightarrow> u32" where
  "enter_tables pd [] pageTables m = m"
| "enter_tables pd (pde # ps) pageTables m =
     (if missing pd m pde
      then enter_tables pd ps (pageTables + 1)
        (m(word_at pd pde := mk_pte pageTables 0 (PTPRESENT OR PTUSER OR PTWRITE)))
      else enter_tables pd ps pageTables m)"

definition alloc_tables_for :: "addr \<Rightarrow> u32 \<Rightarrow> u32 \<Rightarrow> 'a KERNEL_scheme \<Rightarrow> (bool \<times> 'a KERNEL_scheme) option" where
  "alloc_tables_for pd pdeStart pdeEnd s =
     (let ps = pdes pdeStart pdeEnd; npn = length (filter (missing pd (kmem s)) ps) in
      if npn = 0 then Some (True, s)
      else do {
        (pageTables, s1) \<leftarrow> with_mem (CKmemAllocPages (word_of_nat npn)) s;
        if pageTables = NIL then Some (False, s1)
        else
          let m1 = clear_words pageTables (npn * 1024) (kmem s1);
              count = word_at (pd + 4096) (pde_after pdeStart pdeEnd);
              m2 = m1(count := m1 count + word_of_nat npn)
          in Some (True, s1\<lparr>kmem := enter_tables pd ps (drop_bit 12 (PHYS pageTables)) m2\<rparr>)
      })"

text \<open>
  The addresses the outer of the second loops goes through, and the one it ends with; and
  the table indices of the inner loop for an address inside the range and for the last one,
  which is included.
\<close>

lemma mask_pde: "x AND push_bit 22 (- 1) = push_bit 22 (drop_bit 22 (x :: u32))"
  by (rule bit_word_eqI) (auto simp: bit_simps)

lemma unat_drop22: "unat (drop_bit 22 (x :: u32)) = unat x div 2 ^ 22"
  unfolding unat_drop_bit_eq by (rule drop_bit_eq_div)

lemma unat_push22: "unat (a :: u32) * 2 ^ 22 < 2 ^ 32 \<Longrightarrow> unat (push_bit 22 a) = unat a * 2 ^ 22"
  by (simp add: push_bit_eq_mult unat_word_ariths)

lemma unat_pde: "unat (push_bit 22 (drop_bit 22 (x :: u32))) = unat x div 2 ^ 22 * 2 ^ 22"
  using unat_less_32[of x] div_times_less_eq_dividend[of "unat x" "2 ^ 22"]
  by (subst unat_push22) (unfold unat_drop22, linarith, rule refl)

lemma unat_pde_next:
  assumes "(x :: u32) < y AND push_bit 22 (- 1)"
  shows "unat (push_bit 22 (drop_bit 22 x + 1) :: u32) = (unat x div 2 ^ 22 + 1) * 2 ^ 22"
    and "(unat x div 2 ^ 22 + 1) * 2 ^ 22 \<le> unat y"
proof -
  have "unat x < unat y div 2 ^ 22 * 2 ^ 22"
    using assms unfolding mask_pde word_less_nat_alt unat_pde .
  then have "unat x div 2 ^ 22 < unat y div 2 ^ 22" by (simp add: div_less_iff_less_mult)
  then have "(unat x div 2 ^ 22 + 1) * 2 ^ 22 \<le> unat y div 2 ^ 22 * 2 ^ 22" by simp
  also have "\<dots> \<le> unat y" by simp
  finally show l: "(unat x div 2 ^ 22 + 1) * 2 ^ 22 \<le> unat y" .
  then have b: "(unat x div 2 ^ 22 + 1) * 2 ^ 22 < 2 ^ 32" using unat_less_32[of y] by linarith
  have "unat (drop_bit 22 x + 1 :: u32) = unat x div 2 ^ 22 + 1"
    using b unfolding unat_drop22[symmetric] by (subst unat_add_small) simp_all
  then show "unat (push_bit 22 (drop_bit 22 x + 1) :: u32) = (unat x div 2 ^ 22 + 1) * 2 ^ 22"
    using b by (subst unat_push22) simp_all
qed

function dir_steps :: "u32 \<Rightarrow> u32 \<Rightarrow> u32 list \<times> u32" where
  "dir_steps pde pdeEnd =
     (if pde < pdeEnd AND push_bit 22 (- 1)
      then let (ps, q) = dir_steps (push_bit 22 (drop_bit 22 pde + 1)) pdeEnd in (pde # ps, q)
      else ([], pde))"
  by auto
termination
proof (relation "measure (\<lambda>(pde, pdeEnd). unat pdeEnd - unat pde)")
  fix x y :: u32
  assume a: "x < y AND push_bit 22 (- 1)"
  have "unat x < (unat x div 2 ^ 22 + 1) * 2 ^ 22" by simp
  then show "((push_bit 22 (drop_bit 22 x + 1), y), (x, y)) \<in> measure (\<lambda>(pde, pdeEnd). unat pdeEnd - unat pde)"
    using unat_pde_next[OF a] by simp
qed simp

declare dir_steps.simps [simp del]

definition pte_index :: "u32 \<Rightarrow> nat" where
  "pte_index a = unat (drop_bit 12 a AND 0x3ff)"

abbreviation ptes_from :: "u32 \<Rightarrow> u32 list" where
  "ptes_from a \<equiv> map word_of_nat [pte_index a ..< 1024]"

abbreviation ptes_upto :: "u32 \<Rightarrow> u32 \<Rightarrow> u32 list" where
  "ptes_upto a b \<equiv> map word_of_nat [pte_index a ..< Suc (pte_index b)]"

section \<open>Setting a mapping (memhw.c)\<close>

definition map_pte :: "u32 \<Rightarrow> u32 \<Rightarrow> u32" where
  "map_pte physPage attr = mk_pte physPage 0 (PTPRESENT OR PTUSER OR (attr AND 0x1ff))"

fun set_ptes :: "addr \<Rightarrow> u32 \<Rightarrow> u32 list \<Rightarrow> u32 \<times> (addr \<Rightarrow> u32) \<Rightarrow> u32 \<times> (addr \<Rightarrow> u32)" where
  "set_ptes t attr [] (physPage, m) = (physPage, m)"
| "set_ptes t attr (pte # ps) (physPage, m) =
     set_ptes t attr ps (physPage + 1, m(word_at t pte := map_pte physPage attr))"

fun set_dirs :: "addr \<Rightarrow> u32 \<Rightarrow> u32 list \<Rightarrow> u32 \<times> (addr \<Rightarrow> u32) \<Rightarrow> u32 \<times> (addr \<Rightarrow> u32)" where
  "set_dirs pd attr [] pm = pm"
| "set_dirs pd attr (pde # ps) pm =
     set_dirs pd attr ps (set_ptes (page_table pd (snd pm) (drop_bit 22 pde)) attr (ptes_from pde) pm)"

definition CKsetPageMapping ::
  "addr \<Rightarrow> addr \<Rightarrow> addr \<Rightarrow> u32 \<Rightarrow> u32 \<Rightarrow> 'a KERNEL_scheme \<Rightarrow> (bool \<times> 'a KERNEL_scheme) option" where
  "CKsetPageMapping pd logicalPageAddr physicalPageAddr len attr s =
     (let pdeStart = logicalPageAddr; pdeEnd = pdeStart + len in
      do {
        (ok, s1) \<leftarrow> alloc_tables_for pd pdeStart pdeEnd s;
        if \<not> ok then Some (False, s1)
        else
          let (steps, pde) = dir_steps pdeStart pdeEnd;
              pm = set_dirs pd attr steps (signed_drop_bit 12 physicalPageAddr, kmem s1);
              (_, m) = set_ptes (page_table pd (snd pm) (drop_bit 22 pde)) attr (ptes_upto pde pdeEnd) pm
          in Some (True, s1\<lparr>kmem := m\<rparr>)
      })"

section \<open>Copying a mapping (memhw.c)\<close>

text \<open>Where the copy reads: directory index, table index, table; and the memory.\<close>

fun copy_ptes :: "addr \<Rightarrow> addr \<Rightarrow> u32 list \<Rightarrow> u32 \<times> u32 \<times> addr \<times> (addr \<Rightarrow> u32) \<Rightarrow> u32 \<times> u32 \<times> addr \<times> (addr \<Rightarrow> u32)" where
  "copy_ptes src t [] c = c"
| "copy_ptes src t (pte # ps) (pdeS, pteS, pageTableS, m) =
     (let m' = m(word_at t pte := m (word_at pageTableS pteS)); pteS' = pteS + 1 in
      copy_ptes src t ps
        (if pteS' = 0x400 then (pdeS + 1, 0, page_table src m' (pdeS + 1), m')
         else (pdeS, pteS', pageTableS, m')))"

fun copy_dirs :: "addr \<Rightarrow> addr \<Rightarrow> u32 list \<Rightarrow> u32 \<times> u32 \<times> addr \<times> (addr \<Rightarrow> u32) \<Rightarrow> u32 \<times> u32 \<times> addr \<times> (addr \<Rightarrow> u32)" where
  "copy_dirs src dst [] c = c"
| "copy_dirs src dst (pde # ps) (pdeS, pteS, pageTableS, m) =
     copy_dirs src dst ps
       (copy_ptes src (page_table dst m (drop_bit 22 pde)) (ptes_from pde) (pdeS, pteS, pageTableS, m))"

definition CKcopySharedPageMapping ::
  "addr \<Rightarrow> addr \<Rightarrow> addr \<Rightarrow> addr \<Rightarrow> u32 \<Rightarrow> 'a KERNEL_scheme \<Rightarrow> (bool \<times> 'a KERNEL_scheme) option" where
  "CKcopySharedPageMapping sourceAddrSpc sourceLogPageAddr destAddrSpc destLogPageAddr len s =
     (let pdeStartS = sourceLogPageAddr; pdeStartD = destLogPageAddr; pdeEndD = pdeStartD + len in
      do {
        (ok, s1) \<leftarrow> alloc_tables_for destAddrSpc pdeStartD pdeEndD s;
        if \<not> ok then Some (False, s1)
        else
          let pdeS = drop_bit 22 pdeStartS; pteS = drop_bit 12 pdeStartS AND 0x3ff;
              (steps, pde) = dir_steps pdeStartD pdeEndD;
              (pdeS', pteS', t', m) = copy_dirs sourceAddrSpc destAddrSpc steps
                (pdeS, pteS, page_table sourceAddrSpc (kmem s1) pdeS, kmem s1);
              (_, _, _, m') = copy_ptes sourceAddrSpc (page_table destAddrSpc m (drop_bit 22 pde))
                (map word_of_nat [pte_index pde ..< pte_index pdeEndD]) (pdeS', pteS', t', m)
          in Some (True, s1\<lparr>kmem := m'\<rparr>)
      })"

section \<open>Taking a mapping away (memhw.c)\<close>

primrec fold_opt :: "('x \<Rightarrow> 's \<Rightarrow> 's option) \<Rightarrow> 'x list \<Rightarrow> 's \<Rightarrow> 's option" where
  "fold_opt f [] s = Some s"
| "fold_opt f (x # xs) s = do { s' \<leftarrow> f x s; fold_opt f xs s' }"

definition free_pages :: "addr \<Rightarrow> u32 \<Rightarrow> 'a SCHED_scheme \<Rightarrow> 'a SCHED_scheme option" where
  "free_pages a n s = map_option (\<lambda>m. s\<lparr>ckmem := m\<rparr>) (CKmemFreePages a n (ckmem s))"

text \<open>One entry of the table \<open>page\<close> of directory entry \<open>i\<close>.\<close>

definition mark_pte :: "addr \<Rightarrow> u32 \<Rightarrow> addr \<Rightarrow> u32 \<Rightarrow> u32 \<Rightarrow> 'a KERNEL_scheme \<Rightarrow> 'a KERNEL_scheme option" where
  "mark_pte pd i page data pte s =
     (let m1 = (kmem s)(word_at page pte := data); count = word_at (pd + 4096) i in
      if m1 count \<noteq> 0 then
        let s2 = s\<lparr>kmem := m1(count := m1 count - 1)\<rparr> in
        if kmem s2 count = 0 then
          map_option (\<lambda>s3. s3\<lparr>kmem := (kmem s3)(word_at pd i := 0)\<rparr>) (free_pages page 1 s2)
        else Some s2
      else Some (s\<lparr>kmem := m1\<rparr>))"

definition mark_ptes :: "addr \<Rightarrow> u32 \<Rightarrow> u32 \<Rightarrow> u32 list \<Rightarrow> 'a KERNEL_scheme \<Rightarrow> 'a KERNEL_scheme option" where
  "mark_ptes pd i data ps s = fold_opt (mark_pte pd i (page_table pd (kmem s) i) data) ps s"

definition CKmarkPageNotPresent :: "addr \<Rightarrow> addr \<Rightarrow> u32 \<Rightarrow> u32 \<Rightarrow> 'a KERNEL_scheme \<Rightarrow> 'a KERNEL_scheme option" where
  "CKmarkPageNotPresent pd logicalPageAddr len Data s =
     (let pdeStart = logicalPageAddr; pdeEnd = pdeStart + len; data = push_bit 1 Data;
          (steps, pde) = dir_steps pdeStart pdeEnd in
      do {
        s1 \<leftarrow> fold_opt (\<lambda>pde. mark_ptes pd (drop_bit 22 pde) data (ptes_from pde)) steps s;
        mark_ptes pd (drop_bit 22 pde) data (ptes_upto pde pdeEnd) s1
      })"

section \<open>Setting up and cleaning up an address space (memhw.c)\<close>

definition CKpreProcessAddrSpc :: "addr \<Rightarrow> 'a KERNEL_scheme \<Rightarrow> (ckresult \<times> 'a KERNEL_scheme) option" where
  "CKpreProcessAddrSpc object s =
     (if object = NIL then Some (Some ENOVALIDADDRSPC, s)
      else do {
        (pd, s1) \<leftarrow> with_mem (CKmemAllocPages 2) s;
        let s2 = s1\<lparr>addrspcs := (addrspcs s1)(object := (addrspcs s1 object)\<lparr>addrSpc := pd\<rparr>)\<rparr>;
        if pd = NIL then Some (Some ENOMEM, s2)
        else
          let kernelPTE = (\<lambda>i. word_at (LINEAR (kernelPageDir s2)) i);
              m = fold (\<lambda>i m. m(word_at pd i := m (kernelPTE i))) (map word_of_nat [768 ..< 1024])
                (clear_words pd 2048 (kmem s2))
          in Some (CK_OK, s2\<lparr>kmem := m\<rparr>)
      })"

definition CKpostProcessAddrSpc :: "addr \<Rightarrow> 'a KERNEL_scheme \<Rightarrow> 'a KERNEL_scheme option" where
  "CKpostProcessAddrSpc object s =
     (let pd = addrSpc (addrspcs s object) in
      if object = NIL \<or> pd = NIL then Some s
      else do {
        s1 \<leftarrow> fold_opt (\<lambda>i s. if kmem s (word_at (pd + 4096) i) \<noteq> 0
            then free_pages (page_table pd (kmem s) i) 1 s else Some s)
          (map word_of_nat [0 ..< 1024]) s;
        free_pages pd 2 s1
      })"

section \<open>The system calls (paging.c)\<close>

definition CKflushLocalTLB :: "'a KERNEL_scheme \<Rightarrow> 'a KERNEL_scheme" where
  "CKflushLocalTLB s = s\<lparr>tlb_flushes := tlb_flushes s + 1\<rparr>"

definition flush_if_current :: "addr \<Rightarrow> 'a KERNEL_scheme \<Rightarrow> 'a KERNEL_scheme" where
  "flush_if_current object s =
     (if object = addressSpace (threads s (currtask s)) then CKflushLocalTLB s else s)"

definition CKloadMapping ::
  "addr \<Rightarrow> addr \<Rightarrow> addr \<Rightarrow> u32 \<Rightarrow> u32 \<Rightarrow> 'a KERNEL_scheme \<Rightarrow> (ckresult \<times> 'a KERNEL_scheme) option" where
  "CKloadMapping object physaddr logicaladdr len flags s =
     do {
       (err, s1) \<leftarrow> (if CKvalidAddrSpc object s
          then map_option (\<lambda>(ok, s1). (if ok then CK_OK else Some ENOMEM, s1))
            (CKsetPageMapping (addrSpc (addrspcs s object)) logicaladdr physaddr len flags s)
          else Some (Some ENOVALIDADDRSPC, s));
       Some (err, flush_if_current object s1)
     }"

text \<open>The length is passed where the data for the page is expected, and 0 as the length.\<close>

definition CKunloadMapping :: "addr \<Rightarrow> addr \<Rightarrow> u32 \<Rightarrow> 'a KERNEL_scheme \<Rightarrow> (ckresult \<times> 'a KERNEL_scheme) option" where
  "CKunloadMapping object logicaladdr len s =
     do {
       (err, s1) \<leftarrow> (if CKvalidAddrSpc object s
          then map_option (\<lambda>s1. (CK_OK, s1))
            (CKmarkPageNotPresent (addrSpc (addrspcs s object)) logicaladdr 0 len s)
          else Some (Some ENOVALIDADDRSPC, s));
       Some (err, flush_if_current object s1)
     }"

section \<open>The layout of an address space\<close>

lemma unat_word_at:
  assumes "unat a + 4 * n \<le> 2 ^ 32" and "i < n"
  shows "unat (word_at a (word_of_nat i)) = unat a + 4 * i"
proof -
  have l: "4 * i < 2 ^ 32" "unat a + 4 * i < 2 ^ 32" using assms by linarith+
  have u: "unat (word_of_nat (4 * i) :: u32) = 4 * i"
    by (rule of_nat_inverse[OF refl]) (use l(1) in simp)
  have "4 * word_of_nat i = (word_of_nat (4 * i) :: u32)" by simp
  then show ?thesis using l(2) unat_add_small[of a "word_of_nat (4 * i)"] u by simp
qed

lemma word_at_in: "unat a + 4 * n \<le> 2 ^ 32 \<Longrightarrow> i < n \<Longrightarrow> unat b = 4 * n
  \<Longrightarrow> unat (word_at a (word_of_nat i)) \<in> bytes a b"
  by (simp add: bytes_def unat_word_at)

lemma word_at_inj:
  "unat a + 4 * n \<le> 2 ^ 32 \<Longrightarrow> i < n \<Longrightarrow> j < n \<Longrightarrow>
    word_at a (word_of_nat i) = word_at a (word_of_nat j) \<longleftrightarrow> i = j"
  by (metis add_left_cancel mult_cancel1 unat_word_at zero_neq_numeral)

abbreviation tab :: "addr \<Rightarrow> (addr \<Rightarrow> u32) \<Rightarrow> nat \<Rightarrow> addr" where
  "tab pd m i \<equiv> page_table pd m (word_of_nat i)"

abbreviation present :: "addr \<Rightarrow> (addr \<Rightarrow> u32) \<Rightarrow> nat \<Rightarrow> bool" where
  "present pd m i \<equiv> \<not> missing pd m (word_of_nat i)"

text \<open>
  The directory with its counts and the tables it leads to lie apart from each other, and no
  table is at physical address 0.
\<close>

definition layout :: "addr \<Rightarrow> (addr \<Rightarrow> u32) \<Rightarrow> bool" where
  "layout pd m \<longleftrightarrow> unat pd + 8192 \<le> 2 ^ 32
     \<and> (\<forall>i<1024. present pd m i \<longrightarrow> unat (tab pd m i) + 4096 \<le> 2 ^ 32
          \<and> bytes pd 8192 \<inter> bytes (tab pd m i) 4096 = {} \<and> tab pd m i \<noteq> LINEAR 0
          \<and> tab pd m i \<noteq> NIL)
     \<and> (\<forall>i<1024. \<forall>j<1024. i \<noteq> j \<longrightarrow> present pd m i \<longrightarrow> present pd m j
          \<longrightarrow> bytes (tab pd m i) 4096 \<inter> bytes (tab pd m j) 4096 = {})"

text \<open>What a page number is mapped to: an entry, if there is a table for it.\<close>

definition entry :: "addr \<Rightarrow> (addr \<Rightarrow> u32) \<Rightarrow> nat \<Rightarrow> u32 option" where
  "entry pd m v = (if present pd m (v div 1024)
     then Some (m (word_at (tab pd m (v div 1024)) (word_of_nat (v mod 1024)))) else None)"

text \<open>Memory that agrees on a directory has the same tables.\<close>

definition same_dir :: "addr \<Rightarrow> (addr \<Rightarrow> u32) \<Rightarrow> (addr \<Rightarrow> u32) \<Rightarrow> bool" where
  "same_dir pd m m' \<longleftrightarrow> (\<forall>i<1024. m' (word_at pd (word_of_nat i)) = m (word_at pd (word_of_nat i)))"

lemma same_dir_tab:
  "same_dir pd m m' \<Longrightarrow> i < 1024 \<Longrightarrow> tab pd m' i = tab pd m i \<and> present pd m' i = present pd m i"
  by (simp add: same_dir_def page_table_def missing_def)

lemma same_dir_layout: "same_dir pd m m' \<Longrightarrow> layout pd m' = layout pd m"
  by (simp add: layout_def same_dir_tab cong: imp_cong)

lemma same_dir_trans: "same_dir pd m m' \<Longrightarrow> same_dir pd m' m'' \<Longrightarrow> same_dir pd m m''"
  by (simp add: same_dir_def)

lemma dir_not_table:
  assumes "layout pd m" "i < 1024" "present pd m i" "j < 1024" "k < 2048"
  shows "word_at pd (word_of_nat k) \<noteq> word_at (tab pd m i) (word_of_nat j)"
proof
  assume e: "word_at pd (word_of_nat k) = word_at (tab pd m i) (word_of_nat j)"
  have l: "unat pd + 8192 \<le> 2 ^ 32" "unat (tab pd m i) + 4096 \<le> 2 ^ 32"
      "bytes pd 8192 \<inter> bytes (tab pd m i) 4096 = {}"
    using assms by (auto simp: layout_def)
  have "unat (word_at pd (word_of_nat k)) \<in> bytes pd 8192"
    using l(1) assms(5) by (intro word_at_in[where n = 2048]) simp_all
  moreover have "unat (word_at (tab pd m i) (word_of_nat j)) \<in> bytes (tab pd m i) 4096"
    using l(2) assms(4) by (intro word_at_in[where n = 1024]) simp_all
  ultimately show False using l(3) e by auto
qed

lemma table_words_apart:
  assumes "layout pd m" "i < 1024" "present pd m i" "j < 1024" "i' < 1024" "present pd m i'" "j' < 1024"
  shows "word_at (tab pd m i) (word_of_nat j) = word_at (tab pd m i') (word_of_nat j') \<longleftrightarrow> i = i' \<and> j = j'"
proof -
  have l: "unat (tab pd m i) + 4096 \<le> 2 ^ 32" "unat (tab pd m i') + 4096 \<le> 2 ^ 32"
      "i \<noteq> i' \<Longrightarrow> bytes (tab pd m i) 4096 \<inter> bytes (tab pd m i') 4096 = {}"
    using assms by (auto simp: layout_def)
  have "unat (word_at (tab pd m i) (word_of_nat j)) \<in> bytes (tab pd m i) 4096"
    using l(1) assms(4) by (intro word_at_in[where n = 1024]) simp_all
  moreover have "unat (word_at (tab pd m i') (word_of_nat j')) \<in> bytes (tab pd m i') 4096"
    using l(2) assms(7) by (intro word_at_in[where n = 1024]) simp_all
  ultimately have "i \<noteq> i' \<Longrightarrow> word_at (tab pd m i) (word_of_nat j) \<noteq> word_at (tab pd m i') (word_of_nat j')"
    using l(3) by (metis IntI empty_iff)
  moreover have "word_at (tab pd m i) (word_of_nat j) = word_at (tab pd m i) (word_of_nat j') \<longleftrightarrow> j = j'"
    using l(1) assms(4,7) by (intro word_at_inj[where n = 1024]) simp_all
  ultimately show ?thesis by (cases "i = i'") blast+
qed

text \<open>Writing one entry of a table changes what one page is mapped to, and nothing else.\<close>

lemma write_entry:
  fixes w :: u32
  assumes "layout pd m" "v < 2 ^ 20" "present pd m (v div 1024)"
  defines "m' \<equiv> m(word_at (tab pd m (v div 1024)) (word_of_nat (v mod 1024)) := w)"
  shows "same_dir pd m m'" "w' < 2 ^ 20 \<Longrightarrow> entry pd m' w' = (if w' = v then Some w else entry pd m w')"
proof -
  have v: "v div 1024 < 1024" "v mod 1024 < 1024" using assms(2) by (simp_all add: less_mult_imp_div_less)
  show d: "same_dir pd m m'"
    unfolding same_dir_def m'_def using dir_not_table[OF assms(1) v(1) assms(3) v(2)] by auto
  assume w: "w' < 2 ^ 20"
  then have w2: "w' div 1024 < 1024" "w' mod 1024 < 1024" by (simp_all add: less_mult_imp_div_less)
  have "(w' div 1024 = v div 1024 \<and> w' mod 1024 = v mod 1024) = (w' = v)" by (metis div_mult_mod_eq)
  then show "entry pd m' w' = (if w' = v then Some w else entry pd m w')"
    using same_dir_tab[OF d w2(1)] table_words_apart[OF assms(1) w2(1) _ w2(2) v(1) assms(3) v(2)] assms(3)
    unfolding entry_def m'_def by auto
qed

section \<open>The loops against a page at a time\<close>

text \<open>The specification of the two loops: pages by number, each looked up in the directory.\<close>

fun set_vpages :: "addr \<Rightarrow> u32 \<Rightarrow> nat list \<Rightarrow> u32 \<times> (addr \<Rightarrow> u32) \<Rightarrow> u32 \<times> (addr \<Rightarrow> u32)" where
  "set_vpages pd attr [] pm = pm"
| "set_vpages pd attr (v # vs) (p, m) = set_vpages pd attr vs
     (p + 1, m(word_at (tab pd m (v div 1024)) (word_of_nat (v mod 1024)) := map_pte p attr))"

lemma set_vpages_append:
  "set_vpages pd attr (vs @ ws) pm = set_vpages pd attr ws (set_vpages pd attr vs pm)"
  by (induction vs arbitrary: pm) (auto simp: split_paired_all)

lemma set_vpages_dir:
  assumes "layout pd m" "\<forall>v\<in>set vs. v < 2 ^ 20 \<and> present pd m (v div 1024)"
  shows "same_dir pd m (snd (set_vpages pd attr vs (p, m)))"
  using assms
proof (induction vs arbitrary: p m)
  case (Cons v vs)
  note d = write_entry(1)[OF Cons.prems(1), of v "map_pte p attr"]
  have "v < 2 ^ 20" "present pd m (v div 1024)" using Cons.prems(2) by simp_all
  note d = d[OF this]
  have "\<forall>x\<in>set vs. x < 2 ^ 20 \<and> present pd (m(word_at (tab pd m (v div 1024)) (word_of_nat (v mod 1024)) := map_pte p attr)) (x div 1024)"
    using Cons.prems(2) same_dir_tab[OF d] by (simp add: less_mult_imp_div_less)
  note ih = Cons.IH[OF _ this, of "p + 1"]
  have "layout pd (m(word_at (tab pd m (v div 1024)) (word_of_nat (v mod 1024)) := map_pte p attr))"
    using same_dir_layout[OF d] Cons.prems(1) by simp
  from same_dir_trans[OF d ih[OF this]] show ?case unfolding set_vpages.simps .
qed (simp add: same_dir_def)

lemma set_vpages_entry:
  assumes "layout pd m" "\<forall>v. a \<le> v \<longrightarrow> v < a + n \<longrightarrow> present pd m (v div 1024)" "a + n \<le> 2 ^ 20" "w < 2 ^ 20"
  shows "entry pd (snd (set_vpages pd attr [a ..< a + n] (p, m))) w
    = (if a \<le> w \<and> w < a + n then Some (map_pte (p + word_of_nat (w - a)) attr) else entry pd m w)"
  using assms(2,3)
proof (induction n)
  case (Suc n)
  let ?r = "set_vpages pd attr [a ..< a + n] (p, m)"
  have d: "same_dir pd m (snd ?r)"
    using Suc.prems by (intro set_vpages_dir[OF assms(1)]) auto
  have f: "fst (set_vpages pd attr vs q) = fst q + word_of_nat (length vs)" for vs q
    by (induction vs arbitrary: q) (auto simp: split_paired_all)
  have k: "(a + n) div 1024 < 1024" "(a + n) < 2 ^ 20" using Suc.prems(2) by (simp_all add: less_mult_imp_div_less)
  have l: "layout pd (snd ?r)" "present pd (snd ?r) ((a + n) div 1024)"
    using same_dir_layout[OF d] assms(1) same_dir_tab[OF d k(1)] Suc.prems(1) by auto
  have e: "snd (set_vpages pd attr [a ..< a + Suc n] (p, m)) = (snd ?r)(word_at (tab pd (snd ?r) ((a + n) div 1024))
      (word_of_nat ((a + n) mod 1024)) := map_pte (p + word_of_nat n) attr)"
    using f[of "[a ..< a + n]" "(p, m)"] by (cases ?r) (simp add: set_vpages_append)
  have ih: "entry pd (snd ?r) w
    = (if a \<le> w \<and> w < a + n then Some (map_pte (p + word_of_nat (w - a)) attr) else entry pd m w)"
    using Suc.prems by (intro Suc.IH) auto
  show ?case unfolding e write_entry(2)[OF l(1) k(2) l(2) assms(4)] ih by auto
qed auto

lemma set_ptes_vpages:
  assumes "layout pd m" "i < 1024" "present pd m i" "\<forall>j\<in>set js. j < 1024"
  shows "set_ptes (tab pd m i) attr (map word_of_nat js) (p, m) = set_vpages pd attr (map (\<lambda>j. 1024 * i + j) js) (p, m)"
  using assms
proof (induction js arbitrary: p m)
  case (Cons j js)
  have j: "j < 1024" "(1024 * i + j) div 1024 = i" "(1024 * i + j) mod 1024 = j" "1024 * i + j < 2 ^ 20"
    using Cons.prems(2,4) by simp_all
  let ?m = "m(word_at (tab pd m i) (word_of_nat j) := map_pte p attr)"
  have d: "same_dir pd m ?m"
    using write_entry(1)[OF Cons.prems(1) j(4), of "map_pte p attr"] Cons.prems(3) unfolding j by simp
  have "layout pd ?m" "tab pd ?m i = tab pd m i" "present pd ?m i"
    using same_dir_layout[OF d] same_dir_tab[OF d Cons.prems(2)] Cons.prems(1,3) by auto
  note l = this
  have js: "\<forall>j\<in>set js. j < 1024" using Cons.prems(4) by simp
  note ih = Cons.IH[OF l(1) Cons.prems(2) l(3) js, of "p + 1", unfolded l(2)]
  show ?case unfolding list.map set_ptes.simps set_vpages.simps j(2,3) using ih .
qed simp

lemma unat_and_3ff: "unat (w AND 0x3ff :: u32) = unat w mod 1024"
proof -
  have "w AND 0x3ff = take_bit 10 w" by (simp add: take_bit_eq_mask mask_eq_exp_minus_1)
  then show ?thesis by (simp only: unsigned_take_bit_eq) (simp add: take_bit_eq_mod)
qed

lemma pte_index_eq: "pte_index a = unat a div 4096 mod 1024"
proof -
  have "unat (drop_bit 12 a) = unat a div 4096" unfolding unat_drop_bit_eq by (simp add: drop_bit_eq_div)
  then show ?thesis by (simp add: pte_index_def unat_and_3ff)
qed

lemma drop22_index: "drop_bit 22 (a :: u32) = word_of_nat (unat a div 2 ^ 22)"
  unfolding unat_drop22[symmetric] by simp

lemma upt_page: "map (\<lambda>j. 1024 * i + j) [a ..< b] = [1024 * i + a ..< 1024 * i + b]"
  by (induction b) auto

lemma not_below_pde:
  assumes "\<not> x < y AND push_bit 22 (- 1)" "unat x \<le> unat (y :: u32)"
  shows "unat x div 2 ^ 22 = unat y div 2 ^ 22"
proof -
  have "unat y div 2 ^ 22 * 2 ^ 22 \<le> unat x"
    using assms(1) unfolding mask_pde word_less_nat_alt unat_pde by simp
  then have "unat y div 2 ^ 22 \<le> unat x div 2 ^ 22" by (simp add: less_eq_div_iff_mult_less_eq)
  then show ?thesis using div_le_mono[OF assms(2), of "2 ^ 22"] by simp
qed

text \<open>Both loops of \<open>CKsetPageMapping\<close> together.\<close>

definition set_loops :: "addr \<Rightarrow> u32 \<Rightarrow> u32 \<Rightarrow> u32 \<Rightarrow> u32 \<times> (addr \<Rightarrow> u32) \<Rightarrow> u32 \<times> (addr \<Rightarrow> u32)" where
  "set_loops pd attr x e pm = (let (steps, q) = dir_steps x e; pm' = set_dirs pd attr steps pm
     in set_ptes (page_table pd (snd pm') (drop_bit 22 q)) attr (ptes_upto q e) pm')"

lemma set_loops_rec:
  "set_loops pd attr x e pm =
     (if x < e AND push_bit 22 (- 1)
      then set_loops pd attr (push_bit 22 (drop_bit 22 x + 1)) e
        (set_ptes (page_table pd (snd pm) (drop_bit 22 x)) attr (ptes_from x) pm)
      else set_ptes (page_table pd (snd pm) (drop_bit 22 x)) attr (ptes_upto x e) pm)"
  unfolding set_loops_def by (subst dir_steps.simps) (auto simp: Let_def split: prod.splits)

lemma set_loops_vpages:
  assumes "layout pd m" "unat x \<le> unat e"
    "\<forall>k. unat x div 2 ^ 22 \<le> k \<longrightarrow> k \<le> unat e div 2 ^ 22 \<longrightarrow> present pd m k"
  shows "set_loops pd attr x e (p, m) = set_vpages pd attr [unat x div 4096 ..< Suc (unat e div 4096)] (p, m)"
  using assms
proof (induction x e arbitrary: p m rule: dir_steps.induct)
  case (1 x e)
  let ?k = "unat x div 2 ^ 22" and ?j = "unat x div 4096 mod 1024"
  have k: "?k < 1024" "present pd m ?k" using unat_less_32[of x] "1.prems"(2,3) div_le_mono[of "unat x" "unat e" "2 ^ 22"]
    by (auto simp: less_mult_imp_div_less)
  have kj: "1024 * ?k + ?j = unat x div 4096"
    using div_mult2_eq[of "unat x" 4096 1024] div_mult_mod_eq[of "unat x div 4096" 1024] by simp
  note v = set_ptes_vpages[OF "1.prems"(1) k]
  show ?case
  proof (cases "x < e AND push_bit 22 (- 1)")
    case True
    note n = unat_pde_next[OF True]
    let ?vs = "[unat x div 4096 ..< 1024 * (?k + 1)]"
    let ?r = "set_vpages pd attr ?vs (p, m)"
    have s: "set_ptes (tab pd m ?k) attr (ptes_from x) (p, m) = ?r"
      using v[of "[?j ..< 1024]" attr p] unfolding pte_index_eq upt_page kj by (simp add: algebra_simps)
    have vs: "\<forall>w\<in>set ?vs. w < 2 ^ 20 \<and> present pd m (w div 1024)"
    proof
      fix w assume w: "w \<in> set ?vs"
      then have "1024 * ?k \<le> w" "w < 1024 * (?k + 1)" using kj by auto
      then have "w div 1024 = ?k" using div_nat_eqI[of 1024 ?k w] by (simp add: mult.commute)
      then show "w < 2 ^ 20 \<and> present pd m (w div 1024)" using k \<open>w < 1024 * (?k + 1)\<close> by simp
    qed
    have d: "same_dir pd m (snd ?r)" by (rule set_vpages_dir[OF "1.prems"(1) vs])
    have b: "unat e div 2 ^ 22 < 1024" using unat_less_32[of e] by (simp add: less_mult_imp_div_less)
    have "\<forall>i. unat (push_bit 22 (drop_bit 22 x + 1) :: u32) div 2 ^ 22 \<le> i \<longrightarrow> i \<le> unat e div 2 ^ 22 \<longrightarrow> present pd (snd ?r) i"
      using "1.prems"(3) same_dir_tab[OF d] b unfolding n(1) by simp
    note ih = "1.IH"[OF True, of "snd ?r" "fst ?r", OF _ _ this]
    have a: "[unat x div 4096 ..< Suc (unat e div 4096)]
        = ?vs @ [unat (push_bit 22 (drop_bit 22 x + 1) :: u32) div 4096 ..< Suc (unat e div 4096)]"
    proof -
      have q: "unat (push_bit 22 (drop_bit 22 x + 1) :: u32) div 4096 = 1024 * (?k + 1)" unfolding n(1) by simp
      have "unat x div 4096 \<le> 1024 * (?k + 1)" using kj by (simp add: mod_less_divisor less_imp_le)
      moreover have "1024 * (?k + 1) \<le> Suc (unat e div 4096)"
        using div_le_mono[OF n(2), of 4096] by simp
      ultimately show ?thesis unfolding q by (metis le_add_diff_inverse upt_add_eq_append)
    qed
    show ?thesis
      unfolding set_loops_rec[of pd attr x] if_P[OF True] snd_conv drop22_index[of x] s a set_vpages_append
      using ih n(1,2) same_dir_layout[OF d] "1.prems"(1) by (simp add: drop22_index)
  next
    case False
    note eq = not_below_pde[OF False "1.prems"(2)]
    have ej: "1024 * ?k + Suc (unat e div 4096 mod 1024) = Suc (unat e div 4096)"
      using div_mult2_eq[of "unat e" 4096 1024] div_mult_mod_eq[of "unat e div 4096" 1024] eq by simp
    have "\<forall>j\<in>set [?j ..< Suc (unat e div 4096 mod 1024)]. j < 1024"
      using mod_less_divisor[of 1024 "unat e div 4096"] by (auto simp del: upt_Suc)
    note v = v[OF this, of attr p, unfolded upt_page kj ej]
    show ?thesis
      unfolding set_loops_rec[of pd attr x] if_not_P[OF False] snd_conv drop22_index[of x] pte_index_eq
      by (rule v)
  qed
qed

section \<open>Entering new tables\<close>

lemma and_3ff: "(w :: u32) AND 0x3ff = take_bit 10 w"
  by (simp add: take_bit_eq_mask mask_eq_exp_minus_1)

lemma and_3: "(w :: u32) AND 3 = take_bit 2 w"
  by (simp add: take_bit_eq_mask mask_eq_exp_minus_1)

lemma mk_pte_fields [simp]:
  "push_bit 12 (pte_physAddr (mk_pte p a f)) = push_bit 12 p"
  "pte_flags (mk_pte p a f) = f AND 0x3ff"
  unfolding mk_pte_def pte_physAddr_def pte_flags_def and_3ff and_3
  by (rule bit_word_eqI, auto simp: bit_simps)+

definition range_of :: "addr \<Rightarrow> nat \<Rightarrow> nat set" where
  "range_of a n = {unat a ..< unat a + 4096 * n}"

text \<open>Free pages, cleared, that belong to nothing of the address space.\<close>

definition fresh_pages :: "addr \<Rightarrow> (addr \<Rightarrow> u32) \<Rightarrow> addr \<Rightarrow> nat \<Rightarrow> bool" where
  "fresh_pages pd m b n \<longleftrightarrow> unat b + 4096 * n \<le> 2 ^ 32 \<and> (0 < n \<longrightarrow> b \<noteq> NIL) \<and> range_of b n \<inter> bytes pd 8192 = {}
     \<and> (\<forall>i<1024. present pd m i \<longrightarrow> range_of b n \<inter> bytes (tab pd m i) 4096 = {})
     \<and> unat (LINEAR 0) \<notin> range_of b n
     \<and> (\<forall>j<1024 * n. m (word_at b (word_of_nat j)) = 0)"

lemma add_table:
  assumes "layout pd m" "i < 1024" "missing pd m (word_of_nat i)"
    "fresh_pages pd m b (Suc n)" "b = LINEAR (push_bit 12 pn)"
  defines "m' \<equiv> m(word_at pd (word_of_nat i) := mk_pte pn 0 (PTPRESENT OR PTUSER OR PTWRITE))"
  shows "layout pd m'" and "fresh_pages pd m' (b + 4096) n"
    and "\<And>j. j < 1024 \<Longrightarrow> present pd m' j = (j = i \<or> present pd m j) \<and> tab pd m' j = (if j = i then b else tab pd m j)"
    and "\<And>v. v < 2 ^ 20 \<Longrightarrow> entry pd m' v = (if v div 1024 = i then Some 0 else entry pd m v)"
proof -
  have l: "unat pd + 8192 \<le> 2 ^ 32" using assms(1) by (simp add: layout_def)
  have f: "unat b + 4096 * Suc n \<le> 2 ^ 32" "range_of b (Suc n) \<inter> bytes pd 8192 = {}"
      "\<And>j. j < 1024 \<Longrightarrow> present pd m j \<Longrightarrow> range_of b (Suc n) \<inter> bytes (tab pd m j) 4096 = {}"
      "unat (LINEAR 0) \<notin> range_of b (Suc n)"
      "\<And>j. j < 1024 * Suc n \<Longrightarrow> m (word_at b (word_of_nat j)) = 0" "b \<noteq> NIL"
    using assms(4) by (simp_all add: fresh_pages_def)
  have dw: "word_at pd (word_of_nat j) = word_at pd (word_of_nat i) \<longleftrightarrow> j = i" if "j < 1024" for j
    using word_at_inj[of pd 2048 j i] l that assms(2) by simp
  show pt: "present pd m' j = (j = i \<or> present pd m j) \<and> tab pd m' j = (if j = i then b else tab pd m j)"
    if "j < 1024" for j
    using dw[OF that] by (auto simp: m'_def missing_def page_table_def assms(5))
  have bb: "bytes b 4096 \<subseteq> range_of b (Suc n)" by (auto simp: bytes_def range_of_def)
  have b0: "unat b + 4096 \<le> 2 ^ 32" using f(1) by simp
  have nz: "b \<noteq> LINEAR 0" using f(4) by (auto simp: range_of_def)
  show lay: "layout pd m'"
    unfolding layout_def
  proof (intro conjI allI impI)
    fix j assume j: "j < 1024" "present pd m' j"
    show "unat (tab pd m' j) + 4096 \<le> 2 ^ 32" "bytes pd 8192 \<inter> bytes (tab pd m' j) 4096 = {}" "tab pd m' j \<noteq> LINEAR 0"
        "tab pd m' j \<noteq> NIL"
      using pt[OF j(1)] j assms(1) b0 bb f(2,6) nz by (auto simp: layout_def)
  next
    fix j k assume j: "j < 1024" "k < 1024" "j \<noteq> k" "present pd m' j" "present pd m' k"
    show "bytes (tab pd m' j) 4096 \<inter> bytes (tab pd m' k) 4096 = {}"
    proof -
      have old: "bytes (tab pd m j) 4096 \<inter> bytes (tab pd m k) 4096 = {}" if "present pd m j" "present pd m k"
        using assms(1) that j(1-3) unfolding layout_def by blast
      have new: "bytes b 4096 \<inter> bytes (tab pd m x) 4096 = {}" if "x < 1024" "present pd m x" for x
        using f(3)[OF that] bb by blast
      show ?thesis
        using pt[OF j(1)] pt[OF j(2)] j old new[OF j(1)] new[OF j(2)] by (cases "j = i"; cases "k = i") (simp_all add: Int_commute)
    qed
  qed (rule l)
  have ub: "unat (b + 4096) = unat b + 4096" if "n \<noteq> 0"
    using f(1) that by (subst unat_add_small) simp_all
  have sub: "range_of (b + 4096) n \<subseteq> range_of b (Suc n) - bytes b 4096"
    using ub by (cases "n = 0") (auto simp: range_of_def bytes_def)
  have w: "word_at pd (word_of_nat i) \<noteq> word_at b (word_of_nat j)" if "j < 1024 * Suc n" for j
  proof -
    have "unat (word_at b (word_of_nat j)) = unat b + 4 * j"
      using f(1) that by (intro unat_word_at[where n = "1024 * Suc n"]) simp_all
    then have "unat (word_at b (word_of_nat j)) \<in> range_of b (Suc n)" using that by (simp add: range_of_def)
    moreover have "unat (word_at pd (word_of_nat i)) \<in> bytes pd 8192"
      using l assms(2) by (intro word_at_in[where n = 2048]) simp_all
    ultimately show ?thesis using f(2) by auto
  qed
  show "fresh_pages pd m' (b + 4096) n"
    unfolding fresh_pages_def
  proof (intro conjI allI impI)
    show "unat (b + 4096) + 4096 * n \<le> 2 ^ 32" using f(1) ub unat_less_32[of "b + 4096"] by (cases "n = 0") auto
    show "b + 4096 \<noteq> NIL" if "0 < n" using ub that by (metis add_is_0 not_gr_zero unsigned_0 zero_neq_numeral)
    show "range_of (b + 4096) n \<inter> bytes pd 8192 = {}" using sub f(2) by blast
    show "range_of (b + 4096) n \<inter> bytes (tab pd m' j) 4096 = {}" if "j < 1024" "present pd m' j" for j
      using pt[OF that(1)] that sub f(3)[OF that(1)] by (cases "j = i") auto
    show "unat (LINEAR 0) \<notin> range_of (b + 4096) n" using sub f(4) by blast
    show "m' (word_at (b + 4096) (word_of_nat j)) = 0" if "j < 1024 * n" for j
    proof -
      have e: "word_at (b + 4096) (word_of_nat j) = word_at b (word_of_nat (1024 + j))" by (simp add: algebra_simps)
      have j: "1024 + j < 1024 * Suc n" using that by simp
      show ?thesis using w[OF j] f(5)[OF j] unfolding e m'_def fun_upd_apply by metis
    qed
  qed
  show "entry pd m' v = (if v div 1024 = i then Some 0 else entry pd m v)" if v: "v < 2 ^ 20" for v
  proof -
    have k: "v div 1024 < 1024" "v mod 1024 < 1024" using v by (simp_all add: less_mult_imp_div_less)
    show ?thesis
    proof (cases "v div 1024 = i")
      case True
      then show ?thesis using pt[OF k(1)] w[of "v mod 1024"] f(5)[of "v mod 1024"] k(2)
        by (simp add: entry_def) (simp add: m'_def)
    next
      case False
      then show ?thesis using pt[OF k(1)] dir_not_table[OF assms(1) k(1) _ k(2), of i] assms(2)
        by (auto simp: entry_def) (auto simp: m'_def)
    qed
  qed
qed

lemma add_pages:
  assumes "fresh_pages pd m b (Suc n)"
  shows "range_of (b + 4096) n \<subseteq> range_of b (Suc n)" "bytes b 4096 \<subseteq> range_of b (Suc n)"
proof -
  have "unat (b + 4096) = unat b + 4096" if "n \<noteq> 0"
    using assms that unfolding fresh_pages_def by (subst unat_add_small) auto
  then show "range_of (b + 4096) n \<subseteq> range_of b (Suc n)" by (cases "n = 0") (auto simp: range_of_def)
qed (auto simp: range_of_def bytes_def)

lemma enter_tables_ok:
  assumes "layout pd m" "fresh_pages pd m (LINEAR (push_bit 12 pn)) n"
    "length (filter (missing pd m) (map word_of_nat is)) \<le> n" "distinct is" "\<forall>i\<in>set is. i < 1024"
  shows "let m' = enter_tables pd (map word_of_nat is) pn m in layout pd m'
    \<and> (\<forall>i<1024. present pd m' i = (i \<in> set is \<or> present pd m i))
    \<and> (\<forall>i<1024. present pd m i \<longrightarrow> tab pd m' i = tab pd m i)
    \<and> (\<forall>i<1024. present pd m' i \<longrightarrow> \<not> present pd m i \<longrightarrow> bytes (tab pd m' i) 4096 \<subseteq> range_of (LINEAR (push_bit 12 pn)) n)
    \<and> (\<forall>v<2 ^ 20. entry pd m' v = (if v div 1024 \<in> set is \<and> \<not> present pd m (v div 1024) then Some 0 else entry pd m v))"
  using assms
proof (induction "is" arbitrary: m pn n)
  case (Cons i "is")
  show ?case
  proof (cases "present pd m i")
    case True
    then have "enter_tables pd (map word_of_nat (i # is)) pn m = enter_tables pd (map word_of_nat is) pn m" by simp
    moreover note Cons.IH[OF Cons.prems(1,2)]
    ultimately show ?thesis using Cons.prems True by (auto simp: Let_def)
  next
    case False
    let ?m = "m(word_at pd (word_of_nat i) := mk_pte pn 0 (PTPRESENT OR PTUSER OR PTWRITE))"
    obtain n' where n: "n = Suc n'" using Cons.prems(3) False by (cases n) auto
    have i: "i < 1024" "missing pd m (word_of_nat i)" using Cons.prems(5) False by simp_all
    note t = add_table[OF Cons.prems(1) i Cons.prems(2)[unfolded n] refl]
    have nx: "LINEAR (push_bit 12 (pn + 1)) = LINEAR (push_bit 12 pn) + 4096"
      by (simp add: LINEAR_def push_bit_eq_mult algebra_simps)
    have "filter (missing pd ?m) (map word_of_nat is) = filter (missing pd m) (map word_of_nat is)"
      using t(3) Cons.prems(4,5) by (intro filter_cong refl) auto
    then have c: "length (filter (missing pd ?m) (map word_of_nat is)) \<le> n'"
      using Cons.prems(3) i(2) n by simp
    have e: "enter_tables pd (map word_of_nat (i # is)) pn m = enter_tables pd (map word_of_nat is) (pn + 1) ?m"
      using i(2) by simp
    have d: "distinct is" "\<forall>j\<in>set is. j < 1024" "i \<notin> set is" using Cons.prems(4,5) by simp_all
    note ih = Cons.IH[OF t(1) t(2)[folded nx] c d(1,2), unfolded Let_def]
    let ?r = "enter_tables pd (map word_of_nat is) (pn + 1) ?m"
    have bb: "range_of (LINEAR (push_bit 12 (pn + 1))) n' \<subseteq> range_of (LINEAR (push_bit 12 pn)) n"
        "bytes (LINEAR (push_bit 12 pn)) 4096 \<subseteq> range_of (LINEAR (push_bit 12 pn)) n"
      using add_pages[OF Cons.prems(2)[unfolded n]] unfolding nx n by auto
    show ?thesis unfolding e Let_def
    proof (intro conjI allI impI)
      show "layout pd ?r" using ih by blast
      show "present pd ?r j = (j \<in> set (i # is) \<or> present pd m j)" if "j < 1024" for j
        using ih t(3)[OF that] that by auto
      show "tab pd ?r j = tab pd m j" if "j < 1024" "present pd m j" for j
        using ih t(3)[OF that(1)] that i(2) by auto
      show "bytes (tab pd ?r j) 4096 \<subseteq> range_of (LINEAR (push_bit 12 pn)) n"
        if "j < 1024" "present pd ?r j" "\<not> present pd m j" for j
        using ih t(3)[OF that(1)] that bb by (cases "j = i") (metis, blast)
      show "entry pd ?r v = (if v div 1024 \<in> set (i # is) \<and> \<not> present pd m (v div 1024) then Some 0 else entry pd m v)"
        if "v < 2 ^ 20" for v
        using ih t(3)[of "v div 1024"] t(4)[OF that] that i(2) d(3) by (auto simp: less_mult_imp_div_less)
    qed
  qed
qed (simp add: Let_def)

section \<open>Allocating the missing tables\<close>

lemma AdjustSize_pages:
  assumes "0 < n" "n \<le> 2 ^ 18"
  shows "AdjustSize (push_bit 12 (word_of_nat n)) = word_of_nat (4096 * n)" "unat (word_of_nat (4096 * n) :: u32) = 4096 * n"
proof -
  show u: "unat (word_of_nat (4096 * n) :: u32) = 4096 * n" by (rule of_nat_inverse[OF refl]) (use assms in simp)
  have p: "push_bit 12 (word_of_nat n) = (word_of_nat (4096 * n) :: u32)" by (simp add: push_bit_eq_mult mult.commute)
  show "AdjustSize (push_bit 12 (word_of_nat n)) = word_of_nat (4096 * n)"
    unfolding p AdjustSize_def
  proof -
    have a: "unat (word_of_nat (4096 * n) + 3 :: u32) = 4096 * n + 3"
      using u assms by (subst unat_add_small) simp_all
    have "(3 + 4 * (1024 * n)) div 4 = 1024 * n" for n :: nat by simp
    then have "(4096 * n + 3) div 4 * 4 = 4096 * n" for n :: nat by (simp add: add.commute)
    then have "unat ((word_of_nat (4096 * n) + 3 :: u32) AND (- 4)) = 4096 * n" unfolding unat_mask4 a .
    then have "(word_of_nat (4096 * n) + 3 :: u32) AND (- 4) = word_of_nat (4096 * n)"
      unfolding word_unat_eq_iff u .
    moreover have "\<not> (word_of_nat (4096 * n) :: u32) < entry_size"
      unfolding word_less_nat_alt u using assms by simp
    ultimately show "(if word_of_nat (4096 * n) < entry_size then entry_size
        else (word_of_nat (4096 * n) + 3) AND (- 4)) = (word_of_nat (4096 * n) :: u32)" by metis
  qed
qed

lemma CKmemAllocPages_spec:
  assumes ok: "CKmem_ok m" and n: "0 < n" "n \<le> 2 ^ 18"
  shows "\<exists>r m'. CKmemAllocPages (word_of_nat n) m = Some (r, m') \<and> CKmem_ok m'
    \<and> (if r = NIL then m' = m
       else range_of r n \<subseteq> CKmem_avail m \<and> CKmem_avail m' = CKmem_avail m - range_of r n
         \<and> unat r + 4096 * n \<le> 2 ^ 32 \<and> 4096 dvd unat r)"
proof -
  obtain xs where i: "fl_inv (CKFreeList m) xs" "AllocChunk (CKFreeList m) = None"
      "PrepareFreeChunk (CKFreeList m) = None" "CKFreeListLock m = 0"
    using ok by (auto simp: CKmem_ok_def)
  note a = AdjustSize_pages[OF n]
  have s: "24 \<le> unat (word_of_nat (4096 * n) :: u32)" using a(2) n by simp
  obtain r D where d: "KLfreeListMemAllocAlign (push_bit 12 (word_of_nat n)) 12 (CKFreeList m) = Some (r, D)"
      "if r = NIL then D = CKFreeList m else allocated (CKFreeList m) xs r (word_of_nat (4096 * n)) D \<and> 2 ^ 12 dvd unat r"
    using KLfreeListMemAllocAlign_ok[OF i(1,2) a(1)[symmetric] s, of 12] by auto
  let ?m = "m\<lparr>CKFreeListLock := 0, CKFreeList := D\<rparr>"
  have c: "CKmemAllocPages (word_of_nat n) m = Some (r, ?m)" using d i(4) by (simp add: CKmemAllocPages_def)
  show ?thesis
  proof (cases "r = NIL")
    case True
    then have "?m = m" using d i(4) by simp
    then show ?thesis using c ok True by simp
  next
    case False
    have b: "bytes r (word_of_nat (4096 * n)) = range_of r n" using a(2) by (simp add: bytes_def range_of_def)
    obtain xs' where x: "fl_inv D xs'" "range_of r n \<subseteq> free_bytes (CKFreeList m) xs"
        "free_bytes D xs' = free_bytes (CKFreeList m) xs - range_of r n"
        "unat r + 4096 * n \<le> 2 ^ 32" "AllocChunk D = None" "PrepareFreeChunk D = None"
      using d False i(2,3) a(2) unfolding b[symmetric] by (auto simp: allocated_def)
    have "CKmem_ok ?m" using x by (auto simp: CKmem_ok_def)
    moreover have "CKmem_avail ?m = free_bytes D xs'" using CKmem_avail[of ?m xs'] x(1) by simp
    ultimately show ?thesis using c x CKmem_avail[OF i(1)] False d(2) by simp
  qed
qed

lemma clear_words_at: "clear_words b n m x = (if \<exists>j<n. x = word_at b (word_of_nat j) then 0 else m x)"
  by (induction n) (auto simp: less_Suc_eq)

text \<open>An address space whose directory and tables are no free memory of the kernel.\<close>

definition as_wf :: "addr \<Rightarrow> 'a KERNEL_scheme \<Rightarrow> bool" where
  "as_wf pd s \<longleftrightarrow> layout pd (kmem s) \<and> CKmem_ok (ckmem s) \<and> bytes pd 8192 \<inter> CKmem_avail (ckmem s) = {}
     \<and> (\<forall>i<1024. present pd (kmem s) i \<longrightarrow> bytes (tab pd (kmem s) i) 4096 \<inter> CKmem_avail (ckmem s) = {})
     \<and> unat (LINEAR 0) \<notin> CKmem_avail (ckmem s)"

text \<open>Clearing pages that are apart from the address space, and counting them.\<close>

lemma apart_neq: "unat a \<in> A \<Longrightarrow> unat b \<in> B \<Longrightarrow> A \<inter> B = {} \<Longrightarrow> a \<noteq> b"
  by auto

lemma clear_fresh:
  fixes c :: u32
  assumes lay: "layout pd m" and nb: "b \<noteq> NIL" and b: "unat b + 4096 * n \<le> 2 ^ 32" "range_of b n \<inter> bytes pd 8192 = {}"
    "\<forall>i<1024. present pd m i \<longrightarrow> range_of b n \<inter> bytes (tab pd m i) 4096 = {}"
    "unat (LINEAR 0) \<notin> range_of b n" and k: "k < 1024"
  defines "m1 \<equiv> clear_words b (n * 1024) m"
  defines "m2 \<equiv> m1(word_at (pd + 4096) (word_of_nat k) := c)"
  shows "same_dir pd m m2" "fresh_pages pd m2 b n" "\<forall>v<2 ^ 20. entry pd m2 v = entry pd m v"
proof -
  have l: "unat pd + 8192 \<le> 2 ^ 32" using lay by (simp add: layout_def)
  have cw: "word_at (pd + 4096) (word_of_nat k) = word_at pd (word_of_nat (1024 + k))" by (simp add: algebra_simps)
  have w: "unat (word_at b (word_of_nat j)) \<in> range_of b n" if "j < n * 1024" for j
    using b(1) that by (subst unat_word_at[where n = "n * 1024"]) (simp_all add: range_of_def)
  have pdw: "unat (word_at pd (word_of_nat j)) \<in> bytes pd 8192" if "j < 2048" for j
    using l that by (intro word_at_in[where n = 2048]) simp_all
  have o1: "m1 x = m x" if "unat x \<notin> range_of b n" for x
    using w that by (auto simp: m1_def clear_words_at)
  have o2: "m2 x = m x" if "unat x \<notin> range_of b n" "x \<noteq> word_at pd (word_of_nat (1024 + k))" for x
    using o1[OF that(1)] that(2) unfolding m2_def cw by simp
  show d: "same_dir pd m m2" unfolding same_dir_def
  proof (intro allI impI)
    fix i :: nat assume i: "i < 1024"
    have "word_at pd (word_of_nat i) \<noteq> word_at pd (word_of_nat (1024 + k))"
      using word_at_inj[of pd 2048 i "1024 + k"] l i k by simp
    moreover have "unat (word_at pd (word_of_nat i)) \<notin> range_of b n" using pdw[of i] b(2) i by auto
    ultimately show "m2 (word_at pd (word_of_nat i)) = m (word_at pd (word_of_nat i))" using o2 by blast
  qed
  show "\<forall>v<2 ^ 20. entry pd m2 v = entry pd m v"
  proof (intro allI impI)
    fix v :: nat assume v: "v < 2 ^ 20"
    then have j: "v div 1024 < 1024" "v mod 1024 < 1024" by (simp_all add: less_mult_imp_div_less)
    show "entry pd m2 v = entry pd m v"
    proof (cases "present pd m (v div 1024)")
      case True
      have "unat (tab pd m (v div 1024)) + 4096 \<le> 2 ^ 32" using lay j(1) True by (simp add: layout_def)
      then have "unat (word_at (tab pd m (v div 1024)) (word_of_nat (v mod 1024))) \<in> bytes (tab pd m (v div 1024)) 4096"
        using j(2) by (intro word_at_in[where n = 1024]) simp_all
      moreover have "range_of b n \<inter> bytes (tab pd m (v div 1024)) 4096 = {}" using b(3) j(1) True by blast
      ultimately have "m2 (word_at (tab pd m (v div 1024)) (word_of_nat (v mod 1024)))
          = m (word_at (tab pd m (v div 1024)) (word_of_nat (v mod 1024)))"
        using dir_not_table[OF lay j(1) True j(2), of "1024 + k"] k by (intro o2) auto
      then show ?thesis using True same_dir_tab[OF d j(1)] by (simp add: entry_def)
    qed (use same_dir_tab[OF d j(1)] in \<open>simp add: entry_def\<close>)
  qed
  have z: "m2 (word_at b (word_of_nat j)) = 0" if "j < 1024 * n" for j
  proof -
    have "word_at b (word_of_nat j) \<noteq> word_at pd (word_of_nat (1024 + k))"
      using that k by (intro apart_neq[OF w pdw b(2)]) simp_all
    then show ?thesis using that unfolding m2_def cw by (auto simp: m1_def clear_words_at mult.commute)
  qed
  show "fresh_pages pd m2 b n" unfolding fresh_pages_def
    using b z same_dir_tab[OF d] nb by simp
qed

lemma pdes_index:
  assumes "unat l \<le> unat e" "unat e < 0xFFC00000" "unat e mod 2 ^ 22 \<noteq> 0"
  shows "pdes l e = map word_of_nat [unat l div 2 ^ 22 ..< Suc (unat e div 2 ^ 22)]"
    "pde_after l e = word_of_nat (Suc (unat e div 2 ^ 22))" "Suc (unat e div 2 ^ 22) < 1024"
proof -
  have s: "unat (e + 0x3fffff) = unat e + 0x3fffff" using assms(2) by (subst unat_add_small) simp_all
  have "(unat e + (2 ^ 22 - 1)) div 2 ^ 22 = Suc (unat e div 2 ^ 22)"
  proof -
    obtain q r where q: "q = unat e div 2 ^ 22" "r = unat e mod 2 ^ 22" by blast
    then have "unat e = q * 2 ^ 22 + r" "r < 2 ^ 22" "0 < r" using assms(3) by simp_all
    then show ?thesis unfolding q(1)[symmetric] by (intro div_nat_eqI) auto
  qed
  then have d: "unat (drop_bit 22 (e + 0x3fffff)) = Suc (unat e div 2 ^ 22)" unfolding unat_drop22 s by simp
  show "pdes l e = map word_of_nat [unat l div 2 ^ 22 ..< Suc (unat e div 2 ^ 22)]"
    unfolding pdes_def d unfolding unat_drop22 ..
  have "drop_bit 22 l \<le> drop_bit 22 (e + 0x3fffff)"
    unfolding word_le_nat_alt d unfolding unat_drop22 using div_le_mono[OF assms(1), of "2 ^ 22"] by simp
  then have "pde_after l e = drop_bit 22 (e + 0x3fffff)" by (simp add: pde_after_def max_def)
  then show "pde_after l e = word_of_nat (Suc (unat e div 2 ^ 22))" unfolding d[symmetric] by simp
  have "unat e div 2 ^ 22 < 1023" using assms(2) by (simp add: div_less_iff_less_mult)
  then show "Suc (unat e div 2 ^ 22) < 1024" by simp
qed

lemma page_aligned_phys:
  assumes "4096 dvd unat b"
  shows "LINEAR (push_bit 12 (drop_bit 12 (PHYS b))) = b"
proof -
  obtain q where q: "unat b = 4096 * q" using assms by blast
  have "b = word_of_nat (unat b)" by simp
  then have b: "b = push_bit 12 (word_of_nat q)" unfolding q by (simp add: push_bit_eq_mult mult.commute)
  have "PHYS b = push_bit 12 (word_of_nat q - 0xc0000)" unfolding b PHYS_def by (simp add: push_bit_eq_mult algebra_simps)
  moreover have "push_bit 12 (drop_bit 12 (push_bit 12 x)) = push_bit 12 x" for x :: u32
    by (rule bit_word_eqI) (auto simp: bit_simps)
  ultimately have "push_bit 12 (drop_bit 12 (PHYS b)) = PHYS b" by metis
  then show ?thesis by (simp add: LINEAR_def PHYS_def)
qed

lemma alloc_tables_ok:
  assumes wf: "as_wf pd s" and e: "unat l \<le> unat e" "unat e < 0xFFC00000" "unat e mod 2 ^ 22 \<noteq> 0"
  shows "\<exists>ok s1 m k. alloc_tables_for pd l e s = Some (ok, s1) \<and> s1 = s\<lparr>ckmem := m, kmem := k\<rparr> \<and> as_wf pd s1
    \<and> (\<not> ok \<longrightarrow> s1 = s)
    \<and> (ok \<longrightarrow> (\<forall>i<1024. present pd k i = (unat l div 2 ^ 22 \<le> i \<and> i \<le> unat e div 2 ^ 22 \<or> present pd (kmem s) i))
        \<and> (\<forall>v<2 ^ 20. entry pd k v = (if unat l div 2 ^ 22 \<le> v div 1024 \<and> v div 1024 \<le> unat e div 2 ^ 22
             \<and> \<not> present pd (kmem s) (v div 1024) then Some 0 else entry pd (kmem s) v)))"
proof -
  note p = pdes_index[OF e]
  let ?is = "[unat l div 2 ^ 22 ..< Suc (unat e div 2 ^ 22)]"
  let ?n = "length (filter (missing pd (kmem s)) (map word_of_nat ?is))"
  have lay: "layout pd (kmem s)" and mem: "CKmem_ok (ckmem s)" and
    av: "bytes pd 8192 \<inter> CKmem_avail (ckmem s) = {}" "unat (LINEAR 0) \<notin> CKmem_avail (ckmem s)" and
    avt: "\<And>i. i < 1024 \<Longrightarrow> present pd (kmem s) i \<Longrightarrow> bytes (tab pd (kmem s) i) 4096 \<inter> CKmem_avail (ckmem s) = {}"
    using wf by (auto simp: as_wf_def)
  have same: "s = s\<lparr>ckmem := ckmem s, kmem := kmem s\<rparr>" by simp
  show ?thesis
  proof (cases "?n = 0")
    case True
    then have "\<forall>i\<in>set ?is. present pd (kmem s) i" by (auto simp: filter_empty_conv simp del: upt_Suc)
    then have "\<forall>i<1024. present pd (kmem s) i = (unat l div 2 ^ 22 \<le> i \<and> i \<le> unat e div 2 ^ 22 \<or> present pd (kmem s) i)"
        "\<forall>v<2 ^ 20. entry pd (kmem s) v = (if unat l div 2 ^ 22 \<le> v div 1024 \<and> v div 1024 \<le> unat e div 2 ^ 22
             \<and> \<not> present pd (kmem s) (v div 1024) then Some 0 else entry pd (kmem s) v)"
      by (auto simp del: upt_Suc)
    moreover have "alloc_tables_for pd l e s = Some (True, s)"
      unfolding alloc_tables_for_def p(1) Let_def if_P[OF True] ..
    ultimately show ?thesis using wf same by blast
  next
    case False
    have "?n \<le> Suc (unat e div 2 ^ 22) - unat l div 2 ^ 22"
      using length_filter_le[of "missing pd (kmem s)" "map word_of_nat ?is"] by (simp only: length_map length_upt)
    moreover have "(1024 :: nat) \<le> 2 ^ 18" by simp
    ultimately have n: "0 < ?n" "?n \<le> 2 ^ 18" using False p(3) by linarith+
    obtain b m where a: "CKmemAllocPages (word_of_nat ?n) (ckmem s) = Some (b, m)" "CKmem_ok m"
      "if b = NIL then m = ckmem s else range_of b ?n \<subseteq> CKmem_avail (ckmem s)
         \<and> CKmem_avail m = CKmem_avail (ckmem s) - range_of b ?n \<and> unat b + 4096 * ?n \<le> 2 ^ 32 \<and> 4096 dvd unat b"
      using CKmemAllocPages_spec[OF mem n] by blast
    show ?thesis
    proof (cases "b = NIL")
      case True
      then have "alloc_tables_for pd l e s = Some (False, s)"
        using a unfolding alloc_tables_for_def p(1) Let_def if_not_P[OF False] by (simp add: with_mem_def)
      then show ?thesis using wf same by blast
    next
      case nb: False
      then have b: "range_of b ?n \<subseteq> CKmem_avail (ckmem s)" "CKmem_avail m = CKmem_avail (ckmem s) - range_of b ?n"
          "unat b + 4096 * ?n \<le> 2 ^ 32" "4096 dvd unat b" using a(3) by auto
      define n where "n = ?n"
      define m1 where "m1 = clear_words b (n * 1024) (kmem s)"
      define q where "q = Suc (unat e div 2 ^ 22)"
      define m2 where "m2 = m1(word_at (pd + 4096) (word_of_nat q) := m1 (word_at (pd + 4096) (word_of_nat q)) + word_of_nat n)"
      define js where "js = [unat l div 2 ^ 22 ..< q]"
      define k where "k = enter_tables pd (map word_of_nat js) (drop_bit 12 (PHYS b)) m2"
      have al: "alloc_tables_for pd l e s = Some (True, s\<lparr>ckmem := m, kmem := k\<rparr>)"
        using a(1) nb unfolding alloc_tables_for_def p(1,2) Let_def if_not_P[OF False] k_def js_def m2_def m1_def n_def q_def
        by (simp add: with_mem_def del: upt_Suc of_nat_Suc)
      note b = b[folded n_def]
      have av0: "\<forall>i<1024. present pd (kmem s) i \<longrightarrow> range_of b n \<inter> bytes (tab pd (kmem s) i) 4096 = {}"
        using avt b(1) by blast
      have q: "q < 1024" using p(3) by (simp add: q_def)
      have "range_of b n \<inter> bytes pd 8192 = {}" "unat (LINEAR 0) \<notin> range_of b n" using av b(1) by blast+
      note c = clear_fresh[OF lay nb b(3) this(1) av0 this(2) q, of "m1 (word_at (pd + 4096) (word_of_nat q)) + word_of_nat n",
        folded m1_def, folded m2_def]
      have bp: "LINEAR (push_bit 12 (drop_bit 12 (PHYS b))) = b" by (rule page_aligned_phys[OF b(4)])
      have pr: "present pd m2 i = present pd (kmem s) i" "tab pd m2 i = tab pd (kmem s) i" if "i < 1024" for i
        using same_dir_tab[OF c(1) that] by auto
      have isb: "distinct js" "\<forall>i\<in>set js. i < 1024" using q by (auto simp: js_def)
      have "filter (missing pd m2) (map word_of_nat js) = filter (missing pd (kmem s)) (map word_of_nat js)"
        using pr(1) isb(2) by (intro filter_cong refl) auto
      then have cnt: "length (filter (missing pd m2) (map word_of_nat js)) \<le> n" by (simp add: n_def js_def q_def)
      have f: "fresh_pages pd m2 (LINEAR (push_bit 12 (drop_bit 12 (PHYS b)))) n" unfolding bp by (rule c(2))
      have l2: "layout pd m2" using same_dir_layout[OF c(1)] lay by simp
      have en: "layout pd k" "\<And>i. i < 1024 \<Longrightarrow> present pd k i = (i \<in> set js \<or> present pd m2 i)"
          "\<And>i. i < 1024 \<Longrightarrow> present pd m2 i \<Longrightarrow> tab pd k i = tab pd m2 i"
          "\<And>i. i < 1024 \<Longrightarrow> present pd k i \<Longrightarrow> \<not> present pd m2 i \<Longrightarrow> bytes (tab pd k i) 4096 \<subseteq> range_of b n"
          "\<And>v. v < 2 ^ 20 \<Longrightarrow> entry pd k v = (if v div 1024 \<in> set js \<and> \<not> present pd m2 (v div 1024) then Some 0 else entry pd m2 v)"
        using enter_tables_ok[OF l2 f cnt isb, unfolded Let_def bp, folded k_def] by blast+
      have js: "i \<in> set js \<longleftrightarrow> unat l div 2 ^ 22 \<le> i \<and> i \<le> unat e div 2 ^ 22" for i
        by (auto simp: js_def q_def)
      have "bytes (tab pd k i) 4096 \<inter> CKmem_avail m = {}" if i: "i < 1024" "present pd k i" for i
      proof (cases "present pd (kmem s) i")
        case True
        then show ?thesis using en(3)[OF i(1)] pr[OF i(1)] avt[OF i(1) True] b(2) by auto
      next
        case False
        then show ?thesis using en(4)[OF i] pr[OF i(1)] b(2) by blast
      qed
      then have "as_wf pd (s\<lparr>ckmem := m, kmem := k\<rparr>)"
        unfolding as_wf_def using en(1) a(2) b(2) av by auto
      moreover have "\<forall>i<1024. present pd k i = (unat l div 2 ^ 22 \<le> i \<and> i \<le> unat e div 2 ^ 22 \<or> present pd (kmem s) i)"
        using en(2) pr(1) js by blast
      moreover have "\<forall>v<2 ^ 20. entry pd k v = (if unat l div 2 ^ 22 \<le> v div 1024 \<and> v div 1024 \<le> unat e div 2 ^ 22
             \<and> \<not> present pd (kmem s) (v div 1024) then Some 0 else entry pd (kmem s) v)"
      proof (intro allI impI)
        fix v :: nat assume v: "v < 2 ^ 20"
        then have vd: "v div 1024 < 1024" by (simp add: less_mult_imp_div_less)
        show "entry pd k v = (if unat l div 2 ^ 22 \<le> v div 1024 \<and> v div 1024 \<le> unat e div 2 ^ 22
             \<and> \<not> present pd (kmem s) (v div 1024) then Some 0 else entry pd (kmem s) v)"
          unfolding en(5)[OF v] js pr(1)[OF vd] using c(3) v by simp
      qed
      ultimately show ?thesis using al by blast
    qed
  qed
qed

section \<open>Mapping, looking up, taking away\<close>

lemma CKsetPageMapping_loops:
  "CKsetPageMapping pd l p len attr s = do {
     (ok, s1) \<leftarrow> alloc_tables_for pd l (l + len) s;
     if \<not> ok then Some (False, s1)
     else Some (True, s1\<lparr>kmem := snd (set_loops pd attr l (l + len) (signed_drop_bit 12 p, kmem s1))\<rparr>)
   }"
  by (auto simp: CKsetPageMapping_def set_loops_def Let_def split: prod.splits intro!: Option.bind_cong)

lemma same_dir_as_wf:
  "same_dir pd (kmem s) m \<Longrightarrow> as_wf pd (s\<lparr>kmem := m\<rparr>) = as_wf pd s"
  by (simp add: as_wf_def same_dir_layout same_dir_tab cong: imp_cong)

lemma CKsetPageMapping_ok:
  assumes wf: "as_wf pd s"
    and e: "unat l \<le> unat (l + len)" "unat (l + len) < 0xFFC00000" "unat (l + len) mod 2 ^ 22 \<noteq> 0"
  shows "\<exists>ok s'. CKsetPageMapping pd l p len attr s = Some (ok, s') \<and> as_wf pd s' \<and> (\<not> ok \<longrightarrow> s' = s)
    \<and> (ok \<longrightarrow> (\<forall>v<2 ^ 20. entry pd (kmem s') v =
        (if unat l div 4096 \<le> v \<and> v \<le> unat (l + len) div 4096
         then Some (map_pte (signed_drop_bit 12 p + word_of_nat (v - unat l div 4096)) attr)
         else if unat l div 2 ^ 22 \<le> v div 1024 \<and> v div 1024 \<le> unat (l + len) div 2 ^ 22 \<and> entry pd (kmem s) v = None
         then Some 0 else entry pd (kmem s) v)))"
proof -
  let ?e = "l + len"
  obtain ok s1 m k where a: "alloc_tables_for pd l ?e s = Some (ok, s1)" "s1 = s\<lparr>ckmem := m, kmem := k\<rparr>" "as_wf pd s1"
      "\<not> ok \<longrightarrow> s1 = s"
      "ok \<longrightarrow> (\<forall>i<1024. present pd k i = (unat l div 2 ^ 22 \<le> i \<and> i \<le> unat ?e div 2 ^ 22 \<or> present pd (kmem s) i))
        \<and> (\<forall>v<2 ^ 20. entry pd k v = (if unat l div 2 ^ 22 \<le> v div 1024 \<and> v div 1024 \<le> unat ?e div 2 ^ 22
             \<and> \<not> present pd (kmem s) (v div 1024) then Some 0 else entry pd (kmem s) v))"
    using alloc_tables_ok[OF wf e] by blast
  show ?thesis
  proof (cases ok)
    case False
    then show ?thesis using a by (auto simp: CKsetPageMapping_loops)
  next
    case True
    have k: "kmem s1 = k" using a(2) by simp
    have lay: "layout pd k" using a(2,3) by (simp add: as_wf_def)
    have pres: "present pd k i" if "unat l div 2 ^ 22 \<le> i" "i \<le> unat ?e div 2 ^ 22" for i
    proof -
      have "unat ?e div 2 ^ 22 < 1024" using e(2) by (simp add: div_less_iff_less_mult)
      then show ?thesis using a(5) True that by (meson le_less_trans)
    qed
    let ?vs = "[unat l div 4096 ..< Suc (unat ?e div 4096)]"
    let ?r = "set_vpages pd attr ?vs (signed_drop_bit 12 p, k)"
    have lp: "set_loops pd attr l ?e (signed_drop_bit 12 p, k) = ?r"
      using set_loops_vpages[OF lay e(1)] pres by blast
    have c: "CKsetPageMapping pd l p len attr s = Some (True, s1\<lparr>kmem := snd ?r\<rparr>)"
      using a(1) True by (simp add: CKsetPageMapping_loops k lp del: upt_Suc)
    have vd: "present pd k (v div 1024)" if "unat l div 4096 \<le> v" "v < Suc (unat ?e div 4096)" for v
    proof -
      have "unat l div 4096 div 1024 \<le> v div 1024" "v div 1024 \<le> unat ?e div 4096 div 1024"
        using that by (auto intro: div_le_mono)
      then show ?thesis using pres by (simp add: div_mult2_eq[symmetric])
    qed
    have eb: "Suc (unat ?e div 4096) \<le> 2 ^ 20" using e(2) by (simp add: Suc_le_eq div_less_iff_less_mult)
    have sd: "same_dir pd k (snd ?r)"
      using vd eb by (intro set_vpages_dir[OF lay]) (auto simp del: upt_Suc)
    have w: "as_wf pd (s1\<lparr>kmem := snd ?r\<rparr>)" using same_dir_as_wf[of pd s1] sd a(3) k by simp
    define n where "n = Suc (unat ?e div 4096) - unat l div 4096"
    have "unat l div 4096 \<le> unat ?e div 4096" using e(1) by (rule div_le_mono)
    then have n: "Suc (unat ?e div 4096) = unat l div 4096 + n" by (simp add: n_def)
    have en: "entry pd (snd ?r) v =
        (if unat l div 4096 \<le> v \<and> v \<le> unat ?e div 4096
         then Some (map_pte (signed_drop_bit 12 p + word_of_nat (v - unat l div 4096)) attr) else entry pd k v)"
      if v: "v < 2 ^ 20" for v
      using set_vpages_entry[OF lay, of "unat l div 4096" n v attr "signed_drop_bit 12 p"] vd eb v
      unfolding less_Suc_eq_le[symmetric] n by blast
    have ne: "entry pd (kmem s) v = None \<longleftrightarrow> \<not> present pd (kmem s) (v div 1024)" for v by (simp add: entry_def)
    have "\<forall>v<2 ^ 20. entry pd (kmem (s1\<lparr>kmem := snd ?r\<rparr>)) v =
        (if unat l div 4096 \<le> v \<and> v \<le> unat ?e div 4096
         then Some (map_pte (signed_drop_bit 12 p + word_of_nat (v - unat l div 4096)) attr)
         else if unat l div 2 ^ 22 \<le> v div 1024 \<and> v div 1024 \<le> unat ?e div 2 ^ 22 \<and> entry pd (kmem s) v = None
         then Some 0 else entry pd (kmem s) v)"
      using en a(5) True unfolding ne by (simp del: upt_Suc)
    then show ?thesis using c w True by blast
  qed
qed

lemma mapped_lookup:
  assumes "layout pd m" "unat a < 2 ^ 31" "entry pd m (unat a div 4096) = Some w"
  shows "CKgetPageMapping pd a m = push_bit 12 (pte_physAddr w)"
proof -
  let ?i = "unat a div 2 ^ 22" and ?j = "unat a div 4096 mod 1024"
  have i: "unat a div 4096 div 1024 = ?i" by (simp add: div_mult2_eq[symmetric])
  have pr: "present pd m ?i" and w: "w = m (word_at (tab pd m ?i) (word_of_nat ?j))"
    using assms(3) unfolding entry_def i by (simp_all split: if_splits)
  have sg: "signed_drop_bit 22 a = (word_of_nat ?i :: u32)"
  proof -
    have "\<not> bit (unat a) 31" using assms(2) by (simp add: bit_iff_odd)
    then have "\<not> bit a 31" by (simp add: bit_unsigned_iff)
    then have "signed_drop_bit 22 a = drop_bit 22 a"
      by (intro bit_word_eqI) (auto simp: bit_simps dest: bit_imp_le_length)
    then show ?thesis by (simp only: drop22_index)
  qed
  have "unat (drop_bit 12 a AND 0x3ff) = ?j" using pte_index_eq[of a] by (simp only: pte_index_def)
  then have ix: "drop_bit 12 a AND 0x3ff = (word_of_nat ?j :: u32)" by (simp flip: \<open>unat (drop_bit 12 a AND 0x3ff) = ?j\<close>)
  have i1: "?i < 1024" using unat_less_32[of a] by (simp add: less_mult_imp_div_less)
  have t: "push_bit 12 (pte_physAddr (m (word_at pd (word_of_nat ?i)))) \<noteq> NIL" "unat (tab pd m ?i) + 4096 \<le> 2 ^ 32"
      "tab pd m ?i \<noteq> NIL"
    using assms(1) i1 pr by (auto simp: layout_def page_table_def)
  have "getPageAddress pd a m = word_at (tab pd m ?i) (word_of_nat ?j)"
    using t(1) unfolding getPageAddress_def Let_def sg ix by (simp add: page_table_def)
  moreover have "word_at (tab pd m ?i) (word_of_nat ?j) \<noteq> NIL"
  proof
    assume "word_at (tab pd m ?i) (word_of_nat ?j) = NIL"
    moreover have "unat (word_at (tab pd m ?i) (word_of_nat ?j)) = unat (tab pd m ?i) + 4 * ?j"
      using t(2) by (intro unat_word_at[where n = 1024]) simp_all
    ultimately show False using t(3) by (simp add: unat_eq_0)
  qed
  ultimately show ?thesis unfolding CKgetPageMapping_def Let_def w by simp
qed

lemma set_pages_phys:
  "push_bit 12 (pte_physAddr (map_pte (signed_drop_bit 12 p + x) attr)) = push_bit 12 (drop_bit 12 p + x)"
proof -
  have "push_bit 12 (signed_drop_bit 12 p) = push_bit 12 (drop_bit 12 (p :: u32))"
    by (rule bit_word_eqI) (auto simp: bit_simps)
  then show ?thesis by (simp add: map_pte_def push_bit_add)
qed

lemma fold_opt_single: "fold_opt f [x] s = f x s"
  by (cases "f x s") simp_all

lemma CKmarkPageNotPresent_one:
  assumes lay: "layout pd (kmem s)" and pr: "present pd (kmem s) (unat l div 2 ^ 22)"
    and c: "kmem s (word_at (pd + 4096) (drop_bit 22 l)) \<noteq> 1"
  shows "\<exists>s'. CKmarkPageNotPresent pd l 0 d s = Some s' \<and> s' = s\<lparr>kmem := kmem s'\<rparr> \<and> layout pd (kmem s')
    \<and> (\<forall>v<2 ^ 20. entry pd (kmem s') v = (if v = unat l div 4096 then Some (push_bit 1 d) else entry pd (kmem s) v))"
proof -
  let ?i = "unat l div 2 ^ 22" and ?v = "unat l div 4096"
  have iv: "?v div 1024 = ?i" "?v < 2 ^ 20" "?i < 1024"
    using unat_less_32[of l] by (simp_all add: div_mult2_eq[symmetric] less_mult_imp_div_less)
  define m1 where "m1 = (kmem s)(word_at (tab pd (kmem s) ?i) (word_of_nat (?v mod 1024)) := push_bit 1 d)"
  let ?c = "word_at (pd + 4096) (drop_bit 22 l)"
  have w: "same_dir pd (kmem s) m1" "\<And>v. v < 2 ^ 20 \<Longrightarrow> entry pd m1 v = (if v = ?v then Some (push_bit 1 d) else entry pd (kmem s) v)"
    using write_entry[OF lay iv(2), where w = "push_bit 1 d"] pr unfolding iv(1) m1_def by auto
  have nb: "\<not> l < l AND push_bit 22 (- 1)"
    unfolding mask_pde word_less_nat_alt unat_pde using div_times_less_eq_dividend[of "unat l" "2 ^ 22"] by linarith
  have st: "dir_steps l (l + 0) = ([], l)" using nb by (simp add: dir_steps.simps[of l])
  have pl: "ptes_upto l (l + 0) = [word_of_nat (?v mod 1024)]" by (simp add: pte_index_eq)
  have n: "?c = word_at pd (word_of_nat (1024 + ?i))" by (simp add: drop22_index algebra_simps)
  have l8: "unat pd + 8192 \<le> 2 ^ 32" using lay by (simp add: layout_def)
  have cn: "?c \<noteq> word_at (tab pd (kmem s) ?i) (word_of_nat (?v mod 1024))"
    unfolding n using iv(3) by (intro dir_not_table[OF lay iv(3) pr]) simp_all
  have m1c: "m1 ?c = kmem s ?c" using cn by (simp add: m1_def)
  have e: "CKmarkPageNotPresent pd l 0 d s = Some (s\<lparr>kmem := (if m1 ?c \<noteq> 0 then m1(?c := m1 ?c - 1) else m1)\<rparr>)"
    unfolding CKmarkPageNotPresent_def Let_def st prod.case pl fold_opt.simps Option.bind.bind_lunit mark_ptes_def fold_opt_single
    using c m1c by (simp add: mark_pte_def Let_def drop22_index[symmetric] m1_def[unfolded drop22_index[symmetric]])
  let ?m = "if m1 ?c \<noteq> 0 then m1(?c := m1 ?c - 1) else m1"
  have o: "?m x = m1 x" if "x \<noteq> ?c" for x using that by simp
  have "?m (word_at pd (word_of_nat i)) = m1 (word_at pd (word_of_nat i))" if "i < 1024" for i
    using word_at_inj[of pd 2048 i "1024 + ?i"] l8 that iv(3) by (intro o) (simp add: n)
  then have d1: "same_dir pd m1 ?m" by (simp add: same_dir_def)
  have lay1: "layout pd m1" using same_dir_layout[OF w(1)] lay by simp
  have "entry pd ?m v = entry pd m1 v" if v: "v < 2 ^ 20" for v
  proof -
    have j: "v div 1024 < 1024" "v mod 1024 < 1024" using v by (simp_all add: less_mult_imp_div_less)
    show ?thesis
    proof (cases "present pd m1 (v div 1024)")
      case True
      have "?c \<noteq> word_at (tab pd m1 (v div 1024)) (word_of_nat (v mod 1024))"
        unfolding n using iv(3) by (intro dir_not_table[OF lay1 j(1) True j(2)]) simp
      then show ?thesis using True same_dir_tab[OF d1 j(1)] o unfolding entry_def by metis
    next
      case False
      then show ?thesis using same_dir_tab[OF d1 j(1)] unfolding entry_def by metis
    qed
  qed
  moreover have "layout pd ?m" using same_dir_layout[OF d1] lay1 by blast
  ultimately show ?thesis unfolding e using w(2) by simp
qed

lemma alloc_tables_frame:
  assumes "alloc_tables_for pd l e s = Some (ok, s1)"
  shows "\<exists>m k. s1 = s\<lparr>ckmem := m, kmem := k\<rparr>"
proof -
  have "s1 = s \<or> (\<exists>m. s1 = s\<lparr>ckmem := m\<rparr>) \<or> (\<exists>m k. s1 = s\<lparr>ckmem := m, kmem := k\<rparr>)"
    using assms by (auto simp: alloc_tables_for_def Let_def with_mem_def Option.bind_eq_Some_conv split: if_splits)
  moreover have "s = s\<lparr>ckmem := ckmem s, kmem := kmem s\<rparr>" "s\<lparr>ckmem := m\<rparr> = s\<lparr>ckmem := m, kmem := kmem s\<rparr>" for m
    by simp_all
  ultimately show ?thesis by metis
qed

lemma CKsetPageMapping_frame:
  assumes "CKsetPageMapping pd l p len attr s = Some (ok, s')"
  shows "\<exists>m k. s' = s\<lparr>ckmem := m, kmem := k\<rparr>"
proof -
  obtain ok1 s1 where a: "alloc_tables_for pd l (l + len) s = Some (ok1, s1)"
      "s' = s1 \<or> (\<exists>k. s' = s1\<lparr>kmem := k\<rparr>)"
    using assms by (auto simp: CKsetPageMapping_loops Option.bind_eq_Some_conv split: if_splits)
  obtain m k where s1: "s1 = s\<lparr>ckmem := m, kmem := k\<rparr>" using alloc_tables_frame[OF a(1)] by blast
  then have "s1\<lparr>kmem := j\<rparr> = s\<lparr>ckmem := m, kmem := j\<rparr>" for j by simp
  then show ?thesis using a(2) s1 by blast
qed

section \<open>The properties of address spaces\<close>

text \<open>C4: Setting a mapping refines the update of a finite map from page numbers to entries. In a
  well-formed address space, for a range whose end is not on a 4 MB boundary,
  \<open>CKsetPageMapping\<close> returns; when it fails nothing is changed; when it succeeds the pages from
  the first to the one the end of the range lies in, that one included, are mapped to
  successive physical pages, the other pages of new tables are empty, no other page changes,
  and the address space is well-formed again (memhw.c).\<close>

theorem set_mapping:
  assumes "as_wf pd s"
    and "unat l \<le> unat (l + len)" "unat (l + len) < 0xFFC00000" "unat (l + len) mod 2 ^ 22 \<noteq> 0"
  shows "\<exists>ok s'. CKsetPageMapping pd l p len attr s = Some (ok, s') \<and> as_wf pd s' \<and> (\<not> ok \<longrightarrow> s' = s)
    \<and> (ok \<longrightarrow> (\<forall>v<2 ^ 20. entry pd (kmem s') v =
        (if unat l div 4096 \<le> v \<and> v \<le> unat (l + len) div 4096
         then Some (map_pte (signed_drop_bit 12 p + word_of_nat (v - unat l div 4096)) attr)
         else if unat l div 2 ^ 22 \<le> v div 1024 \<and> v div 1024 \<le> unat (l + len) div 2 ^ 22 \<and> entry pd (kmem s) v = None
         then Some 0 else entry pd (kmem s) v)))"
  by (rule CKsetPageMapping_ok[OF assms])

definition small_as :: KERNEL where
  "small_as = small_kernel\<lparr>kmem := (\<lambda>a. if a = 0x5004 then 0x7007 else 0),
     addrspcs := (\<lambda>_. \<lparr>a_parentKernel = 0, addrSpc = 0x5000\<rparr>),
     headers := (\<lambda>a. no_header\<lparr>objectSignature := SIGADDRSPC\<rparr>)\<rparr>"

lemma small_as_present:
  assumes "i < 1024" shows "present 0x5000 (kmem small_as) i \<longleftrightarrow> i = 1" "tab 0x5000 (kmem small_as) 1 = 0xC0007000"
proof -
  have "word_at 0x5000 (word_of_nat i) = (0x5004 :: u32) \<longleftrightarrow> i = 1"
    using word_at_inj[of "0x5000" 1024 i 1] assms by simp
  then show "present 0x5000 (kmem small_as) i \<longleftrightarrow> i = 1"
    by (simp add: missing_def small_as_def pte_flags_def)
qed (simp add: page_table_def small_as_def pte_physAddr_def LINEAR_def)

lemma small_as_wf: "as_wf 0x5000 small_as"
proof -
  have "layout 0x5000 (kmem small_as)"
    unfolding layout_def using small_as_present by (auto simp: bytes_def LINEAR_def)
  moreover have "ckmem small_as = one_block_mem" by (simp add: small_as_def)
  ultimately show ?thesis
    unfolding as_wf_def using small_as_present by (auto simp: one_block_mem_ok one_block_avail bytes_def LINEAR_def)
qed

theorem set_mapping_witness:
  "\<exists>ok s'. CKsetPageMapping 0x5000 0x400000 0x9000 0x1fff 3 small_as = Some (ok, s') \<and> as_wf 0x5000 s'
    \<and> (ok \<longrightarrow> entry 0x5000 (kmem s') 0x401 = Some 0xA007)"
proof -
  have h: "unat (0x400000 :: u32) \<le> unat (0x400000 + 0x1fff :: u32)" "unat (0x400000 + 0x1fff :: u32) < 0xFFC00000"
      "unat (0x400000 + 0x1fff :: u32) mod 2 ^ 22 \<noteq> 0" by simp_all
  obtain ok s' where r: "CKsetPageMapping 0x5000 0x400000 0x9000 0x1fff 3 small_as = Some (ok, s')" "as_wf 0x5000 s'"
    "ok \<longrightarrow> (\<forall>v<2 ^ 20. entry 0x5000 (kmem s') v =
        (if unat (0x400000 :: u32) div 4096 \<le> v \<and> v \<le> unat (0x400000 + 0x1fff :: u32) div 4096
         then Some (map_pte (signed_drop_bit 12 0x9000 + word_of_nat (v - unat (0x400000 :: u32) div 4096)) 3)
         else if unat (0x400000 :: u32) div 2 ^ 22 \<le> v div 1024 \<and> v div 1024 \<le> unat (0x400000 + 0x1fff :: u32) div 2 ^ 22
           \<and> entry 0x5000 (kmem small_as) v = None
         then Some 0 else entry 0x5000 (kmem small_as) v))"
    using set_mapping[OF small_as_wf h, of "0x9000" 3] by blast
  have "map_pte (signed_drop_bit 12 0x9000 + word_of_nat (0x401 - 0x400)) 3 = 0xA007"
    by (simp add: map_pte_def mk_pte_def)
  then have "ok \<longrightarrow> entry 0x5000 (kmem s') 0x401 = Some 0xA007" using r(3)[THEN mp, rule_format, of "0x401"] by simp
  then show ?thesis using r(1,2) by blast
qed

text \<open>C13: What is loaded is what is looked up: after a mapping has been loaded with success,
  \<open>CKgetPageMapping\<close> returns for every address below 2 GB in the range the physical page that
  lies as far into the physical range (paging.c, \<open>CKloadMapping\<close>; memhw.c).\<close>

theorem load_then_lookup:
  assumes "as_wf pd s" "addrSpc (addrspcs s object) = pd"
    and "unat l \<le> unat (l + len)" "unat (l + len) < 0xFFC00000" "unat (l + len) mod 2 ^ 22 \<noteq> 0"
    and "CKloadMapping object p l len flags s = Some (CK_OK, s')"
    and "unat l div 4096 \<le> unat a div 4096" "unat a div 4096 \<le> unat (l + len) div 4096" "unat a < 2 ^ 31"
  shows "CKgetPageMapping pd a (kmem s') = push_bit 12 (drop_bit 12 p + word_of_nat (unat a div 4096 - unat l div 4096))
    \<and> tlb_flushes s' = tlb_flushes s + (if object = addressSpace (threads s (currtask s)) then 1 else 0)"
proof -
  obtain ok s1 where c: "CKsetPageMapping pd l p len flags s = Some (ok, s1)" "as_wf pd s1"
    "ok \<longrightarrow> (\<forall>v<2 ^ 20. entry pd (kmem s1) v =
        (if unat l div 4096 \<le> v \<and> v \<le> unat (l + len) div 4096
         then Some (map_pte (signed_drop_bit 12 p + word_of_nat (v - unat l div 4096)) flags)
         else if unat l div 2 ^ 22 \<le> v div 1024 \<and> v div 1024 \<le> unat (l + len) div 2 ^ 22 \<and> entry pd (kmem s) v = None
         then Some 0 else entry pd (kmem s) v))"
    using CKsetPageMapping_ok[OF assms(1,3,4,5)] by blast
  have ok: ok "s' = flush_if_current object s1"
    using assms(6) c(1) assms(2) by (auto simp: CKloadMapping_def split: if_splits)
  have av: "unat a div 4096 < 2 ^ 20" using assms(9) by (simp add: div_less_iff_less_mult)
  have "entry pd (kmem s1) (unat a div 4096)
      = Some (map_pte (signed_drop_bit 12 p + word_of_nat (unat a div 4096 - unat l div 4096)) flags)"
    using c(3) ok(1) av assms(7,8) by simp
  then have "CKgetPageMapping pd a (kmem s1) = push_bit 12 (drop_bit 12 p + word_of_nat (unat a div 4096 - unat l div 4096))"
    using mapped_lookup[OF _ assms(9)] c(2) by (simp add: as_wf_def set_pages_phys)
  moreover have "kmem s' = kmem s1" using ok(2) by (simp add: flush_if_current_def CKflushLocalTLB_def)
  moreover have "threads s1 = threads s" "currtask s1 = currtask s" "tlb_flushes s1 = tlb_flushes s"
    using CKsetPageMapping_frame[OF c(1)] by auto
  ultimately show ?thesis using ok(2) by (simp add: flush_if_current_def CKflushLocalTLB_def)
qed

lemma small_as_load: "\<exists>s'. CKloadMapping 1 0x9000 0x400000 0x1fff 3 small_as = Some (CK_OK, s')"
proof -
  have h: "unat (0x400000 :: u32) \<le> unat (0x401fff :: u32)" "unat (0x401fff :: u32) < 0xFFC00000"
      "unat (0x401fff :: u32) mod 2 ^ 22 \<noteq> 0" by simp_all
  have p: "pdes 0x400000 0x401fff = [1]" using pdes_index(1)[OF h] by simp
  have "alloc_tables_for 0x5000 0x400000 (0x400000 + 0x1fff) small_as = Some (True, small_as)"
    using small_as_present(1)[of 1] by (simp add: alloc_tables_for_def p)
  then show ?thesis by (simp add: CKloadMapping_def CKvalidAddrSpc_def CKsetPageMapping_loops)
      (simp add: small_as_def CKsetPageMapping_loops)
qed

theorem load_then_lookup_witness:
  "\<exists>s'. CKloadMapping 1 0x9000 0x400000 0x1fff 3 small_as = Some (CK_OK, s')
    \<and> CKgetPageMapping 0x5000 0x401234 (kmem s') = 0xA000"
proof -
  obtain s' where s': "CKloadMapping 1 0x9000 0x400000 0x1fff 3 small_as = Some (CK_OK, s')"
    using small_as_load by blast
  have a: "addrSpc (addrspcs small_as 1) = 0x5000" by (simp add: small_as_def)
  show ?thesis using s' load_then_lookup[OF small_as_wf a _ _ _ s', of "0x401234"] by simp
qed

text \<open>C25: \<open>CKunloadMapping\<close> takes one page away whatever length is asked for, and the length is
  what it leaves in that page's entry, shifted by one bit: the two arguments reach
  \<open>CKmarkPageNotPresent\<close> in the wrong order (paging.c).\<close>

theorem unload_one_page:
  assumes "CKvalidAddrSpc object s" "addrSpc (addrspcs s object) = pd" "layout pd (kmem s)"
    and "entry pd (kmem s) (unat l div 4096) = Some w" "kmem s (word_at (pd + 4096) (drop_bit 22 l)) \<noteq> 1"
  shows "\<exists>s'. CKunloadMapping object l len s = Some (CK_OK, s')
    \<and> (\<forall>v<2 ^ 20. entry pd (kmem s') v = (if v = unat l div 4096 then Some (push_bit 1 len) else entry pd (kmem s) v))"
proof -
  have "present pd (kmem s) (unat l div 2 ^ 22)"
    using assms(4) by (simp add: entry_def div_mult2_eq[symmetric] split: if_splits)
  then obtain s' where "CKmarkPageNotPresent pd l 0 len s = Some s'"
    "\<forall>v<2 ^ 20. entry pd (kmem s') v = (if v = unat l div 4096 then Some (push_bit 1 len) else entry pd (kmem s) v)"
    using CKmarkPageNotPresent_one[OF assms(3) _ assms(5)] by blast
  then show ?thesis using assms(1,2)
    by (auto simp: CKunloadMapping_def flush_if_current_def CKflushLocalTLB_def)
qed

theorem unload_one_page_witness:
  "\<exists>s'. CKunloadMapping 1 0x400000 0x2000 small_as = Some (CK_OK, s') \<and> entry 0x5000 (kmem s') 0x400 = Some 0x4000"
proof -
  have e: "entry 0x5000 (kmem small_as) (unat (0x400000 :: u32) div 4096) = Some 0"
    using small_as_present[of 1] by (simp add: entry_def) (simp add: small_as_def)
  have l: "layout 0x5000 (kmem small_as)" using small_as_wf by (simp add: as_wf_def)
  show ?thesis
    using unload_one_page[OF _ _ l e, of 1 "0x2000"] by (auto simp: small_as_def CKvalidAddrSpc_def)
qed

end
