(* ===== verification/CK_Shmem.thy ===== *)
theory CK_Shmem
  imports CK_Signal CK_Paging
begin

text \<open>
  Shared memory objects: \<^verbatim>\<open>CK/shmem.c\<close>. An object has two singly linked lists of nodes, of the
  threads that are invited and of the threads that are attached; \<open>shlists\<close> is the store of the
  nodes. \<open>None\<close> is a call that does not return.
\<close>

section \<open>Numbers (cksignal.h, shmem.h)\<close>

definition SIGNLSHINVI :: u32 where "SIGNLSHINVI = 3"

definition SIGNLSHDEAD :: u32 where "SIGNLSHDEAD = 5"

definition SIGNLSHNOTIFY :: u32 where "SIGNLSHNOTIFY = 7"

definition SHMEMSIGNALPRIORITY :: u32 where "SHMEMSIGNALPRIORITY = 5"

section \<open>The lists\<close>

type_synonym shstore = "addr \<Rightarrow> SHTHREADLIST"

partial_function (option) fetchThread :: "shstore \<Rightarrow> addr \<Rightarrow> addr \<Rightarrow> addr \<Rightarrow> (addr \<times> addr) option" where
  "fetchThread m stl thread prev =
     (if stl = NIL then Some (stl, prev)
      else if sh_thread (m stl) = thread then Some (stl, prev)
      else fetchThread m (sh_next (m stl)) thread stl)"

abbreviation set_next :: "addr \<Rightarrow> addr \<Rightarrow> shstore \<Rightarrow> shstore" where
  "set_next a v m \<equiv> m(a := (m a)\<lparr>sh_next := v\<rparr>)"

text \<open>Appending a node to a list given by its first and last node, and taking one out.\<close>

definition append_node :: "addr \<Rightarrow> addr \<times> addr \<times> shstore \<Rightarrow> addr \<times> addr \<times> shstore" where
  "append_node stl = (\<lambda>(first, final, m).
     (if first = NIL then stl else first, stl, if final \<noteq> NIL then set_next final stl m else m))"

definition remove_node :: "addr \<Rightarrow> addr \<Rightarrow> addr \<times> addr \<times> shstore \<Rightarrow> addr \<times> addr \<times> shstore" where
  "remove_node stl ptl = (\<lambda>(first, final, m).
     (if ptl = NIL then sh_next (m stl) else first, if stl = final then ptl else final,
      if ptl = NIL then m else set_next ptl (sh_next (m stl)) m))"

abbreviation set_shmem :: "addr \<Rightarrow> (SHMEMOBJ \<Rightarrow> SHMEMOBJ) \<Rightarrow> 'a KERNEL_scheme \<Rightarrow> 'a KERNEL_scheme" where
  "set_shmem a f s \<equiv> s\<lparr>shmems := (shmems s)(a := f (shmems s a))\<rparr>"

definition on_invited :: "addr \<Rightarrow> (addr \<times> addr \<times> shstore \<Rightarrow> addr \<times> addr \<times> shstore) \<Rightarrow> 'a KERNEL_scheme \<Rightarrow> 'a KERNEL_scheme" where
  "on_invited smo f s =
     (let (a, b, m) = f (firstInvited (shmems s smo), lastInvited (shmems s smo), shlists s)
      in (set_shmem smo (\<lambda>x. x\<lparr>firstInvited := a, lastInvited := b\<rparr>) s)\<lparr>shlists := m\<rparr>)"

definition on_attached :: "addr \<Rightarrow> (addr \<times> addr \<times> shstore \<Rightarrow> addr \<times> addr \<times> shstore) \<Rightarrow> 'a KERNEL_scheme \<Rightarrow> 'a KERNEL_scheme" where
  "on_attached smo f s =
     (let (a, b, m) = f (firstThread (shmems s smo), lastThread (shmems s smo), shlists s)
      in (set_shmem smo (\<lambda>x. x\<lparr>firstThread := a, lastThread := b\<rparr>) s)\<lparr>shlists := m\<rparr>)"

definition enter_shmem :: "addr \<Rightarrow> 'a KERNEL_scheme \<Rightarrow> 'a KERNEL_scheme option" where
  "enter_shmem smo s = map_option (\<lambda>v. set_shmem smo (\<lambda>x. x\<lparr>sm_mutex := v\<rparr>) s) (CKenterCritical (sm_mutex (shmems s smo)))"

definition exit_shmem :: "addr \<Rightarrow> 'a KERNEL_scheme \<Rightarrow> 'a KERNEL_scheme" where
  "exit_shmem smo s = set_shmem smo (\<lambda>x. x\<lparr>sm_mutex := CKexitCritical (sm_mutex x)\<rparr>) s"

section \<open>The calls (shmem.c)\<close>

definition CKshMemInvite :: "addr \<Rightarrow> addr \<Rightarrow> 'a KERNEL_scheme \<Rightarrow> (ckresult \<times> 'a KERNEL_scheme) option" where
  "CKshMemInvite object thread s =
     (let smo = shobjs s object in
      if \<not> CKvalidSHMem object s then Some (Some ENOVALIDSHMEM, s)
      else if sm_dead (shmems s smo) then Some (Some ENOVALIDSHMEM, s)
      else do {
        (stl, s1) \<leftarrow> with_mem (CKmemAlloc sizeof_SHTHREADLIST) s;
        if stl = NIL then Some (Some ENOMEM, s1)
        else do {
          s2 \<leftarrow> enter_shmem smo
            (s1\<lparr>shlists := (shlists s1)(stl := (shlists s1 stl)\<lparr>sh_thread := thread, sh_next := NIL\<rparr>)\<rparr>);
          (_, s3) \<leftarrow> CKsendSignal thread SIGNLSHINVI object SHMEMSIGNALPRIORITY
            (exit_shmem smo (on_invited smo (append_node stl) s2));
          Some (CK_OK, s3)
        }
      })"

definition CKshMemSetRange :: "addr \<Rightarrow> addr \<Rightarrow> u32 \<Rightarrow> 'a KERNEL_scheme \<Rightarrow> (ckresult \<times> 'a KERNEL_scheme) option" where
  "CKshMemSetRange object logicalAddr sz s =
     (let smo = shobjs s object in
      if \<not> CKvalidSHMem object s then Some (Some ENOVALIDSHMEM, s)
      else if currtask s \<noteq> sm_owner (shmems s smo) then Some (Some ENOSECURITY, s)
      else if sm_dead (shmems s smo) then Some (Some ENOVALIDSHMEM, s)
      else do {
        s1 \<leftarrow> enter_shmem smo s;
        Some (CK_OK, exit_shmem smo (set_shmem smo (\<lambda>x. x\<lparr>sm_logicalAddr := logicalAddr, sm_size := sz\<rparr>) s1))
      })"

text \<open>The loop over the invited threads; the mutex is free while a signal is sent.\<close>

partial_function (option) destroy_invited :: "addr \<Rightarrow> addr \<Rightarrow> addr \<Rightarrow> 'a KERNEL_scheme \<Rightarrow> 'a KERNEL_scheme option" where
  "destroy_invited smo object stl s =
     (if stl = NIL then Some s
      else
        Option.bind (with_free stl sizeof_SHTHREADLIST s) (\<lambda>s1.
        Option.bind (CKsendSignal (sh_thread (shlists s stl)) SIGNLSHDEAD object SHMEMSIGNALPRIORITY (exit_shmem smo s1)) (\<lambda>(_, s2).
        Option.bind (enter_shmem smo s2) (\<lambda>s3.
        destroy_invited smo object (sh_next (shlists s stl)) s3))))"

text \<open>The loops that signal all threads of a list.\<close>

partial_function (option) signal_all :: "u32 \<Rightarrow> addr \<Rightarrow> addr \<Rightarrow> 'a KERNEL_scheme \<Rightarrow> 'a KERNEL_scheme option" where
  "signal_all sig object stl s =
     (if stl = NIL then Some s
      else
        Option.bind (CKsendSignal (sh_thread (shlists s stl)) sig object SHMEMSIGNALPRIORITY s) (\<lambda>(_, s1).
        signal_all sig object (sh_next (shlists s stl)) s1))"

definition CKshMemDestroy :: "addr \<Rightarrow> 'a KERNEL_scheme \<Rightarrow> (ckresult \<times> 'a KERNEL_scheme) option" where
  "CKshMemDestroy object s =
     (let smo = shobjs s object in
      if \<not> CKvalidSHMem object s then Some (Some ENOVALIDSHMEM, s)
      else if currtask s \<noteq> sm_owner (shmems s smo) then Some (Some ENOSECURITY, s)
      else if sm_dead (shmems s smo) then Some (Some ENOVALIDSHMEM, s)
      else do {
        s1 \<leftarrow> enter_shmem smo s;
        let s2 = set_shmem smo (\<lambda>x. x\<lparr>sm_dead := True, firstInvited := NIL, lastInvited := NIL\<rparr>) s1;
        s3 \<leftarrow> destroy_invited smo object (firstInvited (shmems s1 smo)) s2;
        let s4 = exit_shmem smo s3;
        s5 \<leftarrow> signal_all SIGNLSHDEAD object (firstThread (shmems s4 smo)) s4;
        Some (CK_OK, s5)
      })"

definition CKshMemAttach :: "addr \<Rightarrow> addr \<Rightarrow> u32 \<Rightarrow> 'a KERNEL_scheme \<Rightarrow> (ckresult \<times> 'a KERNEL_scheme) option" where
  "CKshMemAttach object logAddr sz0 s =
     (let smo = shobjs s object; c = currtask s;
          objHead = addressSpace (threads s c); ownerObjHead = addressSpace (threads s (sm_owner (shmems s smo))) in
      if \<not> CKvalidSHMem object s then Some (Some ENOVALIDSHMEM, s)
      else if c = sm_owner (shmems s smo) then Some (Some ENOSECURITY, s)
      else if sm_dead (shmems s smo) then Some (Some ENOVALIDSHMEM, s)
      else if objHead = NIL \<or> \<not> CKvalidAddrSpc objHead s then Some (Some ENOVALIDADDRSPC, s)
      else if ownerObjHead = NIL \<or> \<not> CKvalidAddrSpc ownerObjHead s then Some (Some ENOVALIDADDRSPC, s)
      else do {
        s1 \<leftarrow> enter_shmem smo s;
        (stl, ptl) \<leftarrow> fetchThread (shlists s1) (firstInvited (shmems s1 smo)) c NIL;
        if stl = NIL then Some (Some ENOSECURITY, exit_shmem smo s1)
        else
          let sz = (if sint sz0 < sint (sm_size (shmems s1 smo)) then sz0 else sm_size (shmems s1 smo)) in
          do {
            (ok, s2) \<leftarrow> CKcopySharedPageMapping (addrSpc (addrspcs s1 ownerObjHead)) (sm_logicalAddr (shmems s1 smo))
              (addrSpc (addrspcs s1 objHead)) logAddr sz s1;
            if \<not> ok then Some (Some ENOSECURITY, exit_shmem smo s2)
            else
              let s3 = on_invited smo (remove_node stl ptl) s2;
                  s4 = s3\<lparr>shlists := (shlists s3)(stl := (shlists s3 stl)
                    \<lparr>sh_next := NIL, sh_logicalAddr := logAddr, sh_size := sz\<rparr>)\<rparr>
              in Some (CK_OK, exit_shmem smo (on_attached smo (append_node stl) s4))
          }
      })"

definition CKshMemDetach :: "addr \<Rightarrow> 'a KERNEL_scheme \<Rightarrow> (ckresult \<times> 'a KERNEL_scheme) option" where
  "CKshMemDetach object s =
     (let smo = shobjs s object; c = currtask s; objHead = addressSpace (threads s c) in
      if \<not> CKvalidSHMem object s then Some (Some ENOVALIDSHMEM, s)
      else if sm_dead (shmems s smo) then Some (Some ENOVALIDSHMEM, s)
      else if objHead = NIL \<or> \<not> CKvalidAddrSpc objHead s then Some (Some ENOVALIDADDRSPC, s)
      else do {
        s1 \<leftarrow> enter_shmem smo s;
        (stl, ptl) \<leftarrow> fetchThread (shlists s1) (firstThread (shmems s1 smo)) c NIL;
        if stl = NIL then Some (Some ENOSECURITY, exit_shmem smo s1)
        else do {
          s2 \<leftarrow> CKmarkPageNotPresent (addrSpc (addrspcs s1 objHead)) (sh_logicalAddr (shlists s1 stl)) (sh_size (shlists s1 stl)) 0 s1;
          let s3 = on_attached smo (remove_node stl ptl) s2;
          s4 \<leftarrow> (if sm_dead (shmems s3 smo) then with_free stl sizeof_SHTHREADLIST s3
                else Some (on_invited smo (append_node stl) (s3\<lparr>shlists := set_next stl NIL (shlists s3)\<rparr>)));
          Some (CK_OK, exit_shmem smo s4)
        }
      })"

definition CKshMemRemap :: "addr \<Rightarrow> addr \<Rightarrow> u32 \<Rightarrow> 'a KERNEL_scheme \<Rightarrow> (ckresult \<times> 'a KERNEL_scheme) option" where
  "CKshMemRemap object logAddr sz s =
     (if \<not> CKvalidSHMem object s then Some (Some ENOVALIDSHMEM, s)
      else do {
        (err, s1) \<leftarrow> CKshMemDetach object s;
        if err \<noteq> CK_OK then Some (err, s1) else CKshMemAttach object logAddr sz s1
      })"

definition CKshMemNotify :: "addr \<Rightarrow> 'a KERNEL_scheme \<Rightarrow> (ckresult \<times> 'a KERNEL_scheme) option" where
  "CKshMemNotify object s =
     (let smo = shobjs s object in
      if \<not> CKvalidSHMem object s then Some (Some ENOVALIDSHMEM, s)
      else if currtask s \<noteq> sm_owner (shmems s smo) then Some (Some ENOSECURITY, s)
      else if sm_dead (shmems s smo) then Some (Some ENOVALIDSHMEM, s)
      else map_option (\<lambda>s1. (CK_OK, s1)) (signal_all SIGNLSHNOTIFY object (firstInvited (shmems s smo)) s))"

section \<open>Linked lists of nodes\<close>

primrec sll :: "shstore \<Rightarrow> addr \<Rightarrow> addr list \<Rightarrow> bool" where
  "sll m a [] \<longleftrightarrow> a = NIL"
| "sll m a (x # xs) \<longleftrightarrow> a = x \<and> x \<noteq> NIL \<and> sll m (sh_next (m x)) xs"

definition slist :: "shstore \<Rightarrow> addr \<Rightarrow> addr \<Rightarrow> addr list \<Rightarrow> bool" where
  "slist m first final xs \<longleftrightarrow> sll m first xs \<and> distinct xs \<and> final = (if xs = [] then NIL else last xs)"

lemma sll_NIL [simp]: "sll m NIL xs \<longleftrightarrow> xs = []"
  by (cases xs) auto

lemma sll_in: "sll m a xs \<Longrightarrow> NIL \<notin> set xs"
  by (induction xs arbitrary: a) auto

lemma sll_cong: "\<forall>x\<in>set xs. sh_next (m' x) = sh_next (m x) \<Longrightarrow> sll m' a xs = sll m a xs"
  by (induction xs arbitrary: a) auto

lemma sll_append: "sll m a (xs @ y # ys) \<longleftrightarrow> sll (m(y := (m y)\<lparr>sh_next := NIL\<rparr>)) a (xs @ [y]) \<and> sll m (sh_next (m y)) ys"
  if "y \<notin> set xs" using that
proof (induction xs arbitrary: a)
  case (Cons x xs)
  then show ?case by (cases "x = y") auto
qed simp

lemma sll_prefix: "sll m a (xs @ ys) \<Longrightarrow> ys = [] \<or> sll m (hd ys) ys"
  by (induction xs arbitrary: a) (cases ys; auto)+

text \<open>Setting the link of the last node of a prefix replaces what comes behind it.\<close>

lemma sll_relink:
  "sll m a (xs @ y # ys) \<Longrightarrow> distinct (xs @ y # ys) \<Longrightarrow> sll (set_next y b m) b zs \<Longrightarrow>
     sll (set_next y b m) a (xs @ y # zs)"
  by (induction xs arbitrary: a) auto

lemma append_node_ok:
  assumes l: "slist m f l xs" and n: "n \<notin> set xs" "n \<noteq> NIL" "sh_next (m n) = NIL"
    and r: "append_node n (f, l, m) = (f', l', m')"
  shows "slist m' f' l' (xs @ [n])" "\<And>x. x \<notin> set xs \<Longrightarrow> m' x = m x"
    "\<And>x. sh_thread (m' x) = sh_thread (m x)" "m' n = m n"
proof -
  have fl: "sll m f xs" "distinct xs" "l = (if xs = [] then NIL else last xs)" using l by (auto simp: slist_def)
  have r: "f' = (if f = NIL then n else f)" "l' = n" "m' = (if l \<noteq> NIL then set_next l n m else m)"
    using r by (auto simp: append_node_def)
  show "slist m' f' l' (xs @ [n])"
  proof (cases xs rule: rev_cases)
    case Nil
    then show ?thesis using fl r n by (simp add: slist_def)
  next
    case (snoc ys y)
    then have y: "y \<noteq> NIL" "l = y" "f \<noteq> NIL" using sll_in[OF fl(1)] fl by auto
    have "sll (set_next y n m) f (ys @ y # [n])"
      using fl(1,2) n snoc by (intro sll_relink[where ys = "[]"]) auto
    then show ?thesis using r y n fl(2) snoc by (auto simp: slist_def)
  qed
  have ln: "l \<noteq> NIL \<Longrightarrow> l \<in> set xs" using fl by (auto split: if_splits)
  show "m' x = m x" if "x \<notin> set xs" for x using that ln r by auto
  show "sh_thread (m' x) = sh_thread (m x)" for x using r by simp
  show "m' n = m n" using ln n(1) r by auto
qed

lemma remove_node_ok:
  assumes l: "slist m f l (pre @ n # post)" and p: "p = (if pre = [] then NIL else last pre)"
    and r: "remove_node n p (f, l, m) = (f', l', m')"
  shows "slist m' f' l' (pre @ post)" "\<And>x. x \<notin> set pre \<Longrightarrow> m' x = m x" "\<And>x. sh_thread (m' x) = sh_thread (m x)"
proof -
  have fl: "sll m f (pre @ n # post)" "distinct (pre @ n # post)" "l = last (pre @ n # post)"
    using l by (auto simp: slist_def)
  have r: "f' = (if p = NIL then sh_next (m n) else f)" "l' = (if n = l then p else l)"
      "m' = (if p = NIL then m else set_next p (sh_next (m n)) m)"
    using r by (auto simp: remove_node_def)
  have lf: "n = l \<longleftrightarrow> post = []" using fl(2,3) by (cases post rule: rev_cases) auto
  show "slist m' f' l' (pre @ post)"
  proof (cases pre rule: rev_cases)
    case Nil
    then show ?thesis using fl p r lf by (auto simp: slist_def)
  next
    case (snoc ys y)
    then have y: "y \<noteq> NIL" "p = y" using sll_in[OF fl(1)] p by auto
    have "sll m (sh_next (m n)) post" using fl(1) by (induction pre arbitrary: f) auto
    then have "sll (set_next y (sh_next (m n)) m) (sh_next (m n)) post"
      using fl(2) snoc by (subst sll_cong) auto
    then have "sll (set_next y (sh_next (m n)) m) f (ys @ y # post)"
      using fl(1,2) snoc by (intro sll_relink[where ys = "n # post"]) auto
    then show ?thesis using r y lf fl(2,3) snoc p by (auto simp: slist_def)
  qed
  have "p \<noteq> NIL \<Longrightarrow> p \<in> set pre" using p by (auto split: if_splits)
  then show "m' x = m x" if "x \<notin> set pre" for x using that r by auto
  show "sh_thread (m' x) = sh_thread (m x)" for x using r by simp
qed

lemma fetchThread_ok:
  "sll m a xs \<Longrightarrow> \<exists>r q. fetchThread m a t p = Some (r, q)
    \<and> (r = NIL \<and> (\<forall>x\<in>set xs. sh_thread (m x) \<noteq> t)
       \<or> (\<exists>pre post. xs = pre @ r # post \<and> r \<noteq> NIL \<and> sh_thread (m r) = t \<and> (\<forall>x\<in>set pre. sh_thread (m x) \<noteq> t)
            \<and> q = (if pre = [] then p else last pre)))"
proof (induction xs arbitrary: a p)
  case Nil
  then show ?case by (simp add: fetchThread.simps)
next
  case (Cons x xs)
  then have x: "a = x" "x \<noteq> NIL" "sll m (sh_next (m x)) xs" by simp_all
  show ?case
  proof (cases "sh_thread (m x) = t")
    case True
    then have "fetchThread m a t p = Some (x, p)" using x by (simp add: fetchThread.simps)
    then show ?thesis using True x(2) by fastforce
  next
    case False
    have e: "fetchThread m a t p = fetchThread m (sh_next (m x)) t x"
      using x False by (subst fetchThread.simps) simp
    obtain r q where r: "fetchThread m (sh_next (m x)) t x = Some (r, q)"
      "r = NIL \<and> (\<forall>y\<in>set xs. sh_thread (m y) \<noteq> t)
       \<or> (\<exists>pre post. xs = pre @ r # post \<and> r \<noteq> NIL \<and> sh_thread (m r) = t \<and> (\<forall>y\<in>set pre. sh_thread (m y) \<noteq> t)
            \<and> q = (if pre = [] then x else last pre))"
      using Cons.IH[OF x(3), of x] by (elim exE conjE) (rule that)
    show ?thesis
    proof (cases "r = NIL")
      case True
      then show ?thesis using r e False by auto
    next
      case nr: False
      then obtain pre post where "xs = pre @ r # post" "sh_thread (m r) = t" "\<forall>y\<in>set pre. sh_thread (m y) \<noteq> t"
          "q = (if pre = [] then x else last pre)" using r(2) by blast
      then have "x # xs = (x # pre) @ r # post" "\<forall>y\<in>set (x # pre). sh_thread (m y) \<noteq> t"
          "q = (if x # pre = [] then p else last (x # pre))" using False by auto
      then show ?thesis using r(1) nr \<open>sh_thread (m r) = t\<close> unfolding e by blast
    qed
  qed
qed

section \<open>The lists of an object\<close>

definition shm_wf :: "addr \<Rightarrow> addr list \<Rightarrow> addr list \<Rightarrow> 'a KERNEL_scheme \<Rightarrow> bool" where
  "shm_wf smo gs att s \<longleftrightarrow> slist (shlists s) (firstInvited (shmems s smo)) (lastInvited (shmems s smo)) gs
     \<and> slist (shlists s) (firstThread (shmems s smo)) (lastThread (shmems s smo)) att
     \<and> set gs \<inter> set att = {} \<and> sm_mutex (shmems s smo) = 0"

lemma slist_cong: "\<forall>x\<in>set xs. sh_next (m' x) = sh_next (m x) \<Longrightarrow> slist m' f l xs = slist m f l xs"
  using sll_cong[of xs m' m f] by (simp add: slist_def)

lemma CKcopy_frame:
  assumes "CKcopySharedPageMapping a b c d n s = Some (ok, s')"
  shows "\<exists>m k. s' = s\<lparr>ckmem := m, kmem := k\<rparr>"
proof -
  obtain ok1 s1 where al: "alloc_tables_for c d (d + n) s = Some (ok1, s1)"
      "s' = s1 \<or> (\<exists>k. s' = s1\<lparr>kmem := k\<rparr>)"
    using assms by (auto simp: CKcopySharedPageMapping_def Let_def Option.bind_eq_Some_conv split: if_splits prod.splits)
  obtain m k where s1: "s1 = s\<lparr>ckmem := m, kmem := k\<rparr>" using alloc_tables_frame[OF al(1)] by blast
  then have "s1\<lparr>kmem := j\<rparr> = s\<lparr>ckmem := m, kmem := j\<rparr>" for j by simp
  then show ?thesis using al(2) s1 by blast
qed

lemma CKshMemAttach_moves:
  assumes wf: "shm_wf smo gs att s" and o: "smo = shobjs s object"
    and r: "CKshMemAttach object la n s = Some (CK_OK, s')"
  shows "\<exists>pre x post. gs = pre @ x # post \<and> sh_thread (shlists s x) = currtask s
    \<and> (\<forall>y\<in>set pre. sh_thread (shlists s y) \<noteq> currtask s) \<and> shm_wf smo (pre @ post) (att @ [x]) s'
    \<and> (\<forall>y. sh_thread (shlists s' y) = sh_thread (shlists s y)) \<and> sh_logicalAddr (shlists s' x) = la
    \<and> sint (sh_size (shlists s' x)) = min (sint n) (sint (sm_size (shmems s smo)))"
proof -
  let ?o = "shmems s smo"
  let ?s1 = "set_shmem smo (\<lambda>x. x\<lparr>sm_mutex := 1\<rparr>) s"
  have w: "slist (shlists s) (firstInvited ?o) (lastInvited ?o) gs" "slist (shlists s) (firstThread ?o) (lastThread ?o) att"
      "set gs \<inter> set att = {}" "sm_mutex ?o = 0" using wf by (simp_all add: shm_wf_def)
  have w1: "sll (shlists s) (firstInvited ?o) gs" using w(1) by (simp add: slist_def)
  have en: "enter_shmem smo s = Some ?s1" using w(4) by (simp add: enter_shmem_def)
  obtain x p where f: "fetchThread (shlists s) (firstInvited ?o) (currtask s) NIL = Some (x, p)"
    "x = NIL \<and> (\<forall>y\<in>set gs. sh_thread (shlists s y) \<noteq> currtask s)
       \<or> (\<exists>pre post. gs = pre @ x # post \<and> x \<noteq> NIL \<and> sh_thread (shlists s x) = currtask s
            \<and> (\<forall>y\<in>set pre. sh_thread (shlists s y) \<noteq> currtask s) \<and> p = (if pre = [] then NIL else last pre))"
    using fetchThread_ok[OF w1, of "currtask s" NIL] by (elim exE conjE) (rule that)
  let ?sz = "if sint n < sint (sm_size ?o) then n else sm_size ?o"
  obtain s2 src sl dst where c: "CKcopySharedPageMapping src sl dst la ?sz ?s1 = Some (True, s2)" "x \<noteq> NIL"
    and s': "s' = exit_shmem smo (on_attached smo (append_node x)
      ((on_invited smo (remove_node x p) s2)\<lparr>shlists := (shlists (on_invited smo (remove_node x p) s2))
         (x := (shlists (on_invited smo (remove_node x p) s2) x)\<lparr>sh_next := NIL, sh_logicalAddr := la, sh_size := ?sz\<rparr>)\<rparr>))"
    using r unfolding CKshMemAttach_def Let_def o[symmetric]
    by (auto simp: en f(1) Option.bind_eq_Some_conv split: if_splits)
  then obtain pre post where x: "gs = pre @ x # post" "sh_thread (shlists s x) = currtask s"
      "\<forall>y\<in>set pre. sh_thread (shlists s y) \<noteq> currtask s" "p = (if pre = [] then NIL else last pre)"
    using f(2) by blast
  obtain m k where s2: "s2 = ?s1\<lparr>ckmem := m, kmem := k\<rparr>" using CKcopy_frame[OF c(1)] by blast
  obtain f1 l1 m1 where rm: "remove_node x p (firstInvited ?o, lastInvited ?o, shlists s) = (f1, l1, m1)"
    by (metis surj_pair)
  note rn = remove_node_ok[OF w(1)[unfolded x(1)] x(4) rm]
  let ?m2 = "m1(x := (m1 x)\<lparr>sh_next := NIL, sh_logicalAddr := la, sh_size := ?sz\<rparr>)"
  obtain f2 l2 m3 where ap: "append_node x (firstThread ?o, lastThread ?o, ?m2) = (f2, l2, m3)"
    by (metis surj_pair)
  have d: "distinct (pre @ x # post)" "x \<notin> set att" using w(1,3) x(1) by (auto simp: slist_def)
  have na: "y \<notin> set pre" "y \<notin> set post" "y \<noteq> x" if "y \<in> set att" for y using that w(3) x(1) by auto
  have "\<forall>y\<in>set att. sh_next (?m2 y) = sh_next (shlists s y)" using na rn(2) by simp
  then have "slist ?m2 (firstThread ?o) (lastThread ?o) att" using w(2) slist_cong by blast
  note an = append_node_ok[OF this d(2) c(2) _ ap, simplified]
  have "y \<noteq> x \<and> y \<notin> set att" if "y \<in> set (pre @ post)" for y using that na d(1) by auto
  then have "\<forall>y\<in>set (pre @ post). sh_next (m3 y) = sh_next (m1 y)" using an(2) by simp
  then have "slist m3 f1 l1 (pre @ post)" using rn(1) slist_cong by blast
  then have "shm_wf smo (pre @ post) (att @ [x]) s'"
    using an(1) w(3) d x(1) unfolding s' s2
    by (auto simp: shm_wf_def on_invited_def on_attached_def exit_shmem_def rm ap Let_def)
  moreover have "shlists s' = m3"
    unfolding s' s2 by (simp add: on_invited_def on_attached_def exit_shmem_def rm ap Let_def)
  moreover have "sh_thread (m3 y) = sh_thread (shlists s y)" for y
    using an(3)[of y] rn(3) by (simp split: if_splits)
  moreover have "sh_logicalAddr (m3 x) = la" "sint (sh_size (m3 x)) = min (sint n) (sint (sm_size ?o))"
    using an(4) by (simp_all add: min_def)
  ultimately show ?thesis using x(1-3) by metis
qed

section \<open>Signals to the threads of a list\<close>

text \<open>A signal touches nothing of the shared memory objects, and takes memory only.\<close>

lemma CKsendSignal_avail:
  assumes inv: "sched_inv s T" and a: "a \<in> T" and m: "CKmem_ok (ckmem s)"
    and r: "CKsendSignal a sig extra prio s = Some (r, s')"
  shows "CKmem_avail (ckmem s') \<subseteq> CKmem_avail (ckmem s)"
proof -
  have n: "CKmem_sound sizeof_SIGNAL" by (simp add: CKmem_sound_def sizeofs)
  obtain q m' where al: "CKmemAlloc sizeof_SIGNAL (ckmem s) = Some (q, m')"
    using ck.alloc_returns[OF m n] by blast
  have sub: "CKmem_avail m' \<subseteq> CKmem_avail (ckmem s)"
    using ck.alloc_fail[OF m n] ck.alloc_block[OF m n al] al by (cases "q = NIL") auto
  have "ckmem s' = m'"
  proof (cases "q = NIL")
    case True
    then show ?thesis using r al by (auto simp: CKsendSignal_def with_mem_def)
  next
    case False
    let ?sg = "\<lparr>sig_addr = q, sig_signal = sig AND NOT SFBUSY, sig_extra = extra, sig_priority = prio,
      sig_sender = currtask s\<rparr>"
    let ?s2 = "set_thread a (\<lambda>t. t\<lparr>signals := sig_enqueue ?sg (signals t)\<rparr>) (s\<lparr>ckmem := m'\<rparr>)"
    have i2: "sched_inv ?s2 T" by (rule sched_inv_signals) (use inv in simp)
    have e: "CKsendSignal a sig extra prio s = (if ts (threads ?s2 a) = ts_Blocked
        then map_option (\<lambda>s3. (CK_OK, s3)) (CKunblockThread a ?s2) else Some (CK_OK, ?s2))"
      using al False by (simp add: CKsendSignal_def with_mem_def Let_def)
    show ?thesis
    proof (cases "ts (threads ?s2 a) = ts_Blocked")
      case True
      then obtain s3 where "CKunblockThread a ?s2 = Some s3" "rest_kept ?s2 s3"
        using unblock_inv[OF i2 a] by blast
      then show ?thesis using r e True by (auto simp: rest_kept_def)
    next
      case False
      then show ?thesis using r e by auto
    qed
  qed
  then show ?thesis using sub by simp
qed

lemma more_fields:
  fixes s s' :: "'a KERNEL_scheme"
  assumes "SCHED.more s' = SCHED.more s"
  shows "shlists s' = shlists s" "shmems s' = shmems s" "shobjs s' = shobjs s" "addrspcs s' = addrspcs s"
    "kmem s' = kmem s"
  using assms by (cases s; cases s'; simp)+

lemma signal_all_some:
  fixes s :: "'a KERNEL_scheme"
  assumes "sched_inv s T" "CKmem_ok (ckmem s)" "sll (shlists s) a xs" "\<forall>x\<in>set xs. sh_thread (shlists s x) \<in> T"
  shows "\<exists>s'. signal_all sig object a s = Some s' \<and> sched_inv s' T \<and> CKmem_ok (ckmem s')
    \<and> headers s' = headers s \<and> currtask s' = currtask s \<and> SCHED.more s' = SCHED.more s"
  using assms
proof (induction xs arbitrary: s a)
  case Nil
  then show ?case by (simp add: signal_all.simps)
next
  case (Cons x xs)
  then have x: "a = x" "x \<noteq> NIL" "sll (shlists s) (sh_next (shlists s x)) xs" by simp_all
  have t: "sh_thread (shlists s x) \<in> T" using Cons.prems(4) by simp
  obtain r s1 where s1: "CKsendSignal (sh_thread (shlists s x)) sig object SHMEMSIGNALPRIORITY s = Some (r, s1)"
      "sched_inv s1 T" "CKmem_ok (ckmem s1)" "headers s1 = headers s" "currtask s1 = currtask s"
      "SCHED.more s1 = SCHED.more s"
    using CKsendSignal_some[OF Cons.prems(1) t Cons.prems(2)] by blast
  note sh = more_fields(1)[OF s1(6)]
  have "signal_all sig object a s = signal_all sig object (sh_next (shlists s x)) s1"
    using x s1(1) by (subst signal_all.simps) simp
  moreover have "\<forall>y\<in>set xs. sh_thread (shlists s1 y) \<in> T" using Cons.prems(4) sh by simp
  ultimately show ?case
    using Cons.IH[OF s1(2,3) x(3)[folded sh]] s1(4-6) sh by auto
qed

text \<open>The blocks of the nodes, to be freed one after the other.\<close>

abbreviation node_bytes :: "addr \<Rightarrow> nat set" where
  "node_bytes a \<equiv> bytes a (AdjustSize sizeof_SHTHREADLIST)"

fun nodes_allocated :: "addr list \<Rightarrow> nat set \<Rightarrow> bool" where
  "nodes_allocated [] A \<longleftrightarrow> True"
| "nodes_allocated (x # xs) A \<longleftrightarrow> unat x + 24 \<le> 2 ^ 32 \<and> node_bytes x \<inter> A = {}
     \<and> (\<forall>y\<in>set xs. node_bytes x \<inter> node_bytes y = {}) \<and> nodes_allocated xs A"

lemma nodes_allocated_mono:
  "nodes_allocated xs A \<Longrightarrow> \<forall>x\<in>set xs. node_bytes x \<inter> B \<subseteq> A \<Longrightarrow> nodes_allocated xs B"
  by (induction xs) auto

lemma sched_shm [simp]:
  "sched_inv (s\<lparr>shmems := x\<rparr>) T = sched_inv s T"
  by (simp add: sched_inv_def sched_wf_def sched_at_def runner_ok_def)

lemma destroy_invited_some:
  fixes s :: "'a KERNEL_scheme"
  assumes "sched_inv s T" "CKmem_ok (ckmem s)" "sll (shlists s) a xs" "\<forall>x\<in>set xs. sh_thread (shlists s x) \<in> T"
    "nodes_allocated xs (CKmem_avail (ckmem s))" "sm_mutex (shmems s smo) = 1"
  shows "\<exists>s'. destroy_invited smo object a s = Some s' \<and> sched_inv s' T \<and> CKmem_ok (ckmem s')
    \<and> headers s' = headers s \<and> currtask s' = currtask s \<and> SCHED.more s' = SCHED.more s"
  using assms
proof (induction xs arbitrary: s a)
  case Nil
  then show ?case by (simp add: destroy_invited.simps)
next
  case (Cons x xs)
  have x: "a = x" "x \<noteq> NIL" "sll (shlists s) (sh_next (shlists s x)) xs" using Cons.prems(3) by simp_all
  have t: "sh_thread (shlists s x) \<in> T" using Cons.prems(4) by simp
  have sz: "CKmem_sound sizeof_SHTHREADLIST" "AdjustSize sizeof_SHTHREADLIST = 24"
    by (simp_all add: CKmem_sound_def AdjustSize_def sizeofs)
  have "unat x + unat (AdjustSize sizeof_SHTHREADLIST) \<le> 2 ^ 32" "node_bytes x \<inter> CKmem_avail (ckmem s) = {}"
    using Cons.prems(5) sz(2) by simp_all
  then obtain m where m: "CKmemFree x sizeof_SHTHREADLIST (ckmem s) = Some m" "CKmem_ok m"
      "CKmem_avail m = CKmem_avail (ckmem s) \<union> node_bytes x"
    using ck.free_block[OF Cons.prems(2) sz(1) x(2)] by blast
  let ?s1 = "exit_shmem smo (s\<lparr>ckmem := m\<rparr>)"
  have i1: "sched_inv ?s1 T" "CKmem_ok (ckmem ?s1)" using Cons.prems(1) m(2) by (simp_all add: exit_shmem_def)
  obtain r s2 where s2: "CKsendSignal (sh_thread (shlists s x)) SIGNLSHDEAD object SHMEMSIGNALPRIORITY ?s1 = Some (r, s2)"
      "sched_inv s2 T" "CKmem_ok (ckmem s2)" "headers s2 = headers ?s1" "currtask s2 = currtask ?s1"
      "SCHED.more s2 = SCHED.more ?s1"
    using CKsendSignal_some[OF i1(1) t i1(2)] by blast
  have av: "CKmem_avail (ckmem s2) \<subseteq> CKmem_avail (ckmem s) \<union> node_bytes x"
    using CKsendSignal_avail[OF i1(1) t i1(2) s2(1)] m(3) by (simp add: exit_shmem_def)
  note mf = more_fields[OF s2(6)]
  let ?s3 = "set_shmem smo (\<lambda>x. x\<lparr>sm_mutex := 1\<rparr>) s2"
  have en: "enter_shmem smo s2 = Some ?s3" using mf(2) by (simp add: enter_shmem_def exit_shmem_def)
  have e: "destroy_invited smo object a s = destroy_invited smo object (sh_next (shlists s x)) ?s3"
    using x m(1) s2(1) en by (subst destroy_invited.simps) (simp add: with_free_def)
  have sh: "shlists ?s3 = shlists s" using mf(1) by (simp add: exit_shmem_def)
  have mo: "SCHED.more ?s3 = SCHED.more s"
    using s2(6) Cons.prems(6) by (cases s; cases s2) (simp add: exit_shmem_def fun_upd_idem_iff)
  have nx: "nodes_allocated xs (CKmem_avail (ckmem s))" "\<forall>y\<in>set xs. node_bytes x \<inter> node_bytes y = {}"
    using Cons.prems(5) by simp_all
  have "\<forall>y\<in>set xs. node_bytes y \<inter> CKmem_avail (ckmem s2) \<subseteq> CKmem_avail (ckmem s)"
  proof
    fix y assume "y \<in> set xs"
    then have "node_bytes x \<inter> node_bytes y = {}" using nx(2) by blast
    then show "node_bytes y \<inter> CKmem_avail (ckmem s2) \<subseteq> CKmem_avail (ckmem s)" using av by blast
  qed
  note nodes_allocated_mono[OF nx(1) this]
  then have na: "nodes_allocated xs (CKmem_avail (ckmem ?s3))" by simp
  have p: "sched_inv ?s3 T" "CKmem_ok (ckmem ?s3)" "sll (shlists ?s3) (sh_next (shlists s x)) xs"
      "\<forall>y\<in>set xs. sh_thread (shlists ?s3 y) \<in> T" "sm_mutex (shmems ?s3 smo) = 1"
    unfolding sh using s2(2,3) x(3) Cons.prems(4) by simp_all
  note Cons.IH[OF p(1-4) na p(5)]
  then show ?case unfolding e mo using s2(4,5) by (simp add: exit_shmem_def)
qed

section \<open>The properties of shared memory objects\<close>

text \<open>C26: An invitation returns. Without memory it changes nothing; otherwise a new node for the
  thread is put behind all others in the list of invited threads, both lists stay linked
  lists without common nodes, the mutex is free and the scheduler's invariant is kept
  (shmem.c, \<open>CKshMemInvite\<close>).\<close>

theorem shm_invite:
  fixes s :: "'a KERNEL_scheme"
  assumes "sched_inv s T" "thread \<in> T" "CKmem_ok (ckmem s)" "shm_wf smo gs att s" "smo = shobjs s object"
    and "CKvalidSHMem object s" "\<not> sm_dead (shmems s smo)" "\<forall>x\<in>set gs \<union> set att. unat x \<notin> CKmem_avail (ckmem s)"
  shows "\<exists>r s'. CKshMemInvite object thread s = Some (r, s') \<and> sched_inv s' T \<and> CKmem_ok (ckmem s')
    \<and> (r = Some ENOMEM \<and> s' = s
       \<or> r = CK_OK \<and> (\<exists>n. n \<notin> set gs \<union> set att \<and> shm_wf smo (gs @ [n]) att s' \<and> sh_thread (shlists s' n) = thread
            \<and> (\<forall>x. x \<noteq> n \<longrightarrow> sh_thread (shlists s' x) = sh_thread (shlists s x))))"
proof -
  have n: "CKmem_sound sizeof_SHTHREADLIST" by (simp add: CKmem_sound_def sizeofs)
  obtain q m where al: "CKmemAlloc sizeof_SHTHREADLIST (ckmem s) = Some (q, m)" "CKmem_ok m"
    using ck.alloc_returns[OF assms(3) n] by blast
  show ?thesis
  proof (cases "q = NIL")
    case True
    then have "m = ckmem s" using ck.alloc_fail[OF assms(3) n] al(1) by simp
    then show ?thesis using True al assms by (simp add: CKshMemInvite_def with_mem_def Let_def)
  next
    case False
    have "24 \<le> unat (AdjustSize sizeof_SHTHREADLIST)" by (simp add: AdjustSize_def sizeofs)
    then have "unat q \<in> bytes q (AdjustSize sizeof_SHTHREADLIST)" by (simp add: bytes_def)
    then have nq: "q \<notin> set gs \<union> set att"
      using ck.alloc_block[OF assms(3) n al(1) False] assms(8) by blast
    let ?o = "shmems s smo"
    let ?m0 = "(shlists s)(q := (shlists s q)\<lparr>sh_thread := thread, sh_next := NIL\<rparr>)"
    have w: "slist (shlists s) (firstInvited ?o) (lastInvited ?o) gs" "slist (shlists s) (firstThread ?o) (lastThread ?o) att"
      "set gs \<inter> set att = {}" "sm_mutex ?o = 0" using assms(4) by (simp_all add: shm_wf_def)
    obtain f l m1 where ap: "append_node q (firstInvited ?o, lastInvited ?o, ?m0) = (f, l, m1)" by (metis surj_pair)
    have "\<forall>x\<in>set gs. sh_next (?m0 x) = sh_next (shlists s x)" using nq by auto
    then have "slist ?m0 (firstInvited ?o) (lastInvited ?o) gs" using w(1) slist_cong by blast
    note an = append_node_ok[OF this _ False _ ap]
    have nq1: "q \<notin> set gs" "sh_next (?m0 q) = NIL" using nq by simp_all
    note an = an[OF nq1]
    have "\<forall>x\<in>set att. m1 x = shlists s x"
    proof
      fix x assume "x \<in> set att"
      then have "x \<notin> set gs" "x \<noteq> q" using w(3) nq by auto
      then show "m1 x = shlists s x" using an(2) by simp
    qed
    then have at: "slist m1 (firstThread ?o) (lastThread ?o) att" using w(2) slist_cong[of att m1 "shlists s"] by simp
    let ?s2 = "exit_shmem smo (on_invited smo (append_node q)
      (set_shmem smo (\<lambda>x. x\<lparr>sm_mutex := 1\<rparr>) (s\<lparr>ckmem := m, shlists := ?m0\<rparr>)))"
    have s2: "shlists ?s2 = m1" "firstInvited (shmems ?s2 smo) = f" "lastInvited (shmems ?s2 smo) = l"
        "firstThread (shmems ?s2 smo) = firstThread ?o" "lastThread (shmems ?s2 smo) = lastThread ?o"
        "sm_mutex (shmems ?s2 smo) = 0" "ckmem ?s2 = m"
      by (simp_all add: exit_shmem_def on_invited_def ap Let_def)
    have i2: "sched_inv ?s2 T" using assms(1)
      by (simp add: exit_shmem_def on_invited_def ap Let_def sched_inv_def sched_wf_def sched_at_def runner_ok_def)
    have wf2: "shm_wf smo (gs @ [q]) att ?s2"
      unfolding shm_wf_def s2 using an(1) at w(3) nq by simp
    obtain r s3 where s3: "CKsendSignal thread SIGNLSHINVI object SHMEMSIGNALPRIORITY ?s2 = Some (r, s3)"
        "sched_inv s3 T" "CKmem_ok (ckmem s3)" "SCHED.more s3 = SCHED.more ?s2"
      using CKsendSignal_some[OF i2 assms(2), of SIGNLSHINVI object SHMEMSIGNALPRIORITY] al(2) s2(7) by auto
    note mf = more_fields[OF s3(4)]
    have c: "CKshMemInvite object thread s = Some (CK_OK, s3)"
      using assms(6,7) al(1) False w(4) s3(1) unfolding CKshMemInvite_def Let_def assms(5)[symmetric]
      by (simp add: with_mem_def enter_shmem_def)
    have "shm_wf smo (gs @ [q]) att s3" using wf2 by (simp add: shm_wf_def mf)
    moreover have "sh_thread (shlists s3 q) = thread" "\<forall>x. x \<noteq> q \<longrightarrow> sh_thread (shlists s3 x) = sh_thread (shlists s x)"
      unfolding mf s2(1) an(3) by simp_all
    ultimately show ?thesis using c s3(2,3) nq by blast
  qed
qed

text \<open>A shared memory object without threads, owned by thread 1.\<close>

definition small_shm :: KERNEL where
  "small_shm = small_kernel\<lparr>headers := (\<lambda>a. no_header\<lparr>objectSignature := (if a = 5 then SIGSHMEM else SIGTHREAD)\<rparr>),
     shobjs := (\<lambda>_. 0x6000), shmems := (\<lambda>_. \<lparr>sm_mutex = 0, sm_owner = 1, sm_dead = False, sm_logicalAddr = 0x400000,
       sm_size = 0x3000, firstInvited = 0x6100, lastInvited = 0x6100, firstThread = 0, lastThread = 0\<rparr>),
     shlists := (\<lambda>_. \<lparr>sh_next = 0, sh_thread = 2, sh_logicalAddr = 0, sh_size = 0\<rparr>)\<rparr>"

lemma small_shm_ok:
  "sched_inv small_shm {1, 2}" "CKmem_ok (ckmem small_shm)" "shm_wf 0x6000 [0x6100] [] small_shm"
  "CKvalidSHMem 5 small_shm" "\<not> sm_dead (shmems small_shm 0x6000)" "shobjs small_shm 5 = 0x6000"
  "CKmem_avail (ckmem small_shm) = {0x1000..<0x2000}" "currtask small_shm = 1" "sm_owner (shmems small_shm 0x6000) = 1"
  using small_kernel_inv one_block_mem_ok(1) one_block_avail
  by (simp_all add: small_shm_def sched_inv_def sched_wf_def sched_at_def runner_ok_def shm_wf_def slist_def CKvalidSHMem_def)

theorem shm_invite_witness:
  "\<exists>r s'. CKshMemInvite 5 2 small_shm = Some (r, s') \<and> sched_inv s' {1, 2}"
  using shm_invite[OF small_shm_ok(1) _ small_shm_ok(2,3) small_shm_ok(6)[symmetric] small_shm_ok(4,5), of 2]
  by (auto simp: small_shm_ok(7))

text \<open>C27: Attaching with success moves the first invitation of the calling thread to the end of
  the list of attached threads and changes neither list otherwise; the node keeps the address
  and the smaller of the size asked for and the size of the object (shmem.c, \<open>CKshMemAttach\<close>).\<close>

theorem shm_attach:
  assumes "shm_wf smo gs att s" "smo = shobjs s object" "CKshMemAttach object la n s = Some (CK_OK, s')"
  shows "\<exists>pre x post. gs = pre @ x # post \<and> sh_thread (shlists s x) = currtask s
    \<and> (\<forall>y\<in>set pre. sh_thread (shlists s y) \<noteq> currtask s) \<and> shm_wf smo (pre @ post) (att @ [x]) s'
    \<and> (\<forall>y. sh_thread (shlists s' y) = sh_thread (shlists s y)) \<and> sh_logicalAddr (shlists s' x) = la
    \<and> sint (sh_size (shlists s' x)) = min (sint n) (sint (sm_size (shmems s smo)))"
  by (rule CKshMemAttach_moves[OF assms])

lemma CKcopy_some:
  "alloc_tables_for c d (d + n) s = Some (True, s1) \<Longrightarrow> \<exists>s2. CKcopySharedPageMapping a b c d n s = Some (True, s2)"
  by (auto simp: CKcopySharedPageMapping_def Let_def split: prod.splits)

definition guest_shm :: KERNEL where
  "guest_shm = small_shm\<lparr>currtask := 2, headers := (\<lambda>a. no_header\<lparr>objectSignature := (if a = 5 then SIGSHMEM else SIGADDRSPC)\<rparr>),
     threads := (\<lambda>a. (threads small_shm a)\<lparr>addressSpace := a + 6\<rparr>), kmem := (\<lambda>a. if a = 0x5004 then 0x7007 else 0),
     addrspcs := (\<lambda>_. \<lparr>a_parentKernel = 0, addrSpc = 0x5000\<rparr>)\<rparr>"

lemma guest_shm_attach: "\<exists>s'. CKshMemAttach 5 0x400000 0x1000 guest_shm = Some (CK_OK, s')"
proof -
  let ?s1 = "set_shmem 0x6000 (\<lambda>x. x\<lparr>sm_mutex := 1\<rparr>) guest_shm"
  have h: "unat (0x400000 :: u32) \<le> unat (0x401000 :: u32)" "unat (0x401000 :: u32) < 0xFFC00000"
      "unat (0x401000 :: u32) mod 2 ^ 22 \<noteq> 0" by simp_all
  have p: "pdes 0x400000 0x401000 = [1]" using pdes_index(1)[OF h] by simp
  have "alloc_tables_for 0x5000 0x400000 (0x400000 + 0x1000) ?s1 = Some (True, ?s1)"
    by (simp add: alloc_tables_for_def p missing_def pte_flags_def guest_shm_def)
  from CKcopy_some[OF this, of "0x5000" "0x400000"] obtain s2 where
    c: "CKcopySharedPageMapping 0x5000 0x400000 0x5000 0x400000 0x1000 ?s1 = Some (True, s2)" by blast
  have f: "shobjs guest_shm 5 = 0x6000" "currtask guest_shm = 2" "addressSpace (threads guest_shm a) = a + 6"
      "addrspcs guest_shm a = \<lparr>a_parentKernel = 0, addrSpc = 0x5000\<rparr>"
      "CKvalidSHMem 5 guest_shm" "CKvalidAddrSpc 7 guest_shm" "CKvalidAddrSpc 8 guest_shm"
      "shmems guest_shm a = \<lparr>sm_mutex = 0, sm_owner = 1, sm_dead = False, sm_logicalAddr = 0x400000,
         sm_size = 0x3000, firstInvited = 0x6100, lastInvited = 0x6100, firstThread = 0, lastThread = 0\<rparr>"
      "fetchThread (shlists guest_shm) 0x6100 2 NIL = Some (0x6100, NIL)" for a
    by (simp_all add: guest_shm_def small_shm_def CKvalidSHMem_def CKvalidAddrSpc_def SIGADDRSPC_def SIGSHMEM_def fetchThread.simps)
  show ?thesis unfolding CKshMemAttach_def Let_def f using c by (simp add: f enter_shmem_def)
qed

theorem shm_attach_witness:
  "\<exists>s'. CKshMemAttach 5 0x400000 0x1000 guest_shm = Some (CK_OK, s') \<and> shm_wf 0x6000 [] [0x6100] s'"
proof -
  have w: "shm_wf 0x6000 [0x6100] [] guest_shm" "0x6000 = shobjs guest_shm 5"
    using small_shm_ok(3,6) by (simp_all add: guest_shm_def shm_wf_def)
  obtain s' where s': "CKshMemAttach 5 0x400000 0x1000 guest_shm = Some (CK_OK, s')" using guest_shm_attach by blast
  have one: "[0x6100] = pre @ x # post \<longleftrightarrow> pre = [] \<and> x = 0x6100 \<and> post = []" for pre post and x :: addr
    by (cases pre) auto
  show ?thesis using shm_attach[OF w s'] s' unfolding one by auto
qed



end
