(* ===== verification/CK_Objmgmt.thy ===== *)
theory CK_Objmgmt
  imports CK_Shmem
begin

text \<open>
  The system object manager: \<^verbatim>\<open>CK/objmgmt.c\<close>, with the preparation of a thread's task state
  in \<^verbatim>\<open>CK/architecture/I80X86/tasks.c\<close> and of a kernel in \<^verbatim>\<open>kernel.c\<close>. The objects of a kind
  are a doubly linked list through their headers, whose head is the object loaded last.
  \<open>None\<close> is a call that does not return or follows a missing edge of the dependency graph.
\<close>

section \<open>Lists of peer objects\<close>

text \<open>Filling in a new header and linking it before the old head; taking a header out.\<close>

definition link_object :: "u32 \<Rightarrow> u32 \<Rightarrow> addr \<Rightarrow> addr \<Rightarrow> addr \<Rightarrow> VERTICES \<Rightarrow> VERTICES" where
  "link_object sig flags data head a V =
     (let V1 = V(a := (V a)\<lparr>objectSignature := sig, oflags := flags, objectData := data, dependencies := 0,
            firstDependency := None, nextObject := NIL, prevObject := head\<rparr>)
      in if head \<noteq> NIL then V1(head := (V1 head)\<lparr>nextObject := a\<rparr>) else V1)"

definition unlink_object :: "addr \<Rightarrow> addr \<times> VERTICES \<Rightarrow> addr \<times> VERTICES" where
  "unlink_object a = (\<lambda>(head, V).
     let V1 = (if prevObject (V a) \<noteq> NIL
               then V(prevObject (V a) := (V (prevObject (V a)))\<lparr>nextObject := nextObject (V a)\<rparr>) else V)
     in if nextObject (V1 a) \<noteq> NIL
        then (head, V1(nextObject (V1 a) := (V1 (nextObject (V1 a)))\<lparr>prevObject := prevObject (V1 a)\<rparr>))
        else (prevObject (V1 a), V1))"

definition on_graph :: "(ODG \<times> VERTICES \<Rightarrow> (ODG \<times> VERTICES) option) \<Rightarrow> 'a SCHED_scheme \<Rightarrow> 'a SCHED_scheme option" where
  "on_graph f s = map_option (\<lambda>(G, V). s\<lparr>odg := G, headers := V\<rparr>) (f (odg s, headers s))"

text \<open>A parent kernel of -1 stands for the caller's.\<close>

definition parent_for :: "addr \<Rightarrow> 'a SCHED_scheme \<Rightarrow> addr" where
  "parent_for p s =
     (if p \<noteq> - 1 then p else if currtask s \<noteq> NIL then parentKernel (threads s (currtask s)) else NIL)"

definition bad_parent :: "addr \<Rightarrow> 'a SCHED_scheme \<Rightarrow> bool" where
  "bad_parent p s \<longleftrightarrow> p \<noteq> NIL \<and> p \<noteq> - 1 \<and> \<not> CKvalidKernel p s"

definition add_parent_dep :: "addr \<Rightarrow> addr \<Rightarrow> 'a SCHED_scheme \<Rightarrow> 'a SCHED_scheme option" where
  "add_parent_dep p a s = (if p \<noteq> NIL then on_graph (CKaddObjectDep p a) s else Some s)"

definition remove_parent_dep :: "addr \<Rightarrow> addr \<Rightarrow> 'a SCHED_scheme \<Rightarrow> 'a SCHED_scheme option" where
  "remove_parent_dep p a s = (if p \<noteq> NIL then on_graph (CKremoveDepSearch p a) s else Some s)"

section \<open>Task states (tasks.c) and kernels (kernel.c)\<close>

abbreviation set_tss :: "addr \<Rightarrow> (TSS \<Rightarrow> TSS) \<Rightarrow> 'a SCHED_scheme \<Rightarrow> 'a SCHED_scheme" where
  "set_tss a f s \<equiv> set_thread a (\<lambda>t. t\<lparr>taskState := f (taskState t)\<rparr>) s"

definition CKpreProcessTaskState :: "addr \<Rightarrow> addr \<Rightarrow> 'a KERNEL_scheme \<Rightarrow> (ckresult \<times> 'a KERNEL_scheme) option" where
  "CKpreProcessTaskState object ckobject s =
     (let pd = PHYS (addrSpc (addrspcs s (addressSpace (threads s ckobject))));
          s1 = set_tss ckobject (\<lambda>_. (userState (uthreads s object))\<lparr>tss_back := 0, tss_cr3 := pd\<rparr>) s;
          t = (\<lambda>s. taskState (threads s ckobject)) in
      if tss_cr3 (t s1) = 0 then Some (Some ENOVIRTMEM, s1)
      else if tss_eip (t s1) = 0 then Some (Some ESEGMENTATION, s1)
      else
        let s2 = set_tss ckobject (\<lambda>x. x\<lparr>tss_eflags := STDFLAGS, i387_used := 0\<rparr>) s1 in
        if tss_cs (t s2) = 0 \<or> tss_ds (t s2) = 0 \<or> tss_ss (t s2) = 0 then Some (Some ESEGMENTATION, s2)
        else do {
          (stack, s3) \<leftarrow> with_mem (CKmemAlloc KSTACKSIZE) (set_tss ckobject (\<lambda>x. x\<lparr>tss_ss0 := KDATA\<rparr>) s2);
          if stack = NIL then Some (Some ENOMEM, set_tss ckobject (\<lambda>x. x\<lparr>tss_esp0 := 0\<rparr>) s3)
          else Some (CK_OK, set_tss ckobject (\<lambda>x. x\<lparr>tss_esp0 := stack + KSTACKSIZE\<rparr>) s3)
        })"

definition CKpostProcessTaskState :: "addr \<Rightarrow> addr \<Rightarrow> 'a KERNEL_scheme \<Rightarrow> 'a KERNEL_scheme option" where
  "CKpostProcessTaskState object ckobject s =
     with_free (tss_esp0 (taskState (threads s ckobject)) - KSTACKSIZE) KSTACKSIZE
       (if ckobject = lastFPUUser s then s\<lparr>lastFPUUser := NIL\<rparr> else s)"

definition CKpreProcessKernel :: "addr \<Rightarrow> addr \<Rightarrow> 'a KERNEL_scheme \<Rightarrow> ckresult \<times> 'a KERNEL_scheme" where
  "CKpreProcessKernel object ckobject s = (CK_OK, s)"

definition CKpostProcessKernel :: "addr \<Rightarrow> addr \<Rightarrow> 'a KERNEL_scheme \<Rightarrow> 'a KERNEL_scheme" where
  "CKpostProcessKernel object ckobject s = s"

section \<open>Threads\<close>

definition CKloadThreadObject :: "addr \<Rightarrow> u32 \<Rightarrow> u32 \<Rightarrow> 'a KERNEL_scheme \<Rightarrow> (ckresult \<times> 'a KERNEL_scheme) option" where
  "CKloadThreadObject object sz flags s =
     (let u = uthreads s object in
      if flags AND OFLOCKED \<noteq> 0 then Some (Some ENOLOCKPERMS, s)
      else if u_addressSpace u = NIL \<or> \<not> CKvalidAddrSpc (u_addressSpace u) s then Some (Some ENOVALIDADDRSPC, s)
      else if u_quantum u = 0 \<or> u_defer u = 0 then Some (Some EINSCHEDPARMS, s)
      else if bad_parent (u_parentKernel u) s then Some (Some ENOVALIDKERNEL, s)
      else do {
        (a, s1) \<leftarrow> with_mem (CKmemAlloc sizeof_CKThreadObject) s;
        if a = NIL then Some (Some ENOMEM, s1)
        else
          let s2 = s1\<lparr>headers := link_object SIGTHREAD flags object (threadObjHead s1) a (headers s1), threadObjHead := a\<rparr>;
              p = parent_for (u_parentKernel u) s2;
              s3 = set_thread a (\<lambda>t. t\<lparr>parentKernel := p, addressSpace := u_addressSpace u, trap_res := NIL,
                dmachan_res := NIL, ioregion_res := NIL, quantum := u_quantum u, defer_time := u_defer u,
                ts := ts_Blocked, signals := []\<rparr>) s2;
              s4 = set_uthread object (\<lambda>x. x\<lparr>u_interruptable := (if p \<noteq> NIL then 0 else 1)\<rparr>) s3
          in do {
            (err, s5) \<leftarrow> CKpreProcessTaskState object a s4;
            if err \<noteq> CK_OK then map_option (\<lambda>s6. (err, s6)) (with_free a sizeof_CKThreadObject s5)
            else do {
              s6 \<leftarrow> on_graph (CKaddObjectDep (addressSpace (threads s5 a)) a) s5;
              s7 \<leftarrow> add_parent_dep (parentKernel (threads s6 a)) a s6;
              Some (CK_OK, set_uthread object (\<lambda>x. x\<lparr>u_self := a\<rparr>) s7)
            }
          }
      })"

definition CKunloadThreadObject :: "addr \<Rightarrow> 'a KERNEL_scheme \<Rightarrow> (ckresult \<times> 'a KERNEL_scheme) option" where
  "CKunloadThreadObject object s =
     (let thread = objectData (headers s object); me = (currtask s = object) in
      do {
        s1 \<leftarrow> (if me then map_option (\<lambda>l. s\<lparr>schedLock := l\<rparr>) (CKenterCritical (schedLock s)) else Some s);
        s2 \<leftarrow> CKblockThread object s1;
        s3 \<leftarrow> on_graph (CKremoveDepSearch (addressSpace (threads s2 object)) object) s2;
        s4 \<leftarrow> remove_parent_dep (parentKernel (threads s3 object)) object s3;
        let (head, V) = unlink_object object (threadObjHead s4, headers s4);
        let s5 = set_uthread thread (\<lambda>x. x\<lparr>u_self := NIL\<rparr>) (s4\<lparr>headers := V, threadObjHead := head\<rparr>);
        s6 \<leftarrow> CKpostProcessTaskState thread object s5;
        s7 \<leftarrow> with_free object sizeof_CKThreadObject s6;
        Some (CK_OK, if currtask s7 = object
          then quantumDone (s7\<lparr>currtask := zombietask s7, sysObjManLock := CKexitCritical (sysObjManLock s7),
                 schedLock := CKexitCritical (schedLock s7)\<rparr>)
          else s7)
      })"

section \<open>Address spaces\<close>

definition CKloadAddrSpcObject :: "addr \<Rightarrow> u32 \<Rightarrow> u32 \<Rightarrow> 'a KERNEL_scheme \<Rightarrow> (ckresult \<times> 'a KERNEL_scheme) option" where
  "CKloadAddrSpcObject object sz flags s =
     (let pk = ua_parentKernel (uaddrspcs s object) in
      if flags AND OFLOCKED \<noteq> 0 then Some (Some ENOLOCKPERMS, s)
      else if bad_parent pk s then Some (Some ENOVALIDKERNEL, s)
      else do {
        (a, s1) \<leftarrow> with_mem (CKmemAlloc sizeof_CKAddrSpcObject) s;
        if a = NIL then Some (Some ENOMEM, s1)
        else
          let s2 = s1\<lparr>headers := link_object SIGADDRSPC flags object (addrSpcObjHead s1) a (headers s1), addrSpcObjHead := a\<rparr>;
              s3 = s2\<lparr>addrspcs := (addrspcs s2)(a := (addrspcs s2 a)\<lparr>a_parentKernel := parent_for pk s2\<rparr>)\<rparr>
          in do {
            (err, s4) \<leftarrow> CKpreProcessAddrSpc a s3;
            if err \<noteq> CK_OK then map_option (\<lambda>s5. (err, s5)) (with_free a sizeof_CKAddrSpcObject s4)
            else do {
              s5 \<leftarrow> add_parent_dep (a_parentKernel (addrspcs s4 a)) a s4;
              Some (CK_OK, s5\<lparr>uaddrspcs := (uaddrspcs s5)(object := (uaddrspcs s5 object)\<lparr>ua_self := a\<rparr>)\<rparr>)
            }
          }
      })"

definition CKunloadAddrSpcObject :: "addr \<Rightarrow> 'a KERNEL_scheme \<Rightarrow> (ckresult \<times> 'a KERNEL_scheme) option" where
  "CKunloadAddrSpcObject object s =
     (let aspace = objectData (headers s object) in
      do {
        s1 \<leftarrow> remove_parent_dep (a_parentKernel (addrspcs s object)) object s;
        let (head, V) = unlink_object object (addrSpcObjHead s1, headers s1);
        let s2 = s1\<lparr>headers := V, addrSpcObjHead := head,
                 uaddrspcs := (uaddrspcs s1)(aspace := (uaddrspcs s1 aspace)\<lparr>ua_self := NIL\<rparr>)\<rparr>;
        s3 \<leftarrow> CKpostProcessAddrSpc object s2;
        s4 \<leftarrow> with_free object sizeof_CKAddrSpcObject s3;
        Some (CK_OK, s4)
      })"

section \<open>Shared memory\<close>

text \<open>All words of the new structure are cleared before the owner is set.\<close>

definition CKloadSHMemObject :: "addr \<Rightarrow> u32 \<Rightarrow> u32 \<Rightarrow> 'a KERNEL_scheme \<Rightarrow> (ckresult \<times> 'a KERNEL_scheme) option" where
  "CKloadSHMemObject object sz flags s =
     (if flags AND OFLOCKED \<noteq> 0 then Some (Some ENOLOCKPERMS, s)
      else do {
        (a, s1) \<leftarrow> with_mem (CKmemAlloc sizeof_CKSHMemObject) s;
        if a = NIL then Some (Some ENOMEM, s1)
        else
          let s2 = s1\<lparr>headers := link_object SIGSHMEM flags object (shMemObjHead s1) a (headers s1), shMemObjHead := a\<rparr> in
          do {
            (smo, s3) \<leftarrow> with_mem (CKmemAlloc sizeof_SHMEMOBJ) s2;
            let s4 = s3\<lparr>shobjs := (shobjs s3)(a := smo)\<rparr>;
            if smo = NIL then map_option (\<lambda>s5. (Some ENOMEM, s5)) (with_free a sizeof_CKSHMemObject s4)
            else do {
              let s5 = s4\<lparr>shmems := (shmems s4)(smo := \<lparr>sm_mutex = 0, sm_owner = currtask s4, sm_dead = False,
                sm_logicalAddr = 0, sm_size = 0, firstInvited = NIL, lastInvited = NIL, firstThread = NIL, lastThread = NIL\<rparr>)\<rparr>;
              s6 \<leftarrow> on_graph (CKaddObjectDep (sm_owner (shmems s5 smo)) a) s5;
              Some (CK_OK, s6\<lparr>ushmems := (ushmems s6)(object := a)\<rparr>)
            }
          }
      })"

definition CKunloadSHMemObject :: "addr \<Rightarrow> 'a KERNEL_scheme \<Rightarrow> (ckresult \<times> 'a KERNEL_scheme) option" where
  "CKunloadSHMemObject object s =
     (let shmo = objectData (headers s object) in
      do {
        s1 \<leftarrow> on_graph (CKremoveDepSearch (sm_owner (shmems s (shobjs s object))) object) s;
        let (head, V) = unlink_object object (shMemObjHead s1, headers s1);
        let s2 = s1\<lparr>headers := V, shMemObjHead := head, ushmems := (ushmems s1)(shmo := NIL)\<rparr>;
        (_, s3) \<leftarrow> CKshMemDestroy object s2;
        s4 \<leftarrow> with_free (shobjs s3 object) sizeof_SHMEMOBJ s3;
        s5 \<leftarrow> with_free object sizeof_CKSHMemObject s4;
        Some (CK_OK, s5)
      })"

section \<open>Kernels\<close>

definition CKloadKernelObject :: "addr \<Rightarrow> u32 \<Rightarrow> u32 \<Rightarrow> 'a KERNEL_scheme \<Rightarrow> (ckresult \<times> 'a KERNEL_scheme) option" where
  "CKloadKernelObject object sz flags s =
     (let u = ukernels s object in
      if flags AND OFLOCKED \<noteq> 0 then Some (Some ENOLOCKPERMS, s)
      else if uk_addrSpace u = NIL \<or> \<not> CKvalidAddrSpc (uk_addrSpace u) s then Some (Some ENOVALIDADDRSPC, s)
      else if uk_sigHandler u = 0 then Some (Some ENOSIGHANDL, s)
      else do {
        (a, s1) \<leftarrow> with_mem (CKmemAlloc sizeof_CKKernelObject) s;
        if a = NIL then Some (Some ENOMEM, s1)
        else
          let s2 = s1\<lparr>headers := link_object SIGKERNEL flags object (kernelObjHead s1) a (headers s1), kernelObjHead := a\<rparr>;
              s3 = s2\<lparr>kernels := (kernels s2)(a := \<lparr>k_addrSpace = uk_addrSpace u, sigHandler = uk_sigHandler u,
                physregion_res = NIL\<rparr>)\<rparr>;
              (err, s4) = CKpreProcessKernel object a s3
          in if err \<noteq> CK_OK then map_option (\<lambda>s5. (err, s5)) (with_free a sizeof_CKKernelObject s4)
             else Some (CK_OK, s4\<lparr>ukernels := (ukernels s4)(object := (ukernels s4 object)\<lparr>uk_self := a\<rparr>)\<rparr>)
      })"

definition CKunloadKernelObject :: "addr \<Rightarrow> 'a KERNEL_scheme \<Rightarrow> (ckresult \<times> 'a KERNEL_scheme) option" where
  "CKunloadKernelObject object s =
     (let kernel = objectData (headers s object);
          (head, V) = unlink_object object (kernelObjHead s, headers s);
          s1 = s\<lparr>headers := V, kernelObjHead := head, ukernels := (ukernels s)(kernel := (ukernels s kernel)\<lparr>uk_self := NIL\<rparr>)\<rparr>
      in map_option (\<lambda>s2. (CK_OK, s2)) (with_free object sizeof_CKKernelObject (CKpostProcessKernel kernel object s1)))"

section \<open>Unloading with the dependants\<close>

definition unload_kind :: "addr \<Rightarrow> 'a KERNEL_scheme \<Rightarrow> (ckresult \<times> 'a KERNEL_scheme) option" where
  "unload_kind object s =
     (let sig = objectSignature (headers s object) in
      if sig = SIGTHREAD then CKunloadThreadObject object s
      else if sig = SIGADDRSPC then CKunloadAddrSpcObject object s
      else if sig = SIGKERNEL then CKunloadKernelObject object s
      else if sig = SIGSHMEM then CKunloadSHMemObject object s
      else Some (Some EUNDEFOBJ, s))"

text \<open>The child of the object's first edge.\<close>

definition first_child :: "addr \<Rightarrow> 'a SCHED_scheme \<Rightarrow> addr option" where
  "first_child object s = map_option (\<lambda>i. e_child (ODA (odg s) ! i)) (firstDependency (headers s object))"

text \<open>
  \<open>unload_object True\<close> is \<open>CKunloadObject\<close>, \<open>unload_object False\<close> its loop from the second
  round on: the index of the loop is stepped back in each round, so that it is always the
  first edge that is unloaded.
\<close>

partial_function (option) unload_object :: "bool \<Rightarrow> addr \<Rightarrow> 'a KERNEL_scheme \<Rightarrow> (ckresult \<times> 'a KERNEL_scheme) option" where
  "unload_object start object s =
     (if start \<and> oflags (headers s object) AND OFLOCKED \<noteq> 0 then Some (Some ELOCKED, s)
      else if dependencies (headers s object) \<noteq> 0 then
        Option.bind (first_child object s) (\<lambda>c.
        Option.bind (unload_object True c s) (\<lambda>(err, s1).
          if err \<noteq> CK_OK then Some (err, s1) else unload_object False object s1))
      else unload_kind object s)"

definition CKunloadObject :: "addr \<Rightarrow> 'a KERNEL_scheme \<Rightarrow> (ckresult \<times> 'a KERNEL_scheme) option" where
  "CKunloadObject = unload_object True"

section \<open>The system calls\<close>

definition CKcacheObject :: "addr \<Rightarrow> u32 \<Rightarrow> u32 \<Rightarrow> u32 \<Rightarrow> 'a KERNEL_scheme \<Rightarrow> (ckresult \<times> 'a KERNEL_scheme) option" where
  "CKcacheObject object signature sz flags s0 =
     do {
       l \<leftarrow> CKenterCritical (sysObjManLock s0);
       let s = s0\<lparr>sysObjManLock := l\<rparr>;
       (err, s') \<leftarrow> (if signature = SIGTHREAD then CKloadThreadObject object sz flags s
         else if signature = SIGADDRSPC then CKloadAddrSpcObject object sz flags s
         else if signature = SIGKERNEL then CKloadKernelObject object sz flags s
         else if signature = SIGSHMEM then CKloadSHMemObject object sz flags s
         else Some (Some EUNDEFOBJ, s));
       Some (err, s'\<lparr>sysObjManLock := CKexitCritical (sysObjManLock s')\<rparr>)
     }"

text \<open>This loop does not stop at an error; the last one counts.\<close>

partial_function (option) uncache_loop :: "addr \<Rightarrow> ckresult \<Rightarrow> 'a KERNEL_scheme \<Rightarrow> (ckresult \<times> 'a KERNEL_scheme) option" where
  "uncache_loop object err s =
     (if dependencies (headers s object) \<noteq> 0 then
        Option.bind (first_child object s) (\<lambda>c.
        Option.bind (CKunloadObject c s) (\<lambda>(err', s1). uncache_loop object err' s1))
      else Some (err, s))"

definition CKunCacheObject :: "addr \<Rightarrow> 'a KERNEL_scheme \<Rightarrow> (ckresult \<times> 'a KERNEL_scheme) option" where
  "CKunCacheObject object s0 =
     (if oflags (headers s0 object) AND OFLOCKED \<noteq> 0 then Some (Some ELOCKED, s0)
      else do {
        l \<leftarrow> CKenterCritical (sysObjManLock s0);
        (err, s1) \<leftarrow> uncache_loop object CK_OK (s0\<lparr>sysObjManLock := l\<rparr>);
        (err', s2) \<leftarrow> (if err = CK_OK then unload_kind object s1 else Some (err, s1));
        Some (err', s2\<lparr>sysObjManLock := CKexitCritical (sysObjManLock s2)\<rparr>)
      })"

section \<open>The lists\<close>

abbreviation objects :: "VERTICES \<Rightarrow> addr \<Rightarrow> addr list \<Rightarrow> bool" where
  "objects V head xs \<equiv> dlist (\<lambda>x. prevObject (V x)) (\<lambda>x. nextObject (V x)) head xs"

interpretation obj: linked_headers prevObject nextObject
  "\<lambda>x r. r\<lparr>prevObject := x\<rparr>" "\<lambda>x r. r\<lparr>nextObject := x\<rparr>"
  by unfold_locales simp_all

lemma link_object_ok:
  assumes d: "objects V head xs" "distinct xs" and a: "a \<notin> set xs" "a \<noteq> NIL"
  shows "objects (link_object sig flags data head a V) a (a # xs)"
proof -
  let ?w = "(V a)\<lparr>objectSignature := sig, oflags := flags, objectData := data, dependencies := 0,
    firstDependency := None, nextObject := NIL, prevObject := head\<rparr>"
  have e: "link_object sig flags data head a V = dll_link (\<lambda>x r. r\<lparr>nextObject := x\<rparr>) a head (V(a := ?w))"
    by (simp add: link_object_def dll_link_def)
  show ?thesis unfolding e by (rule obj.link_ok[OF d a]) simp_all
qed

lemma unlink_object_ok:
  assumes d: "objects V head (us @ a # vs)" "distinct (us @ a # vs)"
    and r: "unlink_object a (head, V) = (head', V')"
  shows "objects V' head' (us @ vs)"
    and "\<And>x. (V' x)\<lparr>nextObject := 0, prevObject := 0\<rparr> = (V x)\<lparr>nextObject := 0, prevObject := 0\<rparr>"
proof -
  have e: "unlink_object a = dll_unlink prevObject nextObject (\<lambda>x r. r\<lparr>prevObject := x\<rparr>) (\<lambda>x r. r\<lparr>nextObject := x\<rparr>) a"
    by (simp add: unlink_object_def dll_unlink_def)
  note u = obj.unlink_ok[OF d r[unfolded e]]
  show "objects V' head' (us @ vs)" by (rule u(1))
  show "(V' x)\<lparr>nextObject := 0, prevObject := 0\<rparr> = (V x)\<lparr>nextObject := 0, prevObject := 0\<rparr>" for x
    using u(2)[of x] by auto
qed

lemma link_object_odg:
  assumes "odg_wf G V" "degree (edges G) a = 0"
  shows "odg_wf G (link_object sig flags data head a V)"
    and "\<And>x. x \<noteq> a \<Longrightarrow> deps_view G (link_object sig flags data head a V) x = deps_view G V x"
proof -
  let ?V = "link_object sig flags data head a V"
  have f: "dependencies (?V x) = (if x = a then 0 else dependencies (V x))"
      "firstDependency (?V x) = (if x = a then None else firstDependency (V x))" for x
    by (auto simp: link_object_def Let_def)
  have "a \<noteq> e_parent (ODA G ! i)" if "i < oda_used G" for i
  proof
    assume "a = e_parent (ODA G ! i)"
    moreover have "ODA G ! i \<in> set (edges G)"
      using that assms(1) by (auto simp: edges_def odg_wf_def in_set_conv_nth intro!: exI[of _ i])
    ultimately show False using assms(2) by (auto simp: degree_def filter_empty_conv)
  qed
  then show "odg_wf G ?V" using assms by (auto simp: odg_wf_def firsts_ok_def f)
  show "deps_view G ?V x = deps_view G V x" if "x \<noteq> a" for x using that by (simp add: deps_view_def f)
qed

lemma unlink_object_odg:
  assumes "\<And>x. (V' x)\<lparr>nextObject := 0, prevObject := 0\<rparr> = (V x)\<lparr>nextObject := 0, prevObject := 0\<rparr>"
  shows "odg_wf G V' = odg_wf G V" "deps_view G V' = deps_view G V"
    "objectSignature (V' x) = objectSignature (V x)" "oflags (V' x) = oflags (V x)" "objectData (V' x) = objectData (V x)"
proof -
  have f: "dependencies (V' x) = dependencies (V x) \<and> firstDependency (V' x) = firstDependency (V x)
    \<and> objectSignature (V' x) = objectSignature (V x) \<and> oflags (V' x) = oflags (V x) \<and> objectData (V' x) = objectData (V x)" for x
    using assms[of x] by (cases "V' x"; cases "V x") simp
  show "odg_wf G V' = odg_wf G V" "deps_view G V' = deps_view G V"
    by (simp_all add: odg_wf_def firsts_ok_def deps_view_def fun_eq_iff f)
  show "objectSignature (V' x) = objectSignature (V x)" "oflags (V' x) = oflags (V x)" "objectData (V' x) = objectData (V x)"
    using f by simp_all
qed

section \<open>Task states\<close>

text \<open>What \<open>CKpreProcessTaskState\<close> finds wrong with a loader's thread, before it asks for a stack.\<close>

definition task_error :: "addr \<Rightarrow> addr \<Rightarrow> 'a KERNEL_scheme \<Rightarrow> ckresult" where
  "task_error aspace object s =
     (let u = userState (uthreads s object) in
      if PHYS (addrSpc (addrspcs s aspace)) = 0 then Some ENOVIRTMEM
      else if tss_eip u = 0 \<or> tss_cs u = 0 \<or> tss_ds u = 0 \<or> tss_ss u = 0 then Some ESEGMENTATION
      else CK_OK)"

lemma set_thread_twice: "set_thread a g (set_thread a f s) = set_thread a (g \<circ> f) s"
  by simp

lemma CKpreProcessTaskState_ok:
  fixes s :: "'a KERNEL_scheme"
  assumes m: "CKmem_ok (ckmem s)"
  shows "\<exists>r s' x m. CKpreProcessTaskState object a s = Some (r, s') \<and> CKmem_ok m
    \<and> s' = (set_tss a (\<lambda>_. x) s)\<lparr>ckmem := m\<rparr>
    \<and> (let e = task_error (addressSpace (threads s a)) object s in
       if e \<noteq> CK_OK then r = e \<and> m = ckmem s
       else r = Some ENOMEM \<and> m = ckmem s
         \<or> r = CK_OK \<and> (\<exists>st. st \<noteq> NIL \<and> CKmemAlloc KSTACKSIZE (ckmem s) = Some (st, m)
              \<and> x = (userState (uthreads s object))\<lparr>tss_back := 0, tss_cr3 := PHYS (addrSpc (addrspcs s (addressSpace (threads s a)))),
                    tss_eflags := STDFLAGS, i387_used := 0, tss_ss0 := KDATA, tss_esp0 := st + KSTACKSIZE\<rparr>))"
proof -
  have n: "CKmem_sound KSTACKSIZE" by (simp add: CKmem_sound_def)
  obtain st m' where al: "CKmemAlloc KSTACKSIZE (ckmem s) = Some (st, m')" "CKmem_ok m'"
    using ck.alloc_returns[OF m n] by blast
  let ?u = "userState (uthreads s object)" and ?c = "PHYS (addrSpc (addrspcs s (addressSpace (threads s a))))"
  let ?e = "task_error (addressSpace (threads s a)) object s"
  have same: "s\<lparr>ckmem := ckmem s, threads := ev\<rparr> = s\<lparr>threads := ev\<rparr>" for ev by simp
  consider "?c = 0" | "?c \<noteq> 0" "tss_eip ?u = 0" | "?c \<noteq> 0" "tss_eip ?u \<noteq> 0" "tss_cs ?u = 0 \<or> tss_ds ?u = 0 \<or> tss_ss ?u = 0"
    | "?c \<noteq> 0" "tss_eip ?u \<noteq> 0" "tss_cs ?u \<noteq> 0" "tss_ds ?u \<noteq> 0" "tss_ss ?u \<noteq> 0" by blast
  then show ?thesis
  proof cases
    case 1
    then have "?e = Some ENOVIRTMEM" "CKpreProcessTaskState object a s
        = Some (Some ENOVIRTMEM, (set_tss a (\<lambda>_. ?u\<lparr>tss_back := 0, tss_cr3 := ?c\<rparr>) s)\<lparr>ckmem := ckmem s\<rparr>)"
      by (simp_all add: task_error_def CKpreProcessTaskState_def Let_def)
    then show ?thesis using m by fastforce
  next
    case 2
    then have "?e = Some ESEGMENTATION" "CKpreProcessTaskState object a s
        = Some (Some ESEGMENTATION, (set_tss a (\<lambda>_. ?u\<lparr>tss_back := 0, tss_cr3 := ?c\<rparr>) s)\<lparr>ckmem := ckmem s\<rparr>)"
      by (simp_all add: task_error_def CKpreProcessTaskState_def Let_def)
    then show ?thesis using m by fastforce
  next
    case 3
    then have "?e = Some ESEGMENTATION" "CKpreProcessTaskState object a s
        = Some (Some ESEGMENTATION, (set_tss a (\<lambda>_. ?u\<lparr>tss_back := 0, tss_cr3 := ?c, tss_eflags := STDFLAGS, i387_used := 0\<rparr>) s)
            \<lparr>ckmem := ckmem s\<rparr>)"
      by (simp_all add: task_error_def CKpreProcessTaskState_def Let_def)
    then show ?thesis using m by fastforce
  next
    case 4
    then have e: "?e = CK_OK" by (simp add: task_error_def)
    let ?x = "\<lambda>q. ?u\<lparr>tss_back := 0, tss_cr3 := ?c, tss_eflags := STDFLAGS, i387_used := 0, tss_ss0 := KDATA, tss_esp0 := q\<rparr>"
    have r: "CKpreProcessTaskState object a s = Some (if st = NIL then Some ENOMEM else CK_OK,
        (set_tss a (\<lambda>_. ?x (if st = NIL then 0 else st + KSTACKSIZE)) s)\<lparr>ckmem := m'\<rparr>)"
      using 4 al(1) by (simp add: CKpreProcessTaskState_def Let_def with_mem_def)
    show ?thesis
    proof (cases "st = NIL")
      case True
      then have "m' = ckmem s" using ck.alloc_fail[OF m n] al(1) by simp
      then show ?thesis using r True e al(2) by (simp add: Let_def) blast
    next
      case False
      then show ?thesis using r e al by (simp add: Let_def)
    qed
  qed
qed

section \<open>A new thread and the scheduler\<close>

lemma heap_wf_other:
  "heap_wf H ev \<Longrightarrow> a \<notin> set (events_of H) \<Longrightarrow> heap_wf H (ev(a := t))"
  unfolding heap_wf_def backptrs_def events_of_def by (auto simp: in_set_conv_nth)

lemma sched_inv_new:
  assumes i: "sched_inv s T" and a: "a \<notin> T" "a \<noteq> idleLoop s" "card T < MAXEVENTS"
    and s': "threads s' = (threads s)(a := t)" "ts t = ts_Blocked" "heaps s' = heaps s" "currtask s' = currtask s" "idleLoop s' = idleLoop s"
  shows "sched_inv s' (insert a T)"
proof -
  have w: "sched_wf s T" using i by (simp add: sched_inv_def)
  have na: "a \<notin> set (events_of (heaps s h))" for h using sched_wf_heap(2)[OF w] a(1) by simp
  have hw: "heap_wf (heaps s h) (threads s')" for h
    using sched_wf_heap(1)[OF w] na unfolding s'(1) by (rule heap_wf_other)
  have e: "set (events_of (heaps s h)) = {x \<in> insert a T. state_heap (ts (threads s' x)) = Some h}" for h
    using sched_wf_heap(2)[OF w] s'(1,2) a(1) by auto
  have "sched_wf s' (insert a T)"
    using w hw e a(1,3) s'(3) unfolding sched_wf_def sched_at_def heaps_ok_def by auto
  then show ?thesis using i a(2) s' by (auto simp: sched_inv_def runner_ok_def)
qed

section \<open>Dependencies of a new object\<close>

abbreviation parents :: "ODG \<Rightarrow> addr set" where
  "parents G \<equiv> e_parent ` set (edges G)"

lemma add_dep_ok:
  fixes s :: "'a SCHED_scheme"
  assumes "odg_wf (odg s) (headers s)" "oda_used (odg s) < MAXDEPS" "oda_before (odg s) \<notin> parents (odg s)"
  shows "\<exists>G V. on_graph (CKaddObjectDep p c) s = Some (s\<lparr>odg := G, headers := V\<rparr>) \<and> odg_wf G V
    \<and> same_but_deps (headers s) V \<and> oda_before G = oda_before (odg s) \<and> oda_used G = Suc (oda_used (odg s))
    \<and> parents G = insert p (parents (odg s))
    \<and> (\<forall>x. deps_view G V x = deps_view (odg s) (headers s) x @ (if x = p then [c] else []))"
proof -
  have b: "e_parent e \<noteq> oda_before (odg s)" if "e \<in> set (edges (odg s))" for e using assms(3) that by force
  obtain G V where r: "CKaddObjectDep p c (odg s, headers s) = Some (G, V)" "odg_wf G V" "same_but_deps (headers s) V"
    "edges G = filter (\<lambda>e. e_parent e \<le> p) (edges (odg s)) @ [\<lparr>e_parent = p, e_child = c\<rparr>]
                 @ filter (\<lambda>e. p < e_parent e) (edges (odg s))" "oda_before G = oda_before (odg s)"
    using CKaddObjectDep_ok[OF assms(1,2) b, of p c] by blast
  have u: "oda_used G = Suc (oda_used (odg s))"
    using r(1) assms(2) by (auto simp: CKaddObjectDep_def Let_def split: prod.splits)
  have "parents G = insert p (parents (odg s))" unfolding r(4) by (auto simp: not_less)
  moreover have "\<forall>x. deps_view G V x = deps_view (odg s) (headers s) x @ (if x = p then [c] else [])"
    using children_added[OF assms(1) r(4)] deps_view_children[OF assms(1)] deps_view_children[OF r(2)] by auto
  moreover have "on_graph (CKaddObjectDep p c) s = Some (s\<lparr>odg := G, headers := V\<rparr>)"
    using r(1) by (simp add: on_graph_def)
  ultimately show ?thesis using r(2,3,5) u by blast
qed

lemma add_parent_dep_ok:
  fixes s :: "'a SCHED_scheme"
  assumes "odg_wf (odg s) (headers s)" "oda_used (odg s) < MAXDEPS" "oda_before (odg s) \<notin> parents (odg s)"
  shows "\<exists>G V. add_parent_dep p c s = Some (s\<lparr>odg := G, headers := V\<rparr>) \<and> odg_wf G V
    \<and> same_but_deps (headers s) V \<and> oda_before G = oda_before (odg s) \<and> oda_used G \<le> Suc (oda_used (odg s))
    \<and> parents G \<subseteq> insert p (parents (odg s))
    \<and> (\<forall>x. deps_view G V x = deps_view (odg s) (headers s) x @ (if x = p \<and> p \<noteq> NIL then [c] else []))"
proof (cases "p = NIL")
  case True
  have "add_parent_dep p c s = Some (s\<lparr>odg := odg s, headers := headers s\<rparr>)" using True by (simp add: add_parent_dep_def)
  moreover have "\<forall>x. deps_view (odg s) (headers s) x = deps_view (odg s) (headers s) x @ (if x = p \<and> p \<noteq> NIL then [c] else [])"
    using True by simp
  moreover have "parents (odg s) \<subseteq> insert p (parents (odg s))" by blast
  moreover have "oda_used (odg s) \<le> Suc (oda_used (odg s))" by simp
  ultimately show ?thesis using assms(1) same_but_deps_refl by blast
next
  case False
  obtain G V where r: "on_graph (CKaddObjectDep p c) s = Some (s\<lparr>odg := G, headers := V\<rparr>)" "odg_wf G V"
    "same_but_deps (headers s) V" "oda_before G = oda_before (odg s)" "oda_used G = Suc (oda_used (odg s))"
    "parents G = insert p (parents (odg s))"
    "\<forall>x. deps_view G V x = deps_view (odg s) (headers s) x @ (if x = p then [c] else [])"
    using add_dep_ok[OF assms, of p c] by blast
  have "add_parent_dep p c s = Some (s\<lparr>odg := G, headers := V\<rparr>)" using r(1) False by (simp add: add_parent_dep_def)
  moreover have "\<forall>x. deps_view G V x = deps_view (odg s) (headers s) x @ (if x = p \<and> p \<noteq> NIL then [c] else [])"
    using r(7) False by simp
  ultimately show ?thesis using r(2-4) eq_imp_le[OF r(5)] equalityD1[OF r(6)] by blast
qed

lemma add_two_deps:
  fixes s :: "'a SCHED_scheme"
  assumes "odg_wf (odg s) (headers s)" "oda_used (odg s) + 2 \<le> MAXDEPS" "oda_before (odg s) \<notin> insert p (parents (odg s))"
  shows "\<exists>G1 V1 G V. on_graph (CKaddObjectDep p c) s = Some (s\<lparr>odg := G1, headers := V1\<rparr>)
    \<and> add_parent_dep q c (s\<lparr>odg := G1, headers := V1\<rparr>) = Some (s\<lparr>odg := G, headers := V\<rparr>) \<and> odg_wf G V
    \<and> same_but_deps (headers s) V \<and> oda_before G = oda_before (odg s) \<and> oda_used G \<le> oda_used (odg s) + 2
    \<and> parents G \<subseteq> insert p (insert q (parents (odg s)))
    \<and> (\<forall>x. deps_view G V x = deps_view (odg s) (headers s) x @ (if x = p then [c] else [])
         @ (if x = q \<and> q \<noteq> NIL then [c] else []))"
proof -
  obtain G1 V1 where 1: "on_graph (CKaddObjectDep p c) s = Some (s\<lparr>odg := G1, headers := V1\<rparr>)" "odg_wf G1 V1"
    "same_but_deps (headers s) V1" "oda_before G1 = oda_before (odg s)" "oda_used G1 = Suc (oda_used (odg s))"
    "parents G1 = insert p (parents (odg s))"
    "\<forall>x. deps_view G1 V1 x = deps_view (odg s) (headers s) x @ (if x = p then [c] else [])"
    using add_dep_ok[OF assms(1), of p c] assms(2,3) by auto
  let ?s = "s\<lparr>odg := G1, headers := V1\<rparr>"
  have 0: "odg_wf (odg ?s) (headers ?s)" "oda_used (odg ?s) < MAXDEPS" "oda_before (odg ?s) \<notin> parents (odg ?s)"
    using 1(2,4-6) assms(2,3) by auto
  obtain G V where 2: "add_parent_dep q c ?s = Some (?s\<lparr>odg := G, headers := V\<rparr>)" "odg_wf G V"
    "same_but_deps V1 V" "oda_before G = oda_before G1" "oda_used G \<le> Suc (oda_used G1)"
    "parents G \<subseteq> insert q (parents G1)"
    "\<forall>x. deps_view G V x = deps_view G1 V1 x @ (if x = q \<and> q \<noteq> NIL then [c] else [])"
    using add_parent_dep_ok[OF 0, of q c] by auto
  have e: "?s\<lparr>odg := G, headers := V\<rparr> = s\<lparr>odg := G, headers := V\<rparr>" by simp
  have "oda_before G = oda_before (odg s)" "oda_used G \<le> oda_used (odg s) + 2" using 1(4,5) 2(4,5) by simp_all
  moreover have "parents G \<subseteq> insert p (insert q (parents (odg s)))" using 1(6) 2(6) by blast
  moreover have "\<forall>x. deps_view G V x = deps_view (odg s) (headers s) x @ (if x = p then [c] else [])
         @ (if x = q \<and> q \<noteq> NIL then [c] else [])" unfolding 2(7)[rule_format] 1(7)[rule_format] by simp
  ultimately show ?thesis
    using 1(1) 2(1)[unfolded e] 2(2) same_but_deps_trans[OF 1(3) 2(3)] by blast
qed

section \<open>The invariant of the thread objects\<close>

text \<open>
  The scheduler's invariant for the threads \<open>T\<close>, the list \<open>xs\<close> of thread objects, a
  well-formed graph; and nothing the kernel still refers to lies in its free memory.
\<close>

definition om_inv :: "'a KERNEL_scheme \<Rightarrow> addr set \<Rightarrow> addr list \<Rightarrow> bool" where
  "om_inv s T xs \<longleftrightarrow> sched_inv s T \<and> CKmem_ok (ckmem s) \<and> odg_wf (odg s) (headers s)
     \<and> objects (headers s) (threadObjHead s) xs \<and> distinct xs \<and> oda_before (odg s) \<notin> parents (odg s)
     \<and> (\<forall>x \<in> T \<union> set xs \<union> {idleLoop s} \<union> parents (odg s). unat x \<notin> CKmem_avail (ckmem s))"

text \<open>What is wrong with a loader's thread, in the order it is checked.\<close>

definition thread_error :: "addr \<Rightarrow> u32 \<Rightarrow> 'a KERNEL_scheme \<Rightarrow> ckresult" where
  "thread_error object flags s =
     (let u = uthreads s object in
      if flags AND OFLOCKED \<noteq> 0 then Some ENOLOCKPERMS
      else if u_addressSpace u = NIL \<or> \<not> CKvalidAddrSpc (u_addressSpace u) s then Some ENOVALIDADDRSPC
      else if u_quantum u = 0 \<or> u_defer u = 0 then Some EINSCHEDPARMS
      else if bad_parent (u_parentKernel u) s then Some ENOVALIDKERNEL
      else CK_OK)"

lemma load_thread_error:
  "thread_error object flags s \<noteq> CK_OK \<Longrightarrow> CKloadThreadObject object sz flags s = Some (thread_error object flags s, s)"
proof -
  let ?u = "uthreads s object"
  assume e: "thread_error object flags s \<noteq> CK_OK"
  consider "flags AND OFLOCKED \<noteq> 0"
    | "flags AND OFLOCKED = 0" "u_addressSpace ?u = NIL \<or> \<not> CKvalidAddrSpc (u_addressSpace ?u) s"
    | "flags AND OFLOCKED = 0" "\<not> (u_addressSpace ?u = NIL \<or> \<not> CKvalidAddrSpc (u_addressSpace ?u) s)" "u_quantum ?u = 0 \<or> u_defer ?u = 0"
    | "flags AND OFLOCKED = 0" "\<not> (u_addressSpace ?u = NIL \<or> \<not> CKvalidAddrSpc (u_addressSpace ?u) s)"
      "\<not> (u_quantum ?u = 0 \<or> u_defer ?u = 0)" "bad_parent (u_parentKernel ?u) s"
    | "flags AND OFLOCKED = 0" "\<not> (u_addressSpace ?u = NIL \<or> \<not> CKvalidAddrSpc (u_addressSpace ?u) s)"
      "\<not> (u_quantum ?u = 0 \<or> u_defer ?u = 0)" "\<not> bad_parent (u_parentKernel ?u) s" by blast
  then show ?thesis
    using e by cases (simp_all add: thread_error_def CKloadThreadObject_def Let_def)
qed

text \<open>The state after the new thread has been entered, before its task state is prepared.\<close>

definition new_thread :: "addr \<Rightarrow> u32 \<Rightarrow> addr \<Rightarrow> 'a KERNEL_scheme \<Rightarrow> 'a KERNEL_scheme" where
  "new_thread object flags a s =
     (let u = uthreads s object; p = parent_for (u_parentKernel u) s;
          s2 = s\<lparr>headers := link_object SIGTHREAD flags object (threadObjHead s) a (headers s), threadObjHead := a\<rparr>;
          s3 = set_thread a (\<lambda>t. t\<lparr>parentKernel := p, addressSpace := u_addressSpace u, trap_res := NIL,
            dmachan_res := NIL, ioregion_res := NIL, quantum := u_quantum u, defer_time := u_defer u,
            ts := ts_Blocked, signals := []\<rparr>) s2
      in set_uthread object (\<lambda>x. x\<lparr>u_interruptable := (if p \<noteq> NIL then 0 else 1)\<rparr>) s3)"

lemma load_thread_entered:
  assumes "thread_error object flags s = CK_OK"
    and "CKmemAlloc sizeof_CKThreadObject (ckmem s) = Some (a, m)" "a \<noteq> NIL"
  shows "CKloadThreadObject object sz flags s = do {
     (err, s5) \<leftarrow> CKpreProcessTaskState object a (new_thread object flags a (s\<lparr>ckmem := m\<rparr>));
     if err \<noteq> CK_OK then map_option (\<lambda>s6. (err, s6)) (with_free a sizeof_CKThreadObject s5)
     else do {
       s6 \<leftarrow> on_graph (CKaddObjectDep (addressSpace (threads s5 a)) a) s5;
       s7 \<leftarrow> add_parent_dep (parentKernel (threads s6 a)) a s6;
       Some (CK_OK, set_uthread object (\<lambda>x. x\<lparr>u_self := a\<rparr>) s7)
     } }"
proof -
  have e: "\<not> flags AND OFLOCKED \<noteq> 0" "\<not> (u_addressSpace (uthreads s object) = NIL \<or> \<not> CKvalidAddrSpc (u_addressSpace (uthreads s object)) s)"
    "\<not> (u_quantum (uthreads s object) = 0 \<or> u_defer (uthreads s object) = 0)" "\<not> bad_parent (u_parentKernel (uthreads s object)) s"
    using assms(1) by (simp_all add: thread_error_def Let_def split: if_splits)
  show ?thesis
    unfolding CKloadThreadObject_def Let_def if_not_P[OF e(1)] if_not_P[OF e(2)] if_not_P[OF e(3)] if_not_P[OF e(4)]
    using assms(2,3) by (simp add: with_mem_def new_thread_def Let_def parent_for_def cong: if_cong)
qed

end
