(* ===== verification/CK_ThreadObjects.thy ===== *)
theory CK_ThreadObjects
  imports CK_Objmgmt
begin

text \<open>
  What loading and unloading a thread does to the whole kernel (\<^verbatim>\<open>CK/objmgmt.c\<close>): the
  invariant \<open>om_inv\<close> of scheduler, kernel memory, dependency graph and thread list, the ways
  a load can fail, and what is left behind when it does.
\<close>

section \<open>Loading a thread\<close>

lemma sched_inv_same:
  fixes s :: "'a SCHED_scheme" and s' :: "'b SCHED_scheme"
  assumes "threads s' = threads s" "heaps s' = heaps s" "currtask s' = currtask s" "idleLoop s' = idleLoop s"
  shows "sched_inv s' T = sched_inv s T"
  using assms by (simp add: sched_inv_def sched_wf_def sched_at_def runner_ok_def)

lemma om_inv_lock [simp]: "om_inv (s\<lparr>sysObjManLock := l\<rparr>) T xs = om_inv s T xs"
  using sched_inv_same[of "s\<lparr>sysObjManLock := l\<rparr>" s T] by (simp add: om_inv_def)

lemma thread_error_lock [simp]:
  "thread_error object flags (s\<lparr>sysObjManLock := l\<rparr>) = thread_error object flags s"
  "task_error p object (s\<lparr>sysObjManLock := l\<rparr>) = task_error p object s"
  by (simp_all add: thread_error_def task_error_def bad_parent_def CKvalidAddrSpc_def CKvalidKernel_def Let_def)

lemma new_thread_fields [simp]:
  "headers (new_thread object flags a s) = link_object SIGTHREAD flags object (threadObjHead s) a (headers s)"
  "threadObjHead (new_thread object flags a s) = a" "odg (new_thread object flags a s) = odg s"
  "ckmem (new_thread object flags a s) = ckmem s" "heaps (new_thread object flags a s) = heaps s"
  "currtask (new_thread object flags a s) = currtask s" "idleLoop (new_thread object flags a s) = idleLoop s"
  "addrspcs (new_thread object flags a s) = addrspcs s"
  "sysObjManLock (new_thread object flags a s) = sysObjManLock s"
  "x \<noteq> a \<Longrightarrow> threads (new_thread object flags a s) x = threads s x"
  "threads (new_thread object flags a s) a = (threads s a)\<lparr>parentKernel := parent_for (u_parentKernel (uthreads s object)) s,
     addressSpace := u_addressSpace (uthreads s object), trap_res := NIL, dmachan_res := NIL, ioregion_res := NIL,
     quantum := u_quantum (uthreads s object), defer_time := u_defer (uthreads s object), ts := ts_Blocked, signals := []\<rparr>"
  "userState (uthreads (new_thread object flags a s) object) = userState (uthreads s object)"
  by (simp_all add: new_thread_def Let_def)

lemma new_thread_error [simp]:
  "task_error p object (new_thread object flags a s) = task_error p object s"
  by (simp add: task_error_def Let_def)

text \<open>A block just given out is not one of the things the kernel refers to.\<close>

lemma new_block:
  assumes i: "om_inv s T xs" and n: "CKmem_sound n" and al: "CKmemAlloc n (ckmem s) = Some (a, m)" "a \<noteq> NIL"
  shows "unat a \<in> CKmem_avail (ckmem s)" "unat a \<notin> CKmem_avail m" "CKmem_ok m"
    "a \<notin> T" "a \<notin> set xs" "a \<noteq> idleLoop s" "a \<notin> parents (odg s)" "CKmem_avail m \<subseteq> CKmem_avail (ckmem s)"
proof -
  have m: "CKmem_ok (ckmem s)" using i by (simp add: om_inv_def)
  have b: "unat a \<in> bytes a (AdjustSize n)" using AdjustSize_pos[OF n] by (simp add: bytes_def word_less_nat_alt)
  show a: "unat a \<in> CKmem_avail (ckmem s)" "unat a \<notin> CKmem_avail m" "CKmem_avail m \<subseteq> CKmem_avail (ckmem s)"
    using ck.alloc_block[OF m n al] b by blast+
  show "CKmem_ok m" using ck.alloc_ok[OF m n al(1)] .
  show "a \<notin> T" "a \<notin> set xs" "a \<noteq> idleLoop s" "a \<notin> parents (odg s)" using i a(1) by (auto simp: om_inv_def)
qed

lemma parent_for_fields [simp]:
  "parent_for p (s\<lparr>ckmem := m\<rparr>) = parent_for p s" "parent_for p (s'\<lparr>sysObjManLock := l\<rparr>) = parent_for p s'"
  by (simp_all add: parent_for_def)

lemma no_edges: "a \<notin> parents G \<Longrightarrow> degree (edges G) a = 0"
  by (force simp: degree_def filter_empty_conv)


text \<open>A header that still names the same object of the same kind.\<close>

definition same_identity :: "ObjectHeader \<Rightarrow> ObjectHeader \<Rightarrow> bool" where
  "same_identity v w \<longleftrightarrow> objectSignature w = objectSignature v \<and> oflags w = oflags v \<and> objectData w = objectData v"

lemma link_object_others: "x \<noteq> a \<Longrightarrow> same_identity (V x) (link_object sig flags data head a V x)"
  by (simp add: link_object_def Let_def same_identity_def)

lemma load_thread_full:
  assumes "thread_error object flags s = CK_OK" and "CKmemAlloc sizeof_CKThreadObject (ckmem s) = Some (NIL, ckmem s)"
  shows "CKloadThreadObject object sz flags s = Some (Some ENOMEM, s)"
proof -
  have e: "\<not> flags AND OFLOCKED \<noteq> 0" "\<not> (u_addressSpace (uthreads s object) = NIL \<or> \<not> CKvalidAddrSpc (u_addressSpace (uthreads s object)) s)"
    "\<not> (u_quantum (uthreads s object) = 0 \<or> u_defer (uthreads s object) = 0)" "\<not> bad_parent (u_parentKernel (uthreads s object)) s"
    using assms(1) by (simp_all add: thread_error_def Let_def split: if_splits)
  show ?thesis
    unfolding CKloadThreadObject_def Let_def if_not_P[OF e(1)] if_not_P[OF e(2)] if_not_P[OF e(3)] if_not_P[OF e(4)]
    using assms(2) by (simp add: with_mem_def)
qed

text \<open>A task state that is refused, or no stack: the header is given back.\<close>

lemma load_thread_fails:
  fixes s :: "'a KERNEL_scheme"
  assumes i: "om_inv s T xs" and ok: "thread_error object flags s = CK_OK"
    and al: "CKmemAlloc sizeof_CKThreadObject (ckmem s) = Some (a, m1)" "a \<noteq> NIL"
    and pre: "CKpreProcessTaskState object a (new_thread object flags a (s\<lparr>ckmem := m1\<rparr>)) = Some (err, s5)" "err \<noteq> CK_OK"
    and s5: "s5 = set_tss a (\<lambda>_. x) (new_thread object flags a (s\<lparr>ckmem := m1\<rparr>))"
  shows "\<exists>m'. CKloadThreadObject object sz flags s = Some (err, s5\<lparr>ckmem := m'\<rparr>) \<and> CKmem_ok m'
    \<and> CKmem_avail m' = CKmem_avail (ckmem s)"
proof -
  have m: "CKmem_ok (ckmem s)" using i by (simp add: om_inv_def)
  have n: "CKmem_sound sizeof_CKThreadObject" by (simp add: CKmem_sound_def sizeof_CKThreadObject_def)
  obtain m' where f: "CKmemFree a sizeof_CKThreadObject m1 = Some m'" "CKmem_ok m'" "CKmem_avail m' = CKmem_avail (ckmem s)"
    using ck.alloc_free[OF m n al] by blast
  have c: "ckmem s5 = m1" unfolding s5 by simp
  have "with_free a sizeof_CKThreadObject s5 = Some (s5\<lparr>ckmem := m'\<rparr>)" using f(1) c by (simp add: with_free_def)
  then have "CKloadThreadObject object sz flags s = Some (err, s5\<lparr>ckmem := m'\<rparr>)"
    unfolding load_thread_entered[OF ok al] pre(1) using pre(2) by simp
  then show ?thesis using f(2,3) by blast
qed

text \<open>The two blocks a thread owns, and that nothing else the kernel refers to lies in them.\<close>

definition thread_stack :: "addr \<Rightarrow> 'a SCHED_scheme \<Rightarrow> addr" where
  "thread_stack a s = tss_esp0 (taskState (threads s a)) - KSTACKSIZE"

definition own_blocks :: "addr \<Rightarrow> addr set \<Rightarrow> 'a SCHED_scheme \<Rightarrow> bool" where
  "own_blocks a X s \<longleftrightarrow> (let st = thread_stack a s; B = bytes st KSTACKSIZE; C = bytes a sizeof_CKThreadObject in
     a \<noteq> NIL \<and> st \<noteq> NIL \<and> unat st + unat KSTACKSIZE \<le> 2 ^ 32 \<and> unat a + unat sizeof_CKThreadObject \<le> 2 ^ 32
     \<and> B \<inter> C = {} \<and> (B \<union> C) \<inter> CKmem_avail (ckmem s) = {} \<and> (\<forall>x \<in> X. unat x \<notin> B \<union> C))"

lemma adjusted: "AdjustSize KSTACKSIZE = KSTACKSIZE" "AdjustSize sizeof_CKThreadObject = sizeof_CKThreadObject"
  by (simp_all add: AdjustSize_def sizeof_CKThreadObject_def)

text \<open>What holds of the kernel once the thread is in.\<close>

definition thread_in :: "'a KERNEL_scheme \<Rightarrow> addr \<Rightarrow> u32 \<Rightarrow> addr \<Rightarrow> addr set \<Rightarrow> addr list \<Rightarrow> 'a KERNEL_scheme \<Rightarrow> bool" where
  "thread_in s object flags a T xs s' \<longleftrightarrow> om_inv s' (insert a T) (a # xs) \<and> a \<notin> parents (odg s')
     \<and> own_blocks a (T \<union> set xs \<union> {idleLoop s'} \<union> parents (odg s')) s'
     \<and> CKmem_avail (ckmem s) = CKmem_avail (ckmem s') \<union> (bytes (thread_stack a s') KSTACKSIZE \<union> bytes a sizeof_CKThreadObject)
     \<and> currtask s' = currtask s \<and> idleLoop s' = idleLoop s \<and> threadObjHead s' = a
     \<and> (\<forall>x. x \<noteq> a \<longrightarrow> same_identity (headers s x) (headers s' x))
     \<and> parents (odg s') \<subseteq> insert (u_addressSpace (uthreads s object)) (insert (parent_for (u_parentKernel (uthreads s object)) s) (parents (odg s)))
     \<and> (let u = uthreads s object; p = parent_for (u_parentKernel u) s; t = threads s' a; v = headers s' a in
        ts t = ts_Blocked \<and> addressSpace t = u_addressSpace u \<and> parentKernel t = p \<and> quantum t = u_quantum u
        \<and> defer_time t = u_defer u \<and> signals t = [] \<and> tss_eip (taskState t) = tss_eip (userState u)
        \<and> tss_cr3 (taskState t) = PHYS (addrSpc (addrspcs s (u_addressSpace u)))
        \<and> tss_esp0 (taskState t) - KSTACKSIZE \<noteq> NIL \<and> tss_eflags (taskState t) = STDFLAGS
        \<and> objectSignature v = SIGTHREAD \<and> oflags v = flags \<and> objectData v = object \<and> u_self (uthreads s' object) = a
        \<and> (\<forall>x. x \<noteq> a \<longrightarrow> threads s' x = threads s x)
        \<and> (\<forall>x. x \<noteq> a \<longrightarrow> deps_view (odg s') (headers s') x = deps_view (odg s) (headers s) x
             @ (if x = u_addressSpace u then [a] else []) @ (if x = p \<and> p \<noteq> NIL then [a] else [])))"

lemma thread_in_avail:
  assumes "thread_in s object flags a T xs s'"
  shows "unat a \<in> CKmem_avail (ckmem s)"
proof -
  have "unat a \<in> bytes a sizeof_CKThreadObject" by (simp add: bytes_def sizeof_CKThreadObject_def)
  moreover have "bytes a sizeof_CKThreadObject \<subseteq> CKmem_avail (ckmem s)" using assms unfolding thread_in_def by blast
  ultimately show ?thesis by blast
qed

lemma thread_in_lock [simp]:
  "thread_in (s\<lparr>sysObjManLock := l\<rparr>) object flags a T xs s' = thread_in s object flags a T xs s'"
  "thread_in s object flags a T xs (s'\<lparr>sysObjManLock := l\<rparr>) = thread_in s object flags a T xs s'"
  by (simp_all add: thread_in_def Let_def own_blocks_def thread_stack_def)


lemma objects_same_but_deps: "same_but_deps V W \<Longrightarrow> objects W head xs = objects V head xs"
  using same_but_deps_fields(4,5)[of V W] by simp

lemma link_new:
  assumes "om_inv s T xs" "a \<notin> set xs" "a \<noteq> NIL"
  shows "objects (link_object sig flags data (threadObjHead s) a (headers s)) a (a # xs)"
  by (rule link_object_ok[OF _ _ assms(2,3)]) (use assms(1) in \<open>simp_all add: om_inv_def\<close>)

lemma link_object_new:
  assumes "a \<noteq> head \<or> head = NIL"
  shows "objectSignature (link_object sig flags data head a V a) = sig" "oflags (link_object sig flags data head a V a) = flags"
    "objectData (link_object sig flags data head a V a) = data"
  using assms by (auto simp: link_object_def Let_def)

lemma load_thread_enters:
  fixes s :: "'a KERNEL_scheme"
  assumes i: "om_inv s T xs" and ok: "thread_error object flags s = CK_OK"
    and room: "card T < MAXEVENTS" "oda_used (odg s) + 2 \<le> MAXDEPS"
    and u: "u_addressSpace (uthreads s object) = as" "parent_for (u_parentKernel (uthreads s object)) s = p"
    and live: "unat as \<notin> CKmem_avail (ckmem s)" "unat p \<notin> CKmem_avail (ckmem s)" "oda_before (odg s) \<notin> {as, p}"
    and al: "CKmemAlloc sizeof_CKThreadObject (ckmem s) = Some (a, m1)" "a \<noteq> NIL"
    and pre: "CKpreProcessTaskState object a (new_thread object flags a (s\<lparr>ckmem := m1\<rparr>)) = Some (CK_OK, s5)"
    and s5: "s5 = (set_tss a (\<lambda>_. x) (new_thread object flags a (s\<lparr>ckmem := m1\<rparr>)))\<lparr>ckmem := m\<rparr>"
    and st: "st \<noteq> NIL" "CKmemAlloc KSTACKSIZE m1 = Some (st, m)"
    and x: "x = (userState (uthreads s object))\<lparr>tss_back := 0, tss_cr3 := PHYS (addrSpc (addrspcs s as)),
          tss_eflags := STDFLAGS, i387_used := 0, tss_ss0 := KDATA, tss_esp0 := st + KSTACKSIZE\<rparr>"
  shows "\<exists>s'. CKloadThreadObject object sz flags s = Some (CK_OK, s') \<and> thread_in s object flags a T xs s'"
proof -
  have n: "CKmem_sound sizeof_CKThreadObject" "CKmem_sound KSTACKSIZE"
    by (simp_all add: CKmem_sound_def sizeof_CKThreadObject_def)
  note nb = new_block[OF i n(1) al]
  let ?B = "bytes st KSTACKSIZE" and ?C = "bytes a sizeof_CKThreadObject"
  have mo: "CKmem_ok (ckmem s)" using i by (simp add: om_inv_def)
  have bl: "?C \<subseteq> CKmem_avail (ckmem s)" "CKmem_avail m1 = CKmem_avail (ckmem s) - ?C" "unat a + unat sizeof_CKThreadObject \<le> 2 ^ 32"
      "?B \<subseteq> CKmem_avail m1" "CKmem_avail m = CKmem_avail m1 - ?B" "unat st + unat KSTACKSIZE \<le> 2 ^ 32"
    using ck.alloc_block[OF mo n(1) al] ck.alloc_block[OF nb(3) n(2) st(2,1)] unfolding adjusted by blast+
  have live1: "\<forall>x \<in> {as, p} \<union> T \<union> set xs \<union> {idleLoop s} \<union> parents (odg s). unat x \<notin> CKmem_avail (ckmem s)"
    using i live(1,2) unfolding om_inv_def by blast
  have ac: "unat a \<in> ?C" by (simp add: bytes_def sizeof_CKThreadObject_def)
  have m: "CKmem_ok m" "CKmem_avail m \<subseteq> CKmem_avail m1"
    using ck.alloc_ok[OF nb(3) n(2) st(2)] ck.alloc_block[OF nb(3) n(2) st(2,1)] by auto
  define V0 where "V0 = link_object SIGTHREAD flags object (threadObjHead s) a (headers s)"
  have o: "objects V0 a (a # xs)"
    unfolding V0_def by (rule link_new[OF i nb(5) al(2)])
  have h: "a \<noteq> threadObjHead s \<or> threadObjHead s = NIL"
    using i nb(5) dseg_first by (cases xs) (fastforce simp: om_inv_def)+
  note dv = link_object_odg[OF _ no_edges[OF nb(7)]]
  have w: "odg_wf (odg s) V0" "\<And>y. y \<noteq> a \<Longrightarrow> deps_view (odg s) V0 y = deps_view (odg s) (headers s) y"
    unfolding V0_def using dv i by (auto simp: om_inv_def)
  have f5: "odg s5 = odg s" "headers s5 = V0" "threadObjHead s5 = a" "ckmem s5 = m" "heaps s5 = heaps s"
      "currtask s5 = currtask s" "idleLoop s5 = idleLoop s" "addressSpace (threads s5 a) = as" "parentKernel (threads s5 a) = p"
    by (simp_all add: s5 V0_def u)
  have ob: "oda_before (odg s) \<notin> insert as (parents (odg s))" using live(3) i by (simp add: om_inv_def)
  obtain G1 V1 G V where d: "on_graph (CKaddObjectDep as a) s5 = Some (s5\<lparr>odg := G1, headers := V1\<rparr>)"
      "add_parent_dep p a (s5\<lparr>odg := G1, headers := V1\<rparr>) = Some (s5\<lparr>odg := G, headers := V\<rparr>)"
      "odg_wf G V" "same_but_deps V0 V" "oda_before G = oda_before (odg s)"
      "parents G \<subseteq> insert as (insert p (parents (odg s)))"
      "\<forall>x. deps_view G V x = deps_view (odg s) V0 x @ (if x = as then [a] else []) @ (if x = p \<and> p \<noteq> NIL then [a] else [])"
    using add_two_deps[of s5 as a p, unfolded f5, OF w(1) room(2)] ob by blast
  let ?s = "set_uthread object (\<lambda>x. x\<lparr>u_self := a\<rparr>) (s5\<lparr>odg := G, headers := V\<rparr>)"
  have r: "CKloadThreadObject object sz flags s = Some (CK_OK, ?s)"
    unfolding load_thread_entered[OF ok al] pre using d(1,2) f5(8,9) by simp
  have "sched_inv ?s (insert a T)"
    by (rule sched_inv_new[OF _ nb(4,6) room(1), where t = "threads s5 a"]) (use i in \<open>simp_all add: om_inv_def s5 fun_eq_iff\<close>)
  moreover have "objects V a (a # xs)" using o unfolding objects_same_but_deps[OF d(4)] .
  moreover have live2: "\<forall>x \<in> insert a T \<union> set (a # xs) \<union> {idleLoop s} \<union> parents G. unat x \<notin> CKmem_avail m"
    using live1 bl d(6) ac by auto
  moreover have "oda_before G \<notin> parents G" using i live(3) d(5,6) by (auto simp: om_inv_def)
  ultimately have inv: "om_inv ?s (insert a T) (a # xs)"
    using m(1) d(3) i nb(5) f5 by (simp add: om_inv_def)
  have "objectSignature (V a) = SIGTHREAD" "oflags (V a) = flags" "objectData (V a) = object"
    using link_object_new[OF h] unfolding same_but_deps_fields(1-3)[OF d(4)] V0_def by simp_all
  note va = this
  have others: "same_identity (headers s x) (V x)" if "x \<noteq> a" for x
    using link_object_others[OF that, of "headers s" SIGTHREAD flags object "threadObjHead s"] same_but_deps_fields(1-3)[OF d(4)]
    by (simp add: same_identity_def V0_def)
  have ts: "thread_stack a ?s = st" "ckmem ?s = m" by (simp_all add: thread_stack_def s5 x)
  have X: "unat y \<notin> CKmem_avail (ckmem s)" if "y \<in> T \<union> set xs \<union> {idleLoop s} \<union> parents G" for y
    using live1 d(6) that by blast
  have "own_blocks a (T \<union> set xs \<union> {idleLoop s} \<union> parents G) ?s"
    unfolding own_blocks_def Let_def ts using al(2) st(1) bl X by blast
  moreover have "a \<notin> parents G" using X nb(1) by blast
  moreover have "CKmem_avail (ckmem s) = CKmem_avail m \<union> (?B \<union> ?C)" using bl by blast
  ultimately show ?thesis unfolding r using inv d(6,7) w(2) st(1) va f5 ts others
    by (simp add: thread_in_def Let_def u s5 x)
qed

text \<open>The head of the list is a header in free memory.\<close>

definition dangling :: "'a KERNEL_scheme \<Rightarrow> addr list \<Rightarrow> 'a KERNEL_scheme \<Rightarrow> bool" where
  "dangling s xs s' \<longleftrightarrow> objects (headers s') (threadObjHead s') (threadObjHead s' # xs)
     \<and> unat (threadObjHead s') \<in> CKmem_avail (ckmem s') \<and> CKmem_avail (ckmem s') = CKmem_avail (ckmem s)"

lemma danglingI:
  "objects (headers s') a (a # xs) \<Longrightarrow> threadObjHead s' = a \<Longrightarrow> unat a \<in> CKmem_avail (ckmem s')
    \<Longrightarrow> CKmem_avail (ckmem s') = CKmem_avail (ckmem s) \<Longrightarrow> dangling s xs s'"
  by (simp add: dangling_def)

lemma load_thread_cases:
  fixes s :: "'a KERNEL_scheme"
  assumes i: "om_inv s T xs" and ok: "thread_error object flags s = CK_OK"
    and room: "card T < MAXEVENTS" "oda_used (odg s) + 2 \<le> MAXDEPS"
    and u: "u_addressSpace (uthreads s object) = as" "parent_for (u_parentKernel (uthreads s object)) s = p"
    and live: "unat as \<notin> CKmem_avail (ckmem s)" "unat p \<notin> CKmem_avail (ckmem s)" "oda_before (odg s) \<notin> {as, p}"
  defines "e \<equiv> task_error as object s"
  shows "\<exists>r s'. CKloadThreadObject object sz flags s = Some (r, s')
    \<and> (r = Some ENOMEM \<and> s' = s
       \<or> r = (if e = CK_OK then Some ENOMEM else e) \<and> dangling s xs s'
       \<or> r = CK_OK \<and> e = CK_OK \<and> (\<exists>a. a \<noteq> NIL \<and> a \<notin> T \<and> thread_in s object flags a T xs s'))"
proof -
  have n: "CKmem_sound sizeof_CKThreadObject" by (simp add: CKmem_sound_def sizeof_CKThreadObject_def)
  have mo: "CKmem_ok (ckmem s)" using i by (simp add: om_inv_def)
  obtain a m1 where al: "CKmemAlloc sizeof_CKThreadObject (ckmem s) = Some (a, m1)" using ck.alloc_returns[OF mo n] by blast
  let ?n = "new_thread object flags a (s\<lparr>ckmem := m1\<rparr>)"
  show ?thesis
  proof (cases "a = NIL")
    case True
    have "CKloadThreadObject object sz flags s = Some (Some ENOMEM, s)" using load_thread_full[OF ok] al ck.alloc_fail[OF mo n] True by blast
    then show ?thesis by blast
  next
    case False
    note nb = new_block[OF i n al False]
    obtain err s5 x m where pre: "CKpreProcessTaskState object a ?n = Some (err, s5)" "s5 = (set_tss a (\<lambda>_. x) ?n)\<lparr>ckmem := m\<rparr>"
      and c: "let e = task_error (addressSpace (threads ?n a)) object ?n in
       if e \<noteq> CK_OK then err = e \<and> m = ckmem ?n
       else err = Some ENOMEM \<and> m = ckmem ?n
         \<or> err = CK_OK \<and> (\<exists>st. st \<noteq> NIL \<and> CKmemAlloc KSTACKSIZE (ckmem ?n) = Some (st, m)
              \<and> x = (userState (uthreads ?n object))\<lparr>tss_back := 0, tss_cr3 := PHYS (addrSpc (addrspcs ?n (addressSpace (threads ?n a)))),
                    tss_eflags := STDFLAGS, i387_used := 0, tss_ss0 := KDATA, tss_esp0 := st + KSTACKSIZE\<rparr>)"
      using CKpreProcessTaskState_ok[of ?n object a] nb(3) by auto
    have e: "task_error (addressSpace (threads ?n a)) object ?n = e" by (simp add: e_def u task_error_def)
    show ?thesis
    proof (cases "err = CK_OK")
      case bad: False
      have em: "err = (if e = CK_OK then Some ENOMEM else e)" "m = m1"
        using c bad unfolding e by (auto simp: Let_def split: if_splits)
      have s5: "s5 = set_tss a (\<lambda>_. x) ?n" unfolding pre(2) em(2) by (simp add: new_thread_def Let_def)
      obtain m' where r: "CKloadThreadObject object sz flags s = Some (err, s5\<lparr>ckmem := m'\<rparr>)" "CKmem_avail m' = CKmem_avail (ckmem s)"
        using load_thread_fails[OF i ok al False pre(1) bad s5] by blast
      have "headers s5 = link_object SIGTHREAD flags object (threadObjHead s) a (headers s)" by (simp add: s5)
      then have "objects (headers s5) a (a # xs)" using link_new[OF i nb(5) False] by simp
      moreover have "threadObjHead s5 = a" by (simp add: s5)
      ultimately have "dangling s xs (s5\<lparr>ckmem := m'\<rparr>)"
        by (intro danglingI) (use r(2) nb(1) in simp_all)
      then show ?thesis using r(1) em(1) by blast
    next
      case True
      then obtain st where st: "st \<noteq> NIL" "CKmemAlloc KSTACKSIZE m1 = Some (st, m)" "e = CK_OK"
        "x = (userState (uthreads s object))\<lparr>tss_back := 0, tss_cr3 := PHYS (addrSpc (addrspcs s as)),
          tss_eflags := STDFLAGS, i387_used := 0, tss_ss0 := KDATA, tss_esp0 := st + KSTACKSIZE\<rparr>"
        using c unfolding e by (auto simp: Let_def u split: if_splits)
      show ?thesis
        using load_thread_enters[OF i ok room u live al False pre(1)[unfolded True] pre(2) st(1,2,4)] st(3) nb(4) False by blast
    qed
  qed
qed


section \<open>A small system with an address space\<close>

text \<open>The threads 1 and 2 of \<open>small_kernel\<close>, an address space at 0x500, two free pages.\<close>

definition om_kernel :: KERNEL where
  "om_kernel = small_kernel\<lparr>ckmem := \<lparr>CKFreeListLock = 0, CKFreeList = one_block 0x10000 0x4000\<rparr>,
     headers := (\<lambda>a. no_header\<lparr>objectSignature := (if a = 1 \<or> a = 2 then SIGTHREAD else if a = 0x500 then SIGADDRSPC else 0),
       prevObject := (if a = 2 then 1 else 0), nextObject := (if a = 1 then 2 else 0)\<rparr>),
     odg := empty_odg\<lparr>oda_before := 7\<rparr>, threadObjHead := 2,
     addrspcs := (\<lambda>_. \<lparr>a_parentKernel = 0, addrSpc = 0xC0005000\<rparr>),
     uthreads := (\<lambda>_. \<lparr>u_self = 0, u_addressSpace = 0x500, u_parentKernel = 0, u_quantum = 10, u_defer = 20,
       u_time = 0, u_realtime = 0, u_interruptable = 0,
       userState = no_TSS\<lparr>tss_eip := 0x40000, tss_cs := 0x1b, tss_ds := 0x23, tss_ss := 0x23\<rparr>\<rparr>)\<rparr>"

lemma om_kernel_mem:
  "CKmem_ok (ckmem om_kernel)" "CKmem_avail (ckmem om_kernel) = {0x10000..<0x14000}"
proof -
  have i: "fl_inv (CKFreeList (ckmem om_kernel)) [0x10000]" unfolding om_kernel_def by simp (rule one_block_inv; simp)
  then show "CKmem_ok (ckmem om_kernel)" by (auto simp: CKmem_ok_def om_kernel_def)
  show "CKmem_avail (ckmem om_kernel) = {0x10000..<0x14000}"
    unfolding CKmem_avail[OF i] by (simp add: om_kernel_def bytes_def)
qed

lemma om_kernel_inv: "om_inv om_kernel {1, 2} [2, 1]"
proof -
  have "sched_inv om_kernel {1, 2}"
    using small_kernel_inv sched_inv_same[of om_kernel small_kernel "{1, 2}"] by (simp add: om_kernel_def)
  moreover have "odg_wf (odg om_kernel) (headers om_kernel)" "parents (odg om_kernel) = {}"
    by (simp_all add: om_kernel_def odg_wf_def empty_odg_def oda_sorted_def firsts_ok_def degree_def edges_def no_header_def)
  moreover have "objects (headers om_kernel) (threadObjHead om_kernel) [2, 1]" by (simp add: om_kernel_def no_header_def)
  ultimately show ?thesis using om_kernel_mem by (simp add: om_inv_def) (simp add: om_kernel_def)
qed

lemma om_kernel_alloc:
  "\<exists>m1 m2. CKmemAlloc sizeof_CKThreadObject (ckmem om_kernel) = Some (0x10000, m1) \<and> CKmemAlloc KSTACKSIZE m1 = Some (0x10128, m2)"
proof -
  have u: "[Suc 0..<8] = [1, 2, 3, 4, 5, 6, 7]" by (simp add: upt_rec)
  show ?thesis
    by (simp add: CKmemAlloc_def om_kernel_def one_block_def no_entry_def KLfreeListMemAlloc_def AdjustSize_def
      alloc_pass_def KLgetFastLookupToUse_def alloc_scan.simps u take_best_def Let_def nth_upd sizeof_CKThreadObject_def
      KLfreeListRemove_def KLfreeListSizeRemove_def KLfreeListInsert_def KLfreeListSizeInsert_def)
qed

lemma om_kernel_checks:
  "sysObjManLock om_kernel = 0" "thread_error 0x900 0 om_kernel = CK_OK" "u_addressSpace (uthreads om_kernel 0x900) = 0x500"
  "parent_for (u_parentKernel (uthreads om_kernel 0x900)) om_kernel = 0" "oda_before (odg om_kernel) = 7"
  "oda_used (odg om_kernel) = 0" "task_error 0x500 0x900 om_kernel = CK_OK"
  by (simp_all add: om_kernel_def thread_error_def OFLOCKED_def CKvalidAddrSpc_def bad_parent_def no_header_def
    parent_for_def empty_odg_def task_error_def PHYS_def)

section \<open>Unloading a thread\<close>

lemma remove_dep_ok:
  fixes s :: "'a SCHED_scheme"
  assumes "odg_wf (odg s) (headers s)"
  shows "\<exists>G V. on_graph (CKremoveDepSearch p c) s = Some (s\<lparr>odg := G, headers := V\<rparr>) \<and> odg_wf G V
    \<and> same_but_deps (headers s) V \<and> oda_before G = oda_before (odg s) \<and> parents G \<subseteq> parents (odg s)
    \<and> (\<forall>x. deps_view G V x = (if x = p then remove1 c else id) (deps_view (odg s) (headers s) x))"
proof -
  obtain G V where r: "CKremoveDepSearch p c (odg s, headers s) = Some (G, V)" "odg_wf G V" "same_but_deps (headers s) V"
    "children G p = remove1 c (children (odg s) p)" "\<forall>x. x \<noteq> p \<longrightarrow> children G x = children (odg s) x"
    "mset (edges G) = mset (edges (odg s)) - {#\<lparr>e_parent = p, e_child = c\<rparr>#}" "oda_before G = oda_before (odg s)"
    using CKremoveDepSearch_ok[OF assms, of p c] by blast
  have "mset (edges G) \<subseteq># mset (edges (odg s))" unfolding r(6) by simp
  then have "parents G \<subseteq> parents (odg s)" using set_mset_mono by fastforce
  moreover have "\<forall>x. deps_view G V x = (if x = p then remove1 c else id) (deps_view (odg s) (headers s) x)"
    using r(4,5) by (simp add: deps_view_children[OF assms] deps_view_children[OF r(2)])
  moreover have "on_graph (CKremoveDepSearch p c) s = Some (s\<lparr>odg := G, headers := V\<rparr>)"
    using r(1) by (simp add: on_graph_def)
  ultimately show ?thesis using r(2,3,7) by blast
qed

lemma remove_two_deps:
  fixes s :: "'a SCHED_scheme"
  assumes "odg_wf (odg s) (headers s)"
  shows "\<exists>G1 V1 G V. on_graph (CKremoveDepSearch p c) s = Some (s\<lparr>odg := G1, headers := V1\<rparr>)
    \<and> remove_parent_dep q c (s\<lparr>odg := G1, headers := V1\<rparr>) = Some (s\<lparr>odg := G, headers := V\<rparr>) \<and> odg_wf G V
    \<and> same_but_deps (headers s) V \<and> oda_before G = oda_before (odg s) \<and> parents G \<subseteq> parents (odg s)
    \<and> (\<forall>x. deps_view G V x = (if x = q \<and> q \<noteq> NIL then remove1 c else id)
         ((if x = p then remove1 c else id) (deps_view (odg s) (headers s) x)))"
proof -
  obtain G1 V1 where 1: "on_graph (CKremoveDepSearch p c) s = Some (s\<lparr>odg := G1, headers := V1\<rparr>)" "odg_wf G1 V1"
    "same_but_deps (headers s) V1" "oda_before G1 = oda_before (odg s)" "parents G1 \<subseteq> parents (odg s)"
    "\<forall>x. deps_view G1 V1 x = (if x = p then remove1 c else id) (deps_view (odg s) (headers s) x)"
    using remove_dep_ok[OF assms, of p c] by blast
  let ?s = "s\<lparr>odg := G1, headers := V1\<rparr>"
  show ?thesis
  proof (cases "q = NIL")
    case True
    then have "remove_parent_dep q c ?s = Some ?s" by (simp add: remove_parent_dep_def)
    moreover have "\<forall>x. deps_view G1 V1 x = (if x = q \<and> q \<noteq> NIL then remove1 c else id)
         ((if x = p then remove1 c else id) (deps_view (odg s) (headers s) x))" using True 1(6) by simp
    ultimately show ?thesis using 1(1-5) by blast
  next
    case False
    have w: "odg_wf (odg ?s) (headers ?s)" using 1(2) by simp
    obtain G V where 2: "on_graph (CKremoveDepSearch q c) ?s = Some (?s\<lparr>odg := G, headers := V\<rparr>)" "odg_wf G V"
      "same_but_deps (headers ?s) V" "oda_before G = oda_before (odg ?s)" "parents G \<subseteq> parents (odg ?s)"
      "\<forall>x. deps_view G V x = (if x = q then remove1 c else id) (deps_view (odg ?s) (headers ?s) x)"
      using remove_dep_ok[OF w, of q c] by blast
    have e: "?s\<lparr>odg := G, headers := V\<rparr> = s\<lparr>odg := G, headers := V\<rparr>" "odg ?s = G1" "headers ?s = V1" by simp_all
    have "remove_parent_dep q c ?s = Some (s\<lparr>odg := G, headers := V\<rparr>)"
      using 2(1) False unfolding e by (simp add: remove_parent_dep_def)
    moreover have "\<forall>x. deps_view G V x = (if x = q \<and> q \<noteq> NIL then remove1 c else id)
         ((if x = p then remove1 c else id) (deps_view (odg s) (headers s) x))"
      using False 2(6)[unfolded e] 1(6) by simp
    moreover have "same_but_deps (headers s) V" using same_but_deps_trans[OF 1(3) 2(3)[unfolded e]] .
    moreover have "oda_before G = oda_before (odg s)" "parents G \<subseteq> parents (odg s)"
      using 1(4,5) 2(4,5)[unfolded e] by simp_all
    ultimately show ?thesis using 1(1) 2(2) by blast
  qed
qed

text \<open>A thread that has left the heaps is no longer the scheduler's.\<close>

lemma sched_inv_less:
  assumes i: "sched_wf s T" "idleLoop s \<notin> T" "ts (threads s (idleLoop s)) = ts_Idle" "runner_ok s T"
    and a: "ts (threads s a) = ts_Blocked" "currtask s \<noteq> a"
  shows "sched_inv s (T - {a})"
proof -
  have e: "set (events_of (heaps s h)) = {x \<in> T - {a}. state_heap (ts (threads s x)) = Some h}" for h
    using sched_wf_heap(2)[OF i(1)] a(1) by auto
  have "finite T" "card T \<le> MAXEVENTS" using i(1) by (simp_all add: sched_wf_def sched_at_def)
  then have "finite (T - {a})" "card (T - {a}) \<le> MAXEVENTS" using card_Diff1_le[of T a] by (auto intro: le_trans)
  then have "sched_wf s (T - {a})" using i(1) e unfolding sched_wf_def sched_at_def by blast
  then show ?thesis using i(2-4) a(2) by (auto simp: sched_inv_def runner_ok_def)
qed

text \<open>The stack is freed before the header.\<close>

lemma free_own_blocks:
  fixes s :: "'a KERNEL_scheme"
  assumes o: "own_blocks a X s" and m: "CKmem_ok (ckmem s)"
  shows "\<exists>m1 m2. CKmemFree (thread_stack a s) KSTACKSIZE (ckmem s) = Some m1 \<and> CKmemFree a sizeof_CKThreadObject m1 = Some m2
    \<and> CKmem_ok m2 \<and> CKmem_avail m2 = CKmem_avail (ckmem s) \<union> (bytes (thread_stack a s) KSTACKSIZE \<union> bytes a sizeof_CKThreadObject)"
proof -
  have n: "CKmem_sound KSTACKSIZE" "CKmem_sound sizeof_CKThreadObject" by (simp_all add: CKmem_sound_def sizeof_CKThreadObject_def)
  note o = o[unfolded own_blocks_def Let_def]
  obtain m1 where m1: "CKmemFree (thread_stack a s) KSTACKSIZE (ckmem s) = Some m1" "CKmem_ok m1"
    "CKmem_avail m1 = CKmem_avail (ckmem s) \<union> bytes (thread_stack a s) KSTACKSIZE"
    using ck.free_block[OF m n(1), of "thread_stack a s"] o unfolding adjusted by blast
  have "bytes a sizeof_CKThreadObject \<inter> CKmem_avail m1 = {}" using o unfolding m1(3) by blast
  then obtain m2 where "CKmemFree a sizeof_CKThreadObject m1 = Some m2" "CKmem_ok m2"
    "CKmem_avail m2 = CKmem_avail m1 \<union> bytes a sizeof_CKThreadObject"
    using ck.free_block[OF m1(2) n(2), of a] o unfolding adjusted by blast
  then show ?thesis using m1 by (auto simp: Un_assoc)
qed

lemma CKpostProcessTaskState_eq:
  "CKmemFree (thread_stack a s) KSTACKSIZE (ckmem s) = Some m \<Longrightarrow> CKpostProcessTaskState d a s
    = Some ((if a = lastFPUUser s then s\<lparr>lastFPUUser := NIL\<rparr> else s)\<lparr>ckmem := m\<rparr>)"
  by (cases "a = lastFPUUser s") (simp_all add: CKpostProcessTaskState_def with_free_def thread_stack_def)

lemma unload_thread_ok:
  fixes s :: "'a KERNEL_scheme"
  assumes i: "om_inv s T (us @ a # vs)" and a: "a \<in> T" "a \<noteq> currtask s" "a \<notin> parents (odg s)"
    and o: "own_blocks a (T - {a} \<union> set (us @ vs) \<union> {idleLoop s} \<union> parents (odg s)) s"
  defines "as \<equiv> addressSpace (threads s a)" and "p \<equiv> parentKernel (threads s a)"
  shows "\<exists>s'. CKunloadThreadObject a s = Some (CK_OK, s') \<and> om_inv s' (T - {a}) (us @ vs)
    \<and> CKmem_avail (ckmem s') = CKmem_avail (ckmem s) \<union> (bytes (thread_stack a s) KSTACKSIZE \<union> bytes a sizeof_CKThreadObject)
    \<and> u_self (uthreads s' (objectData (headers s a))) = NIL \<and> lastFPUUser s' \<noteq> a \<and> currtask s' = currtask s
    \<and> (\<forall>x. deps_view (odg s') (headers s') x = (if x = p \<and> p \<noteq> NIL then remove1 a else id)
         ((if x = as then remove1 a else id) (deps_view (odg s) (headers s) x)))
    \<and> (\<forall>x. x \<noteq> a \<longrightarrow> ts (threads s' x) = ts (threads s x))
    \<and> idleLoop s' = idleLoop s \<and> sysObjManLock s' = sysObjManLock s \<and> parents (odg s') \<subseteq> parents (odg s)
    \<and> (\<forall>x. taskState (threads s' x) = taskState (threads s x) \<and> same_identity (headers s x) (headers s' x))"
proof -
  let ?d = "objectData (headers s a)"
  have w: "sched_wf s T" and inv: "idleLoop s \<notin> T" "ts (threads s (idleLoop s)) = ts_Idle" "runner_ok s T"
    "CKmem_ok (ckmem s)" "odg_wf (odg s) (headers s)" "oda_before (odg s) \<notin> parents (odg s)"
    and l: "objects (headers s) (threadObjHead s) (us @ a # vs)" "distinct (us @ a # vs)"
    and live: "\<forall>x\<in>T \<union> set (us @ a # vs) \<union> {idleLoop s} \<union> parents (odg s). unat x \<notin> CKmem_avail (ckmem s)"
    using i unfolding om_inv_def sched_inv_def by - (elim conjE, assumption)+
  obtain s2 where b: "CKblockThread a s = Some s2" "sched_wf s2 T" "rest_kept s s2"
    "same_but_heap ((threads s)(a := (threads s a)\<lparr>ts := ts_Blocked\<rparr>)) (threads s2)"
    using CKblockThread_ok[OF w a(1)] by blast
  have f2: "ckmem s2 = ckmem s" "headers s2 = headers s" "odg s2 = odg s" "uthreads s2 = uthreads s" "currtask s2 = currtask s"
    "idleLoop s2 = idleLoop s" "SCHED.more s2 = SCHED.more s" using b(3) by (simp_all add: rest_kept_def)
  have t2: "ts (threads s2 x) = (if x = a then ts_Blocked else ts (threads s x))"
    "addressSpace (threads s2 x) = addressSpace (threads s x)" "parentKernel (threads s2 x) = parentKernel (threads s x)"
    "taskState (threads s2 x) = taskState (threads s x)" for x
    using same_but_heap_fields[OF b(4), of x] by auto
  have k2: "threadObjHead s2 = threadObjHead s" "lastFPUUser s2 = lastFPUUser s" "sysObjManLock s2 = sysObjManLock s" using f2(7) by (cases s; cases s2; simp)+
  obtain G1 V1 G V where d: "on_graph (CKremoveDepSearch as a) s2 = Some (s2\<lparr>odg := G1, headers := V1\<rparr>)"
    "remove_parent_dep p a (s2\<lparr>odg := G1, headers := V1\<rparr>) = Some (s2\<lparr>odg := G, headers := V\<rparr>)" "odg_wf G V"
    "same_but_deps (headers s) V" "oda_before G = oda_before (odg s)" "parents G \<subseteq> parents (odg s)"
    "\<forall>x. deps_view G V x = (if x = p \<and> p \<noteq> NIL then remove1 a else id)
         ((if x = as then remove1 a else id) (deps_view (odg s) (headers s) x))"
    using remove_two_deps[of s2 as a p] inv(5) unfolding f2 by blast
  obtain head' V' where ul: "unlink_object a (threadObjHead s, V) = (head', V')" by fastforce
  have "objects V (threadObjHead s) (us @ a # vs)" using l(1) unfolding objects_same_but_deps[OF d(4)] .
  note u = unlink_object_ok[OF this l(2) ul]
  note g = unlink_object_odg[OF u(2)]
  obtain m1 m2 where m: "CKmemFree (thread_stack a s) KSTACKSIZE (ckmem s) = Some m1" "CKmemFree a sizeof_CKThreadObject m1 = Some m2"
    "CKmem_ok m2" "CKmem_avail m2 = CKmem_avail (ckmem s) \<union> (bytes (thread_stack a s) KSTACKSIZE \<union> bytes a sizeof_CKThreadObject)"
    using free_own_blocks[OF o inv(4)] by blast
  let ?s5 = "set_uthread ?d (\<lambda>x. x\<lparr>u_self := NIL\<rparr>) (s2\<lparr>odg := G, headers := V', threadObjHead := head'\<rparr>)"
  define s' where "s' = (if a = lastFPUUser s then ?s5\<lparr>lastFPUUser := NIL\<rparr> else ?s5)\<lparr>ckmem := m2\<rparr>"
  have f: "heaps s' = heaps s2" "threads s' = threads s2" "idleLoop s' = idleLoop s" "currtask s' = currtask s" "ckmem s' = m2"
    "odg s' = G" "headers s' = V'" "threadObjHead s' = head'" "lastFPUUser s' = (if a = lastFPUUser s then NIL else lastFPUUser s)"
    "u_self (uthreads s' ?d) = NIL" "sysObjManLock s' = sysObjManLock s" using k2 f2 by (simp_all add: s'_def)
  have ids: "taskState (threads s' x) = taskState (threads s x)" "same_identity (headers s x) (headers s' x)" for x
    using t2(4) unlink_object_odg(3-5)[of V' V x] u(2) same_but_deps_fields(1-3)[OF d(4)] by (simp_all add: f same_identity_def)
  have r: "CKunloadThreadObject a s = Some (CK_OK, s')"
  proof -
    have "CKpostProcessTaskState ?d a ?s5 = Some ((if a = lastFPUUser s then ?s5\<lparr>lastFPUUser := NIL\<rparr> else ?s5)\<lparr>ckmem := m1\<rparr>)"
      using CKpostProcessTaskState_eq[of a ?s5 m1 ?d] m(1) k2(2) f2(1) t2(4) by (simp add: thread_stack_def)
    then show ?thesis
      using a(2) b(1) d(1,2) ul m(2) k2 f2 t2(2,3)
      by (simp add: CKunloadThreadObject_def Let_def as_def p_def with_free_def s'_def)
  qed
  have "sched_inv s' (T - {a})"
  proof (rule sched_inv_less)
    show "sched_wf s' T" using b(2) f(1,2) by (simp add: sched_wf_def sched_at_def)
    show "runner_ok s' T" using inv(3) unfolding runner_ok_def f t2 by auto
  qed (use inv(1,2) a f t2(1) in auto)
  moreover have "\<forall>x\<in>T - {a} \<union> set (us @ vs) \<union> {idleLoop s'} \<union> parents G. unat x \<notin> CKmem_avail m2"
    using live o d(6) unfolding own_blocks_def Let_def m(4) f(3) by auto
  moreover have "oda_before G \<notin> parents G" using inv(6) d(5,6) by auto
  moreover have "distinct (us @ vs)" using l(2) by simp
  ultimately have "om_inv s' (T - {a}) (us @ vs)"
    using m(3) d(3) u(1) unfolding om_inv_def f g by blast
  moreover have "deps_view (odg s') (headers s') = deps_view G V" unfolding f g(2) ..
  moreover have "lastFPUUser s' \<noteq> a" using o unfolding f own_blocks_def Let_def by auto
  moreover have "\<forall>x. x \<noteq> a \<longrightarrow> ts (threads s' x) = ts (threads s x)" unfolding f t2 by simp
  ultimately show ?thesis using r m(4) d(6,7) f(3-6,10,11) ids by metis
qed

section \<open>Properties\<close>


lemma om_kernel_loads:
  "\<exists>s'. CKcacheObject 0x900 SIGTHREAD 0 0 om_kernel = Some (CK_OK, s')"
proof -
  let ?s = "om_kernel\<lparr>sysObjManLock := 1\<rparr>"
  obtain m1 m2 where al: "CKmemAlloc sizeof_CKThreadObject (ckmem ?s) = Some (0x10000, m1)" "CKmemAlloc KSTACKSIZE m1 = Some (0x10128, m2)"
    using om_kernel_alloc by auto
  have i: "om_inv ?s {1, 2} [2, 1]" using om_kernel_inv by simp
  have n: "(0x10000 :: u32) \<noteq> NIL" "(0x10128 :: u32) \<noteq> NIL" by simp_all
  have ok: "thread_error 0x900 0 ?s = CK_OK" using om_kernel_checks(2) by simp
  have pre: "\<exists>s5. CKpreProcessTaskState 0x900 0x10000 (new_thread 0x900 0 0x10000 (?s\<lparr>ckmem := m1\<rparr>)) = Some (CK_OK, s5)"
    using al(2) by (simp add: CKpreProcessTaskState_def with_mem_def Let_def) (simp add: om_kernel_def PHYS_def)
  then obtain s5 where p5: "CKpreProcessTaskState 0x900 0x10000 (new_thread 0x900 0 0x10000 (?s\<lparr>ckmem := m1\<rparr>)) = Some (CK_OK, s5)" ..
  note nb = new_block[OF i _ al(1) n(1)]
  have m1: "CKmem_ok m1" using nb(3) by (simp add: CKmem_sound_def sizeof_CKThreadObject_def)
  obtain x m st where s5: "s5 = (set_tss 0x10000 (\<lambda>_. x) (new_thread 0x900 0 0x10000 (?s\<lparr>ckmem := m1\<rparr>)))\<lparr>ckmem := m\<rparr>"
      "st \<noteq> NIL" "CKmemAlloc KSTACKSIZE m1 = Some (st, m)"
      "x = (userState (uthreads ?s 0x900))\<lparr>tss_back := 0, tss_cr3 := PHYS (addrSpc (addrspcs ?s 0x500)),
          tss_eflags := STDFLAGS, i387_used := 0, tss_ss0 := KDATA, tss_esp0 := st + KSTACKSIZE\<rparr>"
    using CKpreProcessTaskState_ok[of "new_thread 0x900 0 0x10000 (?s\<lparr>ckmem := m1\<rparr>)" "0x900" "0x10000"] p5 m1 om_kernel_checks(3)
    by (auto simp: Let_def split: if_splits)
  have "\<exists>s'. CKloadThreadObject 0x900 0 0 ?s = Some (CK_OK, s') \<and> thread_in ?s 0x900 0 0x10000 {1, 2} [2, 1] s'"
    by (rule load_thread_enters[OF i ok _ _ _ _ _ _ _ al(1) n(1) p5 s5, where p = 0])
      (simp_all add: om_kernel_checks om_kernel_mem MAXEVENTS_def MAXDEPS_def)
  then show ?thesis using om_kernel_checks(1) by (auto simp: CKcacheObject_def)
qed


text \<open>A thread whose task state is refused, or that gets no stack, leaves its header behind: the
  header's memory goes back to the allocator, but the list of thread objects still starts with it
  (objmgmt.c, \<open>CKloadThreadObject\<close>).\<close>

theorem thread_load_dangles:
  fixes s :: "'a KERNEL_scheme"
  assumes "om_inv s T xs" and "sysObjManLock s = 0" and "card T < MAXEVENTS" and "oda_used (odg s) + 2 \<le> MAXDEPS"
    and "u_addressSpace (uthreads s object) = as" and "parent_for (u_parentKernel (uthreads s object)) s = p"
    and "unat as \<notin> CKmem_avail (ckmem s)" and "unat p \<notin> CKmem_avail (ckmem s)" and "oda_before (odg s) \<notin> {as, p}"
    and "thread_error object flags s = CK_OK" and "task_error as object s \<noteq> CK_OK"
  shows "\<exists>r s'. CKcacheObject object SIGTHREAD sz flags s = Some (r, s')
    \<and> (r = Some ENOMEM \<and> s' = s
       \<or> r = task_error as object s \<and> objects (headers s') (threadObjHead s') (threadObjHead s' # xs)
         \<and> unat (threadObjHead s') \<in> CKmem_avail (ckmem s') \<and> CKmem_avail (ckmem s') = CKmem_avail (ckmem s))"
proof -
  let ?s = "s\<lparr>sysObjManLock := 1\<rparr>"
  obtain r s' where r: "CKloadThreadObject object sz flags ?s = Some (r, s')"
    "r = Some ENOMEM \<and> s' = ?s \<or> r = task_error as object s \<and> dangling ?s xs s'"
    using load_thread_cases[where s = ?s and T = T and xs = xs and object = object and flags = flags and as = as and p = p
        and sz = sz] assms by auto
  have l: "CKcacheObject object SIGTHREAD sz flags s = Some (r, s'\<lparr>sysObjManLock := 0\<rparr>)"
    using r(1) assms(2) by (simp add: CKcacheObject_def)
  show ?thesis
  proof (cases "r = task_error as object s \<and> dangling ?s xs s'")
    case True
    then have "dangling s xs (s'\<lparr>sysObjManLock := 0\<rparr>)" by (auto simp: dangling_def)
    then show ?thesis using True l unfolding dangling_def by blast
  next
    case False
    then have "r = Some ENOMEM" "s'\<lparr>sysObjManLock := 0\<rparr> = s" using r(2) assms(2) by auto
    then show ?thesis using l by blast
  qed
qed

text \<open>The small system again, with a loader's thread without an instruction pointer.\<close>

definition om_kernel_bad :: KERNEL where
  "om_kernel_bad = om_kernel\<lparr>uthreads := (\<lambda>_. (uthreads om_kernel 0)\<lparr>userState := no_TSS\<rparr>)\<rparr>"

lemma om_kernel_bad_inv: "om_inv om_kernel_bad {1, 2} [2, 1]"
  using om_kernel_inv sched_inv_same[of om_kernel_bad om_kernel "{1, 2}"] by (simp add: om_inv_def om_kernel_bad_def)

lemma om_kernel_bad_checks:
  "thread_error 0x900 0 om_kernel_bad = CK_OK" "task_error 0x500 0x900 om_kernel_bad = Some ESEGMENTATION"
  by (simp_all add: om_kernel_bad_def om_kernel_def thread_error_def OFLOCKED_def CKvalidAddrSpc_def bad_parent_def no_header_def
    task_error_def PHYS_def no_TSS_def)

theorem thread_load_dangles_witness:
  "\<exists>r s'. CKcacheObject 0x900 SIGTHREAD 0 0 om_kernel_bad = Some (r, s')
    \<and> (r = Some ENOMEM \<and> s' = om_kernel_bad
       \<or> r = Some ESEGMENTATION \<and> unat (threadObjHead s') \<in> {0x10000..<0x14000})"
proof -
  have lk: "sysObjManLock om_kernel_bad = 0" and rm: "card {1, 2 :: addr} < MAXEVENTS" "oda_used (odg om_kernel_bad) + 2 \<le> MAXDEPS"
    and lv: "unat (0x500 :: addr) \<notin> CKmem_avail (ckmem om_kernel_bad)" "unat (0 :: addr) \<notin> CKmem_avail (ckmem om_kernel_bad)"
      "oda_before (odg om_kernel_bad) \<notin> {0x500, 0}"
    using om_kernel_checks om_kernel_mem by (simp_all add: om_kernel_bad_def MAXEVENTS_def MAXDEPS_def)
  have u: "u_addressSpace (uthreads om_kernel_bad 0x900) = 0x500" "parent_for (u_parentKernel (uthreads om_kernel_bad 0x900)) om_kernel_bad = 0"
    by (simp_all add: om_kernel_bad_def om_kernel_def parent_for_def)
  obtain r s' where r: "CKcacheObject 0x900 SIGTHREAD 0 0 om_kernel_bad = Some (r, s')"
    "r = Some ENOMEM \<and> s' = om_kernel_bad
     \<or> r = task_error 0x500 0x900 om_kernel_bad \<and> objects (headers s') (threadObjHead s') (threadObjHead s' # [2, 1])
       \<and> unat (threadObjHead s') \<in> CKmem_avail (ckmem s') \<and> CKmem_avail (ckmem s') = CKmem_avail (ckmem om_kernel_bad)"
    using thread_load_dangles[OF om_kernel_bad_inv lk rm u lv om_kernel_bad_checks(1), where sz = 0] om_kernel_bad_checks(2) by auto
  have "CKmem_avail (ckmem om_kernel_bad) = {0x10000..<0x14000}" using om_kernel_mem(2) by (simp add: om_kernel_bad_def)
  then show ?thesis using r om_kernel_bad_checks(2) by auto
qed

lemma remove_added:
  "a \<notin> set D \<Longrightarrow> (if P then remove1 a else id) ((if Q then remove1 a else id)
     (D @ (if Q then [a] else []) @ (if P then [a] else []))) = D"
  by (simp add: remove1_append)

lemma uncache_no_deps:
  assumes "oflags (headers s a) AND OFLOCKED = 0" "sysObjManLock s = 0" "dependencies (headers s a) = 0"
  shows "CKunCacheObject a s = map_option (\<lambda>(r, s2). (r, s2\<lparr>sysObjManLock := 0\<rparr>)) (unload_kind a (s\<lparr>sysObjManLock := 1\<rparr>))"
proof -
  have "uncache_loop a CK_OK (s\<lparr>sysObjManLock := 1\<rparr>) = Some (CK_OK, s\<lparr>sysObjManLock := 1\<rparr>)"
    using assms(3) by (subst uncache_loop.simps) simp
  then show ?thesis using assms(1,2)
    by (cases "unload_kind a (s\<lparr>sysObjManLock := 1\<rparr>)") (auto simp: CKunCacheObject_def)
qed

text \<open>C7: Unloading a thread just loaded undoes the load: the thread leaves the list, the graph and
  the scheduler, its stack and its header go back to the kernel's memory, the loader's
  structure no longer names it, and what any other object's dependants and any other thread's
  state were before the load, they are again (objmgmt.c, \<open>CKcacheObject\<close>,
  \<open>CKunCacheObject\<close>).\<close>

theorem thread_load_unload:
  fixes s :: "'a KERNEL_scheme"
  assumes "om_inv s T xs" and "sysObjManLock s = 0" and "card T < MAXEVENTS" and "oda_used (odg s) + 2 \<le> MAXDEPS"
    and "u_addressSpace (uthreads s object) = as" and "parent_for (u_parentKernel (uthreads s object)) s = p"
    and "unat as \<notin> CKmem_avail (ckmem s)" and "unat p \<notin> CKmem_avail (ckmem s)" and "oda_before (odg s) \<notin> {as, p}"
    and "currtask s \<in> T" and kids: "\<forall>x. \<forall>c \<in> set (deps_view (odg s) (headers s) x). unat c \<notin> CKmem_avail (ckmem s)"
    and load: "CKcacheObject object SIGTHREAD sz flags s = Some (CK_OK, s1)"
  shows "\<exists>a s2. u_self (uthreads s1 object) = a \<and> CKunCacheObject a s1 = Some (CK_OK, s2) \<and> om_inv s2 T xs
    \<and> CKmem_avail (ckmem s2) = CKmem_avail (ckmem s) \<and> u_self (uthreads s2 object) = NIL \<and> sysObjManLock s2 = 0
    \<and> (\<forall>x. x \<noteq> a \<longrightarrow> deps_view (odg s2) (headers s2) x = deps_view (odg s) (headers s) x \<and> ts (threads s2 x) = ts (threads s x))"
proof -
  let ?s = "s\<lparr>sysObjManLock := 1\<rparr>"
  obtain s0 where l: "CKloadThreadObject object sz flags ?s = Some (CK_OK, s0)" "s1 = s0\<lparr>sysObjManLock := 0\<rparr>"
    using load assms(2) by (auto simp: CKcacheObject_def bind_eq_Some_conv)
  have e: "thread_error object flags s = CK_OK"
  proof (rule ccontr)
    assume "thread_error object flags s \<noteq> CK_OK"
    then show False using load_thread_error[of object flags ?s sz] l(1) by auto
  qed
  have "\<exists>a. a \<noteq> NIL \<and> a \<notin> T \<and> thread_in ?s object flags a T xs s0"
    using load_thread_cases[where s = ?s and T = T and xs = xs and object = object and flags = flags and as = as and p = p
        and sz = sz] assms(1,3-9) e l(1) by (auto split: if_splits)
  then obtain a where a: "a \<noteq> NIL" "a \<notin> T" "thread_in s object flags a T xs s0" by auto
  note in0 = a(3)[unfolded thread_in_def Let_def]
  have ct: "currtask s0 \<in> T" using in0 assms(10) by metis
  let ?s0 = "s0\<lparr>sysObjManLock := 1\<rparr>"
  have i: "om_inv ?s0 (insert a T) ([] @ a # xs)" using in0 by simp
  have T: "insert a T - {a} = T" using a(2) by simp
  have o: "own_blocks a (insert a T - {a} \<union> set ([] @ xs) \<union> {idleLoop ?s0} \<union> parents (odg ?s0)) ?s0"
    using conjunct1[OF conjunct2[OF conjunct2[OF in0]]] unfolding T by (simp add: own_blocks_def thread_stack_def Let_def)
  have na: "a \<noteq> currtask ?s0" "a \<notin> parents (odg ?s0)" using in0 ct a(2) by auto
  have d0: "objectData (headers ?s0 a) = object" "addressSpace (threads ?s0 a) = as" "parentKernel (threads ?s0 a) = p"
    using in0 assms(5,6) by simp_all
  obtain s2 where u: "CKunloadThreadObject a ?s0 = Some (CK_OK, s2)" "om_inv s2 T xs"
    "CKmem_avail (ckmem s2) = CKmem_avail (ckmem s0) \<union> (bytes (thread_stack a s0) KSTACKSIZE \<union> bytes a sizeof_CKThreadObject)"
    "u_self (uthreads s2 object) = NIL"
    "\<forall>x. deps_view (odg s2) (headers s2) x = (if x = p \<and> p \<noteq> NIL then remove1 a else id)
         ((if x = as then remove1 a else id) (deps_view (odg s0) (headers s0) x))"
    "\<forall>x. x \<noteq> a \<longrightarrow> ts (threads s2 x) = ts (threads s0 x)"
    using unload_thread_ok[OF i _ na o, unfolded T d0] by (auto simp: thread_stack_def)
  have c: "CKunCacheObject a s1 = Some (CK_OK, s2\<lparr>sysObjManLock := 0\<rparr>)"
  proof -
    have "degree (edges (odg s0)) a = 0" using no_edges[OF na(2)] by simp
    then have "dependencies (headers s0 a) = 0" using in0 by (simp add: om_inv_def odg_wf_def)
    moreover have "flags AND OFLOCKED = 0" using e by (simp add: thread_error_def Let_def split: if_splits)
    ultimately show ?thesis using uncache_no_deps[of s1 a] u(1) in0 l(2) by (simp add: unload_kind_def Let_def)
  qed
  have nk: "a \<notin> set (deps_view (odg s) (headers s) x)" for x using kids thread_in_avail[OF a(3)] by blast
  have "deps_view (odg s2) (headers s2) x = deps_view (odg s) (headers s) x" if "x \<noteq> a" for x
  proof -
    have "deps_view (odg s0) (headers s0) x = deps_view (odg s) (headers s) x @ (if x = as then [a] else [])
        @ (if x = p \<and> p \<noteq> NIL then [a] else [])"
      using in0 that unfolding assms(5,6) by blast
    then show ?thesis unfolding u(5)[rule_format, of x] by (simp only: remove_added[OF nk])
  qed
  note dv = this
  have tv: "ts (threads s2 x) = ts (threads s x)" if "x \<noteq> a" for x using in0 u(6) that by simp
  let ?s2 = "s2\<lparr>sysObjManLock := 0\<rparr>"
  have "u_self (uthreads s1 object) = a" using in0 l(2) by simp
  moreover have "CKmem_avail (ckmem ?s2) = CKmem_avail (ckmem s)" using in0 u(3) by simp
  moreover have "om_inv ?s2 T xs" "u_self (uthreads ?s2 object) = NIL" "sysObjManLock ?s2 = 0" using u(2,4) by simp_all
  moreover have "\<forall>x. x \<noteq> a \<longrightarrow> deps_view (odg ?s2) (headers ?s2) x = deps_view (odg s) (headers s) x
      \<and> ts (threads ?s2 x) = ts (threads s x)" using dv tv by simp
  ultimately show ?thesis using c by blast
qed

lemma om_kernel_deps: "deps_view (odg om_kernel) (headers om_kernel) x = []"
  by (simp add: deps_view_def om_kernel_def no_header_def)

theorem thread_load_unload_witness:
  "\<exists>a s1 s2. CKcacheObject 0x900 SIGTHREAD 0 0 om_kernel = Some (CK_OK, s1) \<and> u_self (uthreads s1 0x900) = a
    \<and> CKunCacheObject a s1 = Some (CK_OK, s2) \<and> om_inv s2 {1, 2} [2, 1] \<and> CKmem_avail (ckmem s2) = {0x10000..<0x14000}"
proof -
  obtain s1 where l: "CKcacheObject 0x900 SIGTHREAD 0 0 om_kernel = Some (CK_OK, s1)" using om_kernel_loads by blast
  have "\<exists>a s2. u_self (uthreads s1 0x900) = a \<and> CKunCacheObject a s1 = Some (CK_OK, s2) \<and> om_inv s2 {1, 2} [2, 1]
    \<and> CKmem_avail (ckmem s2) = CKmem_avail (ckmem om_kernel) \<and> u_self (uthreads s2 0x900) = NIL \<and> sysObjManLock s2 = 0
    \<and> (\<forall>x. x \<noteq> a \<longrightarrow> deps_view (odg s2) (headers s2) x = deps_view (odg om_kernel) (headers om_kernel) x
         \<and> ts (threads s2 x) = ts (threads om_kernel x))"
    by (rule thread_load_unload[OF om_kernel_inv, where as = "0x500" and p = 0 and flags = 0 and sz = 0])
      (simp_all add: om_kernel_checks om_kernel_mem om_kernel_deps MAXEVENTS_def MAXDEPS_def l, simp add: om_kernel_def)
  then show ?thesis using l unfolding om_kernel_mem(2) by blast
qed

lemma uncache_loop_locked:
  assumes "uncache_loop a err s = Some y"
  shows "dependencies (headers s a) = 0 \<or> first_child a s = None
    \<or> oflags (headers s (the (first_child a s))) AND OFLOCKED = 0"
proof (rule uncache_loop.raw_induct[OF _ assms])
  fix f :: "addr \<Rightarrow> ckresult \<Rightarrow> 'a KERNEL_scheme \<Rightarrow> (ckresult \<times> 'a KERNEL_scheme) option" and a err s y
  assume ih: "\<And>a err s y. f a err s = Some y \<Longrightarrow> dependencies (headers s a) = 0 \<or> first_child a s = None
      \<or> oflags (headers s (the (first_child a s))) AND OFLOCKED = 0"
    and r: "(if dependencies (headers s a) \<noteq> 0
       then first_child a s \<bind> (\<lambda>c. CKunloadObject c s \<bind> (\<lambda>(err', s1). f a err' s1)) else Some (err, s)) = Some y"
  show "dependencies (headers s a) = 0 \<or> first_child a s = None \<or> oflags (headers s (the (first_child a s))) AND OFLOCKED = 0"
  proof (rule ccontr)
    assume n: "\<not> ?thesis"
    then obtain c where c: "first_child a s = Some c" "oflags (headers s c) AND OFLOCKED \<noteq> 0" by auto
    have "CKunloadObject c s = Some (Some ELOCKED, s)"
      using c(2) unfolding CKunloadObject_def by (subst unload_object.simps) simp
    then have "f a (Some ELOCKED) s = Some y" using r n c(1) by auto
    from ih[OF this] show False using n by blast
  qed
qed

text \<open>C29: An object whose first dependant is locked cannot be unloaded, and the attempt never
  returns: \<open>CKunCacheObject\<close> does not leave its loop at an error, and the loop always takes the
  first edge again; the system object manager stays locked (objmgmt.c).\<close>

theorem uncache_locked_hangs:
  assumes "oflags (headers s a) AND OFLOCKED = 0" and "dependencies (headers s a) \<noteq> 0"
    and "first_child a s = Some c" and "oflags (headers s c) AND OFLOCKED \<noteq> 0"
  shows "CKunCacheObject a s = None"
proof (cases "CKenterCritical (sysObjManLock s)")
  case (Some l)
  let ?s = "s\<lparr>sysObjManLock := l\<rparr>"
  have "first_child a ?s = Some c" using assms(3) by (simp add: first_child_def)
  then have "uncache_loop a CK_OK ?s = None"
    using uncache_loop_locked[of a CK_OK ?s] assms(2,4) by (cases "uncache_loop a CK_OK ?s") auto
  then show ?thesis using assms(1) Some by (simp add: CKunCacheObject_def)
qed (use assms(1) in \<open>simp add: CKunCacheObject_def\<close>)

theorem uncache_locked_hangs_witness:
  "CKunCacheObject 5 (small_kernel\<lparr>odg := empty_odg\<lparr>ODA := [\<lparr>e_parent = 5, e_child = 6\<rparr>], oda_used := 1\<rparr>,
     headers := (\<lambda>a. if a = 5 then no_header\<lparr>objectSignature := SIGKERNEL, dependencies := 1, firstDependency := Some 0\<rparr>
       else no_header\<lparr>objectSignature := SIGTHREAD, oflags := OFLOCKED\<rparr>)\<rparr>) = None"
  by (rule uncache_locked_hangs[where c = 6]) (simp_all add: first_child_def no_header_def OFLOCKED_def)

end
