(* ===== verification/CK_Resource.thy ===== *)
theory CK_Resource
  imports CK_ThreadObjects
begin

text \<open>
  The resources: \<^verbatim>\<open>CK/resource.c\<close>, with the trap stubs of \<^verbatim>\<open>kernel.c\<close>, the interrupt
  table of \<^verbatim>\<open>set_vec.c\<close>, the interrupt controller of \<^verbatim>\<open>irq.c\<close> and the coprocessor of
  \<^verbatim>\<open>math.c\<close>, all in \<^verbatim>\<open>CK/architecture/I80X86\<close>. The assembler's stub templates
  (\<^verbatim>\<open>jump.S\<close>) and what the coprocessor does with its registers are parameters.
\<close>

section \<open>The interrupt table and the interrupt controller (set_vec.c, irq.c)\<close>

abbreviation M_VEC :: u32 where "M_VEC \<equiv> 0x68"
abbreviation S_VEC :: u32 where "S_VEC \<equiv> 0x70"
abbreviation D_INT :: "16 word" where "D_INT \<equiv> 0x0E00"
abbreviation D_TRAP :: "16 word" where "D_TRAP \<equiv> 0x0F00"
abbreviation D_DPL3 :: "16 word" where "D_DPL3 \<equiv> 0x6000"
abbreviation D_PRESENT :: "16 word" where "D_PRESENT \<equiv> 0x8000"

definition CKsetVector :: "addr \<Rightarrow> u8 \<Rightarrow> 16 word \<Rightarrow> 'a RKERNEL_scheme \<Rightarrow> 'a RKERNEL_scheme" where
  "CKsetVector handler interrupt control_major s =
     s\<lparr>IDT := (IDT s)[unat interrupt := \<lparr>offset_low = ucast (handler AND 0xffff), selector = ucast KCODE,
        access = control_major, offset_high = ucast (drop_bit 16 handler)\<rparr>]\<rparr>"

definition CKdisableIRQ :: "u32 \<Rightarrow> 'a RKERNEL_scheme \<Rightarrow> 'a RKERNEL_scheme" where
  "CKdisableIRQ irq s =
     (if irq < 8 then
        let k = IRQMaskMaster s OR push_bit (unat irq) 1 in s\<lparr>IRQMaskMaster := k, imr_ports := (k, snd (imr_ports s))\<rparr>
      else
        let k = IRQMaskSlave s OR push_bit (unat (irq AND 7)) 1 in s\<lparr>IRQMaskSlave := k, imr_ports := (fst (imr_ports s), k)\<rparr>)"

definition CKenableIRQ :: "u32 \<Rightarrow> 'a RKERNEL_scheme \<Rightarrow> 'a RKERNEL_scheme" where
  "CKenableIRQ irq s =
     (if irq < 8 then
        let k = IRQMaskMaster s AND NOT (push_bit (unat irq) 1) in s\<lparr>IRQMaskMaster := k, imr_ports := (k, snd (imr_ports s))\<rparr>
      else
        let k = IRQMaskSlave s AND NOT (push_bit (unat (irq AND 7)) 1) in s\<lparr>IRQMaskSlave := k, imr_ports := (fst (imr_ports s), k)\<rparr>)"

definition CKinit8259 :: "'a RKERNEL_scheme \<Rightarrow> 'a RKERNEL_scheme" where
  "CKinit8259 s = s\<lparr>imr_ports := (IRQMaskMaster s, IRQMaskSlave s)\<rparr>"

section \<open>The coprocessor (math.c)\<close>

text \<open>\<open>clean\<close> is what \<open>fninit\<close> (and \<open>fnsave\<close>) leave in the registers, \<open>clex\<close> clears the exception flags.\<close>

definition CKi387SetupContext :: "u32 list \<Rightarrow> (u32 list \<Rightarrow> u32 list) \<Rightarrow> 'a KERNEL_scheme \<Rightarrow> 'a KERNEL_scheme" where
  "CKi387SetupContext clean clex s =
     (let s1 = s\<lparr>cr0_ts := False\<rparr>;
          s2 = (if lastFPUUser s1 \<noteq> NIL then s1\<lparr>fpu_saved := (fpu_saved s1)(lastFPUUser s1 := fpu s1), fpu := clean\<rparr>
                else s1\<lparr>fpu := clex (fpu s1)\<rparr>);
          s3 = s2\<lparr>lastFPUUser := currtask s2\<rparr>
      in if i387_used (taskState (threads s3 (currtask s3))) \<noteq> 0 then s3\<lparr>fpu := fpu_saved s3 (currtask s3)\<rparr>
         else set_tss (currtask s3) (\<lambda>x. x\<lparr>i387_used := i387_used x + 1\<rparr>) (s3\<lparr>fpu := clean\<rparr>))"

section \<open>Lists of an object's resources\<close>

definition link_resource :: "addr \<Rightarrow> addr \<Rightarrow> (addr \<Rightarrow> CKResource) \<Rightarrow> (addr \<Rightarrow> CKResource)" where
  "link_resource a head C =
     (let C1 = C(a := (C a)\<lparr>r_next := NIL, r_prev := head\<rparr>)
      in if head \<noteq> NIL then C1(head := (C1 head)\<lparr>r_next := a\<rparr>) else C1)"

definition unlink_resource :: "addr \<Rightarrow> addr \<times> (addr \<Rightarrow> CKResource) \<Rightarrow> addr \<times> (addr \<Rightarrow> CKResource)" where
  "unlink_resource a = (\<lambda>(head, C).
     let C1 = (if r_prev (C a) \<noteq> NIL then C(r_prev (C a) := (C (r_prev (C a)))\<lparr>r_next := r_next (C a)\<rparr>) else C)
     in if r_next (C1 a) \<noteq> NIL
        then (head, C1(r_next (C1 a) := (C1 (r_next (C1 a)))\<lparr>r_prev := r_prev (C1 a)\<rparr>))
        else (r_prev (C1 a), C1))"

abbreviation set_cres :: "addr \<Rightarrow> (CKResource \<Rightarrow> CKResource) \<Rightarrow> 'a RKERNEL_scheme \<Rightarrow> 'a RKERNEL_scheme" where
  "set_cres a f s \<equiv> s\<lparr>cres := (cres s)(a := f (cres s a))\<rparr>"

abbreviation set_uresource :: "addr \<Rightarrow> (Resource \<Rightarrow> Resource) \<Rightarrow> 'a RKERNEL_scheme \<Rightarrow> 'a RKERNEL_scheme" where
  "set_uresource a f s \<equiv> s\<lparr>uresources := (uresources s)(a := f (uresources s a))\<rparr>"

text \<open>Linking under the lock; \<open>get\<close> and \<open>put\<close> are the head of the kind's list in the owner.\<close>

definition link_locked :: "addr \<Rightarrow> ('a RKERNEL_scheme \<Rightarrow> addr) \<Rightarrow> (addr \<Rightarrow> 'a RKERNEL_scheme \<Rightarrow> 'a RKERNEL_scheme)
    \<Rightarrow> 'a RKERNEL_scheme \<Rightarrow> 'a RKERNEL_scheme option" where
  "link_locked a get put s =
     do {
       l \<leftarrow> CKenterCritical (resourceAllocLock s);
       Some (put a (s\<lparr>cres := link_resource a (get s) (cres s), resourceAllocLock := CKexitCritical l\<rparr>))
     }"

definition unlink_locked :: "addr \<Rightarrow> ('a RKERNEL_scheme \<Rightarrow> addr) \<Rightarrow> (addr \<Rightarrow> 'a RKERNEL_scheme \<Rightarrow> 'a RKERNEL_scheme)
    \<Rightarrow> 'a RKERNEL_scheme \<Rightarrow> 'a RKERNEL_scheme option" where
  "unlink_locked a get put s =
     do {
       l \<leftarrow> CKenterCritical (resourceAllocLock s);
       let (head, C) = unlink_resource a (get s, cres s);
       Some (put head (s\<lparr>cres := C, resourceAllocLock := CKexitCritical l\<rparr>))
     }"

section \<open>I/O ports\<close>

partial_function (option) IOfindGap_loop ::
  "addr \<Rightarrow> (addr \<Rightarrow> CKIOregionAlloc) \<Rightarrow> u32 \<Rightarrow> u32 \<Rightarrow> addr \<Rightarrow> addr option" where
  "IOfindGap_loop head R base limit g =
     (if g \<noteq> head \<and> base < io_base (R g) + io_limit (R g) then Some NIL
      else if io_nextAlloc (R g) = NIL \<or> base + limit \<le> io_base (R (io_nextAlloc (R g))) then Some g
      else IOfindGap_loop head R base limit (io_nextAlloc (R g)))"

definition CKIOfindGap :: "u32 \<Rightarrow> u32 \<Rightarrow> 'a RKERNEL_scheme \<Rightarrow> addr option" where
  "CKIOfindGap base limit s =
     (if limit = 0 then Some NIL else IOfindGap_loop (IOfirstAlloc s) (ioregions s) base limit (IOfirstAlloc s))"

definition insert_region :: "addr \<Rightarrow> addr \<Rightarrow> u32 \<Rightarrow> u32 \<Rightarrow> (addr \<Rightarrow> CKIOregionAlloc) \<Rightarrow> (addr \<Rightarrow> CKIOregionAlloc)" where
  "insert_region a g base limit R =
     (let R1 = R(a := (R a)\<lparr>io_base := base, io_limit := limit, io_nextAlloc := io_nextAlloc (R g)\<rparr>);
          R2 = R1(g := (R1 g)\<lparr>io_nextAlloc := a\<rparr>);
          R3 = R2(a := (R2 a)\<lparr>io_prevAlloc := g\<rparr>);
          nxt = io_nextAlloc (R3 a)
      in if nxt \<noteq> NIL then R3(nxt := (R3 nxt)\<lparr>io_prevAlloc := a\<rparr>) else R3)"

definition remove_region :: "addr \<Rightarrow> (addr \<Rightarrow> CKIOregionAlloc) \<Rightarrow> (addr \<Rightarrow> CKIOregionAlloc)" where
  "remove_region a R =
     (let p = io_prevAlloc (R a); R1 = R(p := (R p)\<lparr>io_nextAlloc := io_nextAlloc (R a)\<rparr>);
          n = io_nextAlloc (R1 a)
      in if n \<noteq> NIL then R1(n := (R1 n)\<lparr>io_prevAlloc := io_prevAlloc (R1 a)\<rparr>) else R1)"

definition CKallocIORegion :: "addr \<Rightarrow> addr \<Rightarrow> u32 \<Rightarrow> 'a RKERNEL_scheme \<Rightarrow> (ckresult \<times> 'a RKERNEL_scheme) option" where
  "CKallocIORegion resource owner flags s =
     (let res = uresources s resource in
      if \<not> CKvalidThread owner s then Some (Some ENOVALIDTHREAD, s)
      else do {
        l \<leftarrow> CKenterCritical (IOAllocLock s);
        g \<leftarrow> CKIOfindGap (res_0 res) (res_1 res) s;
        if g = NIL then Some (Some ERESOURCEBUSY, s\<lparr>IOAllocLock := CKexitCritical l\<rparr>)
        else do {
          (ckres, s1) \<leftarrow> with_mem (CKmemAlloc sizeof_CKIOregionAlloc) (s\<lparr>IOAllocLock := l\<rparr>);
          if ckres = NIL then Some (Some ENOMEM, s1)
          else do {
            let s2 = s1\<lparr>ioregions := insert_region ckres g (res_0 res) (res_1 res) (ioregions s1),
                 IOAllocLock := CKexitCritical (IOAllocLock s1)\<rparr>;
            s3 \<leftarrow> link_locked ckres (\<lambda>s. ioregion_res (threads s owner))
              (\<lambda>h. set_thread owner (\<lambda>t. t\<lparr>ioregion_res := h\<rparr>))
              (set_cres ckres (\<lambda>c. c\<lparr>r_sig := SIGIOREGION, r_owner := owner, r_flags := flags\<rparr>) s2);
            Some (CK_OK, set_uresource resource (\<lambda>u. u\<lparr>res_0 := ckres\<rparr>) s3)
          }
        }
      })"

definition CKfreeIORegion :: "addr \<Rightarrow> 'a RKERNEL_scheme \<Rightarrow> (ckresult \<times> 'a RKERNEL_scheme) option" where
  "CKfreeIORegion res s =
     do {
       l \<leftarrow> CKenterCritical (IOAllocLock s);
       let owner = r_owner (cres s res);
       s1 \<leftarrow> unlink_locked res (\<lambda>s. ioregion_res (threads s owner)) (\<lambda>h. set_thread owner (\<lambda>t. t\<lparr>ioregion_res := h\<rparr>))
         (s\<lparr>ioregions := remove_region res (ioregions s), IOAllocLock := CKexitCritical l\<rparr>);
       s2 \<leftarrow> with_free res sizeof_CKIOregionAlloc s1;
       Some (CK_OK, s2)
     }"

section \<open>DMA channels\<close>

definition CKallocDMA :: "addr \<Rightarrow> addr \<Rightarrow> u32 \<Rightarrow> 'a RKERNEL_scheme \<Rightarrow> (ckresult \<times> 'a RKERNEL_scheme) option" where
  "CKallocDMA resource owner flags s =
     (let channel = res_0 (uresources s resource); i = unat channel in
      if \<not> CKvalidThread owner s then Some (Some ENOVALIDTHREAD, s)
      else if DMACHANNELS \<le> channel then Some (Some EINRESOURCE, s)
      else
        let (old, new) = XCHG (DMAallocationMap s ! i) 1;
            s1 = s\<lparr>DMAallocationMap := (DMAallocationMap s)[i := new]\<rparr>
        in if old \<noteq> 0 then Some (Some ERESOURCEBUSY, s1)
        else do {
          (ckres, s2) \<leftarrow> with_mem (CKmemAlloc sizeof_CKDMAchannelAlloc) s1;
          if ckres = NIL then Some (Some ENOMEM, s2\<lparr>DMAallocationMap := (DMAallocationMap s2)[i := 0]\<rparr>)
          else do {
            s3 \<leftarrow> link_locked ckres (\<lambda>s. dmachan_res (threads s owner)) (\<lambda>h. set_thread owner (\<lambda>t. t\<lparr>dmachan_res := h\<rparr>))
              (set_cres ckres (\<lambda>c. c\<lparr>r_sig := SIGDMA, r_owner := owner\<rparr>) s2);
            let s4 = set_cres ckres (\<lambda>c. c\<lparr>r_flags := flags\<rparr>) (s3\<lparr>dmachannels := (dmachannels s3)(ckres := channel)\<rparr>);
            Some (CK_OK, set_uresource resource (\<lambda>u. u\<lparr>res_0 := ckres\<rparr>) s4)
          }
        })"

definition CKfreeDMA :: "addr \<Rightarrow> 'a RKERNEL_scheme \<Rightarrow> (ckresult \<times> 'a RKERNEL_scheme) option" where
  "CKfreeDMA res s =
     (let owner = r_owner (cres s res) in
      do {
        s1 \<leftarrow> unlink_locked res (\<lambda>s. dmachan_res (threads s owner)) (\<lambda>h. set_thread owner (\<lambda>t. t\<lparr>dmachan_res := h\<rparr>))
          (s\<lparr>DMAallocationMap := (DMAallocationMap s)[unat (dmachannels s res) := 0]\<rparr>);
        s2 \<leftarrow> with_free res sizeof_CKDMAchannelAlloc s1;
        Some (CK_OK, s2)
      })"

section \<open>Interrupt stubs (kernel.c)\<close>

text \<open>The templates of \<^verbatim>\<open>jump.S\<close> and the handler of spurious interrupts.\<close>

record trap_stubs =
  fwd_global_template :: "u8 list"
  fwd_global_irq_templ_bh :: "u8 list"
  fwd_global_irq_templ_th :: "u8 list"
  spurious_int :: addr

definition STUBLEN :: "trap_stubs \<Rightarrow> u32" where
  "STUBLEN T = of_nat (length (fwd_global_template T))"

definition MIRQLEN :: "trap_stubs \<Rightarrow> u32" where
  "MIRQLEN T = of_nat (length (fwd_global_irq_templ_bh T))"

definition SIRQLEN :: "trap_stubs \<Rightarrow> u32" where
  "SIRQLEN T = of_nat (length (fwd_global_irq_templ_th T))"

text \<open>Copying a template: each byte 0xbb becomes the trap's number.\<close>

primrec copy_stub :: "u32 \<Rightarrow> u8 list \<Rightarrow> addr \<Rightarrow> (addr \<Rightarrow> u8) \<Rightarrow> (addr \<Rightarrow> u8)" where
  "copy_stub trap [] a C = C"
| "copy_stub trap (b # bs) a C = copy_stub trap bs (a + 1) (C(a := (if b = 0xbb then ucast trap else b)))"

abbreviation set_trap :: "addr \<Rightarrow> (CKTrapAlloc \<Rightarrow> CKTrapAlloc) \<Rightarrow> 'a RKERNEL_scheme \<Rightarrow> 'a RKERNEL_scheme" where
  "set_trap a f s \<equiv> s\<lparr>traps := (traps s)(a := f (traps s a))\<rparr>"

definition bad_trap :: "u32 \<Rightarrow> bool" where
  "bad_trap trap \<longleftrightarrow> 0xff < sint trap \<or> sint trap < 0x20 \<or> trap = M_VEC \<or> trap = M_VEC + 2"

definition irq_trap :: "u32 \<Rightarrow> bool" where
  "irq_trap trap \<longleftrightarrow> M_VEC < trap \<and> trap < S_VEC + 8"

definition CKpreProcessTrapAlloc ::
  "trap_stubs \<Rightarrow> u32 \<Rightarrow> addr \<Rightarrow> u32 \<Rightarrow> 'a RKERNEL_scheme \<Rightarrow> (ckresult \<times> 'a RKERNEL_scheme) option" where
  "CKpreProcessTrapAlloc T trap ckres flags s =
     (let head = trapHeads s ! unat trap in
      if bad_trap trap then Some (Some EINRESOURCE, s)
      else if head \<noteq> NIL then
        Some (CK_OK, set_trap ckres (\<lambda>t. t\<lparr>tr_stub := tr_stub (traps s head), tr_stubsize := tr_stubsize (traps s head),
          tr_retrostub := tr_retrostub (traps s head)\<rparr>) s)
      else if irq_trap trap then
        let template = (if S_VEC \<le> trap then fwd_global_irq_templ_th T else fwd_global_irq_templ_bh T);
            sz = (if S_VEC \<le> trap then SIRQLEN T else MIRQLEN T)
        in do {
          (stub, s1) \<leftarrow> with_mem (CKmemAllocAlign sz 4) s;
          let s2 = set_trap ckres (\<lambda>t. t\<lparr>tr_stubsize := sz, tr_stub := stub\<rparr>) s1;
          let s3 = s2\<lparr>kcode := copy_stub trap template stub (kcode s2)\<rparr>;
          Some (CK_OK, CKenableIRQ (trap - M_VEC) (CKsetVector stub (ucast trap) (D_PRESENT + D_INT + D_DPL3) s3))
        }
      else do {
        (stub, s1) \<leftarrow> with_mem (CKmemAllocAlign (STUBLEN T) 4) s;
        let g = IDT s1 ! unat trap;
        let s2 = set_trap ckres (\<lambda>t. t\<lparr>tr_stubsize := STUBLEN T, tr_stub := stub,
          tr_retrostub := ucast (offset_low g) AND push_bit 16 (ucast (offset_high g))\<rparr>) s1;
        let s3 = s2\<lparr>kcode := copy_stub trap (fwd_global_template T) stub (kcode s2)\<rparr>;
        Some (CK_OK, CKsetVector stub (ucast trap) (D_PRESENT + D_TRAP + D_DPL3) s3)
      })"

definition CKpostProcessTrapAlloc :: "trap_stubs \<Rightarrow> addr \<Rightarrow> 'a RKERNEL_scheme \<Rightarrow> 'a RKERNEL_scheme option" where
  "CKpostProcessTrapAlloc T res s =
     (let t = traps s res; trap = tr_trap t in
      if trapHeads s ! unat trap = res \<and> ntp t = NIL then
        with_free (tr_stub t) (tr_stubsize t)
          (if irq_trap trap
           then CKsetVector (spurious_int T) (ucast trap) (D_PRESENT + D_TRAP + D_DPL3) (CKdisableIRQ (trap - M_VEC) s)
           else CKsetVector (tr_retrostub t) (ucast trap) (D_PRESENT + D_TRAP + D_DPL3) s)
      else Some s)"

section \<open>Traps\<close>

definition CKallocTrap ::
  "trap_stubs \<Rightarrow> addr \<Rightarrow> addr \<Rightarrow> u32 \<Rightarrow> 'a RKERNEL_scheme \<Rightarrow> (ckresult \<times> 'a RKERNEL_scheme) option" where
  "CKallocTrap T resource owner flags s =
     (let res = uresources s resource; trap = res_0 res in
      if \<not> CKvalidThread owner s then Some (Some ENOVALIDTHREAD, s)
      else do {
        (ckres, s1) \<leftarrow> with_mem (CKmemAlloc sizeof_CKTrapAlloc) s;
        if ckres = NIL then Some (Some ENOMEM, s1)
        else do {
          l \<leftarrow> CKenterCritical (resourceAllocLock s1);
          (err, s2) \<leftarrow> CKpreProcessTrapAlloc T trap ckres flags (s1\<lparr>resourceAllocLock := l\<rparr>);
          if err \<noteq> CK_OK then
            map_option (\<lambda>s3. (err, s3))
              (with_free ckres sizeof_TrapAlloc (s2\<lparr>resourceAllocLock := CKexitCritical (resourceAllocLock s2)\<rparr>))
          else
            let s3 = s2\<lparr>cres := link_resource ckres (trap_res (threads s2 owner)) (cres s2)\<rparr>;
                s4 = set_thread owner (\<lambda>t. t\<lparr>trap_res := ckres\<rparr>) s3;
                s5 = set_trap ckres (\<lambda>t. t\<lparr>ntp := trapHeads s4 ! unat trap\<rparr>) s4;
                s6 = s5\<lparr>trapHeads := (trapHeads s5)[unat trap := ckres], resourceAllocLock := CKexitCritical (resourceAllocLock s5)\<rparr>;
                s7 = set_cres ckres (\<lambda>c. c\<lparr>r_sig := SIGTRAP, r_owner := owner, r_flags := flags\<rparr>) s6;
                s8 = set_trap ckres (\<lambda>t. t\<lparr>tr_trap := trap, tr_sigThread := res_1 res, tr_priority := res_2 res\<rparr>) s7
            in Some (CK_OK, set_uresource resource (\<lambda>u. u\<lparr>res_0 := ckres\<rparr>) s8)
        }
      })"

text \<open>The loop that looks for the position before \<open>res\<close>.\<close>

partial_function (option) trap_pos :: "(addr \<Rightarrow> CKTrapAlloc) \<Rightarrow> addr \<Rightarrow> addr \<Rightarrow> addr option" where
  "trap_pos R res pos = (if ntp (R pos) = res then trap_pos R res (ntp (R pos)) else Some pos)"

definition unchain_trap :: "addr \<Rightarrow> 'a RKERNEL_scheme \<Rightarrow> 'a RKERNEL_scheme option" where
  "unchain_trap res s =
     (let i = unat (tr_trap (traps s res)); head = trapHeads s ! i in
      if head = res then Some (s\<lparr>trapHeads := (trapHeads s)[i := ntp (traps s res)]\<rparr>)
      else map_option (\<lambda>pos. set_trap pos (\<lambda>t. t\<lparr>ntp := ntp (traps s res)\<rparr>) s)
        (trap_pos (traps s) res (ntp (traps s head))))"

definition CKfreeTrap :: "trap_stubs \<Rightarrow> addr \<Rightarrow> 'a RKERNEL_scheme \<Rightarrow> (ckresult \<times> 'a RKERNEL_scheme) option" where
  "CKfreeTrap T res s =
     do {
       s1 \<leftarrow> CKpostProcessTrapAlloc T res s;
       l \<leftarrow> CKenterCritical (resourceAllocLock s1);
       let owner = r_owner (cres s1 res);
       let (head, C) = unlink_resource res (trap_res (threads s1 owner), cres s1);
       s2 \<leftarrow> unchain_trap res (set_thread owner (\<lambda>t. t\<lparr>trap_res := head\<rparr>) (s1\<lparr>cres := C\<rparr>));
       s3 \<leftarrow> with_free res sizeof_CKTrapAlloc (s2\<lparr>resourceAllocLock := CKexitCritical l\<rparr>);
       Some (CK_OK, s3)
     }"

text \<open>
  Every allocator of the interrupt gets a signal. \<open>CKsendSignal\<close> and \<open>CKprioritise\<close> run
  between \<open>CKlock\<close> and \<open>CKunlock\<close>; whether the signal could be sent is not looked at.
\<close>

definition prioritise_thread :: "addr \<Rightarrow> 'a SCHED_scheme \<Rightarrow> 'a SCHED_scheme option" where
  "prioritise_thread thread = on_heap ht_timesharing (CKprioritise thread)"

definition signal_allocator :: "u32 \<Rightarrow> CKTrapAlloc \<Rightarrow> 'a RKERNEL_scheme \<Rightarrow> 'a RKERNEL_scheme option" where
  "signal_allocator intr t s =
     do {
       (_, s1) \<leftarrow> CKsendSignal (tr_sigThread t) SIGNLINT intr (tr_priority t) (CKlock s);
       s2 \<leftarrow> prioritise_thread (tr_sigThread t) s1;
       Some (CKunlock s2)
     }"

partial_function (option) forward_loop :: "u32 \<Rightarrow> addr \<Rightarrow> 'a RKERNEL_scheme \<Rightarrow> 'a RKERNEL_scheme option" where
  "forward_loop intr al s =
     (if al = NIL then Some s
      else Option.bind (signal_allocator intr (traps s al) s)
        (\<lambda>s1. forward_loop intr (ntp (traps s1 al)) s1))"

definition CKforwardGlobalInterrupt :: "u32 \<Rightarrow> u32 \<Rightarrow> 'a RKERNEL_scheme \<Rightarrow> 'a RKERNEL_scheme option" where
  "CKforwardGlobalInterrupt ds intr s =
     map_option (\<lambda>s1. if doingRealtime s1 = 0 \<and> schedLock s1 = 0 then quantumDone s1 else s1)
       (forward_loop intr (trapHeads s ! unat intr) s)"

section \<open>Physical memory\<close>

definition CKallocPhysRegion :: "addr \<Rightarrow> addr \<Rightarrow> u32 \<Rightarrow> 'a RKERNEL_scheme \<Rightarrow> (ckresult \<times> 'a RKERNEL_scheme) option" where
  "CKallocPhysRegion resource owner flags s =
     (if \<not> CKvalidKernel owner s then Some (Some ENOVALIDTHREAD, s)
      else do {
        (ckres, s1) \<leftarrow> with_mem (CKmemAlloc sizeof_CKPhysRegionAlloc) s;
        if ckres = NIL then Some (Some ENOMEM, s1)
        else do {
          (block, s2) \<leftarrow> with_mem (CKmemAllocAlign PAGEBLOCKSIZE PAGEBLOCKBITS) s1;
          let start = PHYS block;
          let s3 = s2\<lparr>physregions := (physregions s2)(ckres := (physregions s2 ckres)\<lparr>ph_start := start\<rparr>)\<rparr>;
          if start = 0 then map_option (\<lambda>s4. (Some ENOMEM, s4)) (with_free ckres sizeof_CKPhysRegionAlloc s3)
          else do {
            let s4 = s3\<lparr>physregions := (physregions s3)(ckres := (physregions s3 ckres)\<lparr>ph_length := 128\<rparr>)\<rparr>;
            s5 \<leftarrow> link_locked ckres (\<lambda>s. physregion_res (kernels s owner))
              (\<lambda>h s. s\<lparr>kernels := (kernels s)(owner := (kernels s owner)\<lparr>physregion_res := h\<rparr>)\<rparr>) s4;
            let s6 = set_cres ckres (\<lambda>c. c\<lparr>r_sig := SIGPHYSREGION, r_owner := owner\<rparr>) s5;
            Some (CK_OK, set_uresource resource (\<lambda>u. u\<lparr>res_0 := ckres, res_1 := start\<rparr>) s6)
          }
        }
      })"

definition CKfreePhysRegion :: "addr \<Rightarrow> 'a RKERNEL_scheme \<Rightarrow> (ckresult \<times> 'a RKERNEL_scheme) option" where
  "CKfreePhysRegion res s =
     (let owner = r_owner (cres s res) in
      do {
        s1 \<leftarrow> with_free (ph_start (physregions s res)) PAGEBLOCKSIZE s;
        s2 \<leftarrow> unlink_locked res (\<lambda>s. physregion_res (kernels s owner))
          (\<lambda>h s. s\<lparr>kernels := (kernels s)(owner := (kernels s owner)\<lparr>physregion_res := h\<rparr>)\<rparr>) s1;
        s3 \<leftarrow> with_free res sizeof_CKPhysRegionAlloc s2;
        Some (CK_OK, s3)
      })"

section \<open>The system calls\<close>

definition CKresourceAlloc ::
  "trap_stubs \<Rightarrow> addr \<Rightarrow> addr \<Rightarrow> u32 \<Rightarrow> 'a RKERNEL_scheme \<Rightarrow> (ckresult \<times> 'a RKERNEL_scheme) option" where
  "CKresourceAlloc T resource owner flags s =
     (let sig = typeSignature (uresources s resource) in
      if sig = SIGPHYSREGION then CKallocPhysRegion resource owner flags s
      else if sig = SIGTRAP then CKallocTrap T resource owner flags s
      else if sig = SIGDMA then CKallocDMA resource owner flags s
      else if sig = SIGIOREGION then CKallocIORegion resource owner flags s
      else Some (CK_OK, s))"

definition CKresourceFree :: "trap_stubs \<Rightarrow> addr \<Rightarrow> 'a RKERNEL_scheme \<Rightarrow> (ckresult \<times> 'a RKERNEL_scheme) option" where
  "CKresourceFree T resource s =
     (let sig = r_sig (cres s resource) in
      if sig = SIGPHYSREGION then CKfreePhysRegion resource s
      else if sig = SIGTRAP then CKfreeTrap T resource s
      else if sig = SIGDMA then CKfreeDMA resource s
      else if sig = SIGIOREGION then CKfreeIORegion resource s
      else Some (CK_OK, s))"

end
