(* ===== verification/CK_Ports.thy ===== *)
theory CK_Ports
  imports CK_Resource
begin

text \<open>
  The port regions of \<^verbatim>\<open>CK/resource.c\<close>: the sorted list behind \<open>IOfirstAlloc\<close>, the search
  for a gap in it, and what allocating and freeing a region do to the list, to the owner's
  resources and to the kernel's memory.
\<close>

section \<open>The list of port regions\<close>

text \<open>
  The static head \<open>IOfirstAlloc\<close> and behind it the regions in the order of their ports, no two
  of them overlapping.
\<close>

abbreviation io_end :: "(addr \<Rightarrow> CKIOregionAlloc) \<Rightarrow> addr \<Rightarrow> nat" where
  "io_end R x \<equiv> unat (io_base (R x)) + unat (io_limit (R x))"

abbreviation io_chain :: "(addr \<Rightarrow> CKIOregionAlloc) \<Rightarrow> addr \<Rightarrow> addr list \<Rightarrow> bool" where
  "io_chain R h xs \<equiv> dlist (\<lambda>x. io_nextAlloc (R x)) (\<lambda>x. io_prevAlloc (R x)) h (h # xs)"

definition io_sorted :: "(addr \<Rightarrow> CKIOregionAlloc) \<Rightarrow> addr list \<Rightarrow> bool" where
  "io_sorted R xs \<longleftrightarrow> sorted_wrt (\<lambda>x y. io_end R x \<le> unat (io_base (R y))) xs
     \<and> (\<forall>x \<in> set xs. io_limit (R x) \<noteq> 0 \<and> io_end R x < 2 ^ 32)"

definition io_wf :: "'a RKERNEL_scheme \<Rightarrow> addr list \<Rightarrow> bool" where
  "io_wf s xs \<longleftrightarrow> io_chain (ioregions s) (IOfirstAlloc s) xs \<and> distinct (IOfirstAlloc s # xs) \<and> io_sorted (ioregions s) xs"

definition ports :: "u32 \<Rightarrow> u32 \<Rightarrow> nat set" where
  "ports base limit = {unat base ..< unat base + unat limit}"

definition io_overlap :: "(addr \<Rightarrow> CKIOregionAlloc) \<Rightarrow> addr list \<Rightarrow> u32 \<Rightarrow> u32 \<Rightarrow> bool" where
  "io_overlap R xs base limit \<longleftrightarrow> (\<exists>x \<in> set xs. ports base limit \<inter> ports (io_base (R x)) (io_limit (R x)) \<noteq> {})"

lemma ports_meet:
  "unat b < unat c + unat m \<Longrightarrow> unat c < unat b + unat l \<Longrightarrow> 0 < l \<Longrightarrow> 0 < m \<Longrightarrow> ports b l \<inter> ports c m \<noteq> {}"
proof -
  assume a: "unat b < unat c + unat m" "unat c < unat b + unat l" "0 < l" "0 < m"
  then have "max (unat b) (unat c) \<in> ports b l \<inter> ports c m" by (auto simp: ports_def word_less_nat_alt)
  then show ?thesis by blast
qed

lemma io_next:
  assumes "io_chain R h (us @ vs)"
  shows "io_nextAlloc (R (last (h # us))) = first_or NIL vs"
proof -
  have "dlist (\<lambda>x. io_nextAlloc (R x)) (\<lambda>x. io_prevAlloc (R x)) h (butlast (h # us) @ last (h # us) # vs)"
    using assms append_butlast_last_id[of "h # us"] by (metis append_Cons append.assoc append_Nil list.distinct(1))
  from dlist_links(2)[OF this] show ?thesis .
qed

lemma io_sorted_append:
  "io_sorted R (us @ vs) \<longleftrightarrow> io_sorted R us \<and> io_sorted R vs
     \<and> (\<forall>x \<in> set us. \<forall>y \<in> set vs. io_end R x \<le> unat (io_base (R y)))"
  by (auto simp: io_sorted_def sorted_wrt_append)

lemma ports_apart:
  "unat b + unat l \<le> unat c \<Longrightarrow> ports b l \<inter> ports c m = {}" "unat c + unat m \<le> unat b \<Longrightarrow> ports b l \<inter> ports c m = {}"
  by (auto simp: ports_def)

text \<open>The regions \<open>ps\<close> before and \<open>qs\<close> behind the gap that \<open>g\<close> stands for.\<close>

definition gap_at :: "(addr \<Rightarrow> CKIOregionAlloc) \<Rightarrow> addr \<Rightarrow> u32 \<Rightarrow> u32 \<Rightarrow> addr list \<Rightarrow> addr list \<Rightarrow> addr \<Rightarrow> bool" where
  "gap_at R h base limit ps qs g \<longleftrightarrow> g = last (h # ps) \<and> (\<forall>x \<in> set ps. io_end R x \<le> unat base)
     \<and> (\<forall>x \<in> set qs. unat base + unat limit \<le> unat (io_base (R x)))"

lemma gap_no_overlap: "gap_at R h base limit ps qs g \<Longrightarrow> \<not> io_overlap R (ps @ qs) base limit"
  using ports_apart unfolding gap_at_def io_overlap_def by fastforce

text \<open>The search: the regions passed so far end before the new one, the current one begins before its end.\<close>

definition gap_found :: "(addr \<Rightarrow> CKIOregionAlloc) \<Rightarrow> addr \<Rightarrow> u32 \<Rightarrow> u32 \<Rightarrow> addr list \<Rightarrow> addr option \<Rightarrow> bool" where
  "gap_found R h base limit xs r \<longleftrightarrow> (\<exists>g. r = Some g \<and> (g = NIL \<and> io_overlap R xs base limit
     \<or> (\<exists>ps qs. xs = ps @ qs \<and> gap_at R h base limit ps qs g)))"

lemma find_gap_step:
  assumes a: "io_chain R h (us @ vs)" "distinct (h # us @ vs)" "io_sorted R (us @ vs)"
    "limit \<noteq> 0" "unat base + unat limit < 2 ^ 32"
    "\<forall>x \<in> set (butlast us). io_end R x \<le> unat base"
    "us \<noteq> [] \<Longrightarrow> unat (io_base (R (last us))) < unat base + unat limit"
  shows "gap_found R h base limit (us @ vs) (IOfindGap_loop h R base limit (last (h # us))) \<or> (\<exists>v ws. vs = v # ws
    \<and> IOfindGap_loop h R base limit (last (h # us)) = IOfindGap_loop h R base limit v
    \<and> (\<forall>x \<in> set us. io_end R x \<le> unat base) \<and> unat (io_base (R v)) < unat base + unat limit)"
proof -
  let ?g = "last (h # us)"
  have nx: "io_nextAlloc (R ?g) = first_or NIL vs" by (rule io_next[OF a(1)])
  have gh: "?g \<noteq> h \<longleftrightarrow> us \<noteq> []" using a(2) by (cases us rule: rev_cases) auto
  have e: "unat (io_base (R x) + io_limit (R x)) = io_end R x" if "x \<in> set (us @ vs)" for x
    using a(3) that unfolding io_sorted_def by (intro unat_add_small) auto
  have b: "unat (base + limit) = unat base + unat limit" using a(5) by (intro unat_add_small) auto
  have nil: "NIL \<notin> set vs" using dseg_NIL[OF a(1)] by simp
  consider (inside) "us \<noteq> []" "unat base < io_end R (last us)"
    | (passed) "us = [] \<or> io_end R (last us) \<le> unat base" by force
  then show ?thesis
  proof cases
    case inside
    have l: "last us \<in> set us" using inside by simp
    have "ports base limit \<inter> ports (io_base (R (last us))) (io_limit (R (last us))) \<noteq> {}"
      using inside a(3,4,7) l by (intro ports_meet) (auto simp: io_sorted_def word_gt_0)
    then have "io_overlap R (us @ vs) base limit" using l unfolding io_overlap_def by auto
    moreover have "IOfindGap_loop h R base limit ?g = Some NIL"
      using inside gh e[of "last us"] l by (subst IOfindGap_loop.simps) (simp add: word_less_nat_alt)
    ultimately show ?thesis unfolding gap_found_def by blast
  next
    case passed
    have p: "\<forall>x \<in> set us. io_end R x \<le> unat base"
      using passed a(6) by (cases us rule: rev_cases) auto
    have n: "\<not> (?g \<noteq> h \<and> base < io_base (R ?g) + io_limit (R ?g))"
      using passed gh e[of "last us"] by (auto simp: word_less_nat_alt)
    show ?thesis
    proof (cases "vs = [] \<or> unat base + unat limit \<le> unat (io_base (R (hd vs)))")
      case True
      have q: "\<forall>x \<in> set vs. unat base + unat limit \<le> unat (io_base (R x))"
        using True a(3) by (cases vs) (auto simp: io_sorted_def sorted_wrt_append)
      have "IOfindGap_loop h R base limit ?g = Some ?g"
        using n True nx nil b by (subst IOfindGap_loop.simps) (cases vs; auto simp: word_le_nat_alt)
      moreover have "gap_at R h base limit us vs ?g" using p q by (simp add: gap_at_def)
      ultimately show ?thesis unfolding gap_found_def by blast
    next
      case False
      then obtain v ws where v: "vs = v # ws" "\<not> unat base + unat limit \<le> unat (io_base (R v))" by (cases vs) auto
      have "IOfindGap_loop h R base limit ?g = IOfindGap_loop h R base limit v"
        using n v nx nil b by (subst IOfindGap_loop.simps) (auto simp: word_le_nat_alt)
      then show ?thesis using p v by auto
    qed
  qed
qed

lemma find_gap_loop:
  assumes "io_chain R h (us @ vs)" "distinct (h # us @ vs)" "io_sorted R (us @ vs)"
    and "limit \<noteq> 0" "unat base + unat limit < 2 ^ 32"
    and "\<forall>x \<in> set (butlast us). io_end R x \<le> unat base"
    and "us \<noteq> [] \<Longrightarrow> unat (io_base (R (last us))) < unat base + unat limit"
  shows "gap_found R h base limit (us @ vs) (IOfindGap_loop h R base limit (last (h # us)))"
  using assms
proof (induction vs arbitrary: us)
  case Nil
  then show ?case using find_gap_step[of R h us "[]" limit base] by blast
next
  case (Cons v vs)
  note IH = Cons.IH and a = Cons.prems
  show ?case
  proof (cases "gap_found R h base limit (us @ v # vs) (IOfindGap_loop h R base limit (last (h # us)))")
    case False
    then have f: "IOfindGap_loop h R base limit (last (h # us)) = IOfindGap_loop h R base limit v"
      "\<forall>x \<in> set us. io_end R x \<le> unat base" "unat (io_base (R v)) < unat base + unat limit"
      using find_gap_step[OF a] by auto
    have "gap_found R h base limit ((us @ [v]) @ vs) (IOfindGap_loop h R base limit (last (h # us @ [v])))"
      by (rule IH) (use a(1-5) f in simp_all)
    then show ?thesis using f(1) by simp
  qed
qed

lemma CKIOfindGap_ok:
  assumes w: "io_wf s xs" and "limit \<noteq> 0" "unat base + unat limit < 2 ^ 32"
  shows "gap_found (ioregions s) (IOfirstAlloc s) base limit xs (CKIOfindGap base limit s)"
  using find_gap_loop[of "ioregions s" "IOfirstAlloc s" "[]" xs limit base] assms
  by (simp add: io_wf_def CKIOfindGap_def)

section \<open>Entering and removing a region\<close>

lemma last_or_last: "last_or e (h # ps) = last (h # ps)"
  by (cases ps rule: rev_cases) simp_all

lemma insert_region_chain:
  assumes c: "io_chain R h (ps @ qs)" "distinct (h # ps @ a # qs)" and a: "a \<noteq> NIL" and g: "g = last (h # ps)"
  shows "io_chain (insert_region a g base limit R) h (ps @ a # qs)"
proof -
  let ?S = "insert_region a g base limit R"
  have gn: "g \<in> set (h # ps)" unfolding g by (rule last_in_set) simp
  then have ga: "g \<noteq> a" "g \<noteq> NIL" using c(2) dseg_NIL[OF c(1)] by auto
  have nx: "io_nextAlloc (R g) = first_or NIL qs" unfolding g by (rule io_next[OF c(1)])
  have qa: "first_or NIL qs \<noteq> a" using a c(2) by (cases qs) auto
  have "(\<lambda>x. io_nextAlloc (?S x)) = (\<lambda>x. io_nextAlloc (R x))(a := first_or NIL qs, g := a)"
    "(\<lambda>x. io_prevAlloc (?S x)) = (if first_or NIL qs \<noteq> NIL then (\<lambda>x. io_prevAlloc (R x))(a := g, first_or NIL qs := a)
       else (\<lambda>x. io_prevAlloc (R x))(a := g))"
    using ga qa by (auto simp: insert_region_def Let_def nx fun_eq_iff)
  note f = this
  have d: "dlist (\<lambda>x. io_nextAlloc (R x)) (\<lambda>x. io_prevAlloc (R x)) h ((h # ps) @ qs)" "distinct ((h # ps) @ a # qs)"
    using c by simp_all
  have "g = last_or NIL (h # ps)" unfolding last_or_last by (rule g)
  from dlist_insert[OF d a this refl] show ?thesis
    unfolding f if_P[OF ga(2)] append_Cons .
qed

lemma insert_region_fields:
  "io_base (insert_region a g base limit R x) = (if x = a then base else io_base (R x))"
  "io_limit (insert_region a g base limit R x) = (if x = a then limit else io_limit (R x))"
  by (simp_all add: insert_region_def Let_def)

lemma insert_region_sorted:
  assumes s: "io_sorted R (ps @ qs)" "a \<notin> set (ps @ qs)" and g: "gap_at R h base limit ps qs g"
    and l: "limit \<noteq> 0" "unat base + unat limit < 2 ^ 32"
  shows "io_sorted (insert_region a g base limit R) (ps @ a # qs)"
proof -
  have e: "io_end (insert_region a g base limit R) x = io_end R x" "io_base (insert_region a g base limit R x) = io_base (R x)"
    "io_limit (insert_region a g base limit R x) = io_limit (R x)" if "x \<in> set (ps @ qs)" for x
    using that s(2) by (auto simp: insert_region_fields)
  have "io_sorted (insert_region a g base limit R) ps" "io_sorted (insert_region a g base limit R) qs"
    using s(1) e unfolding io_sorted_append unfolding io_sorted_def by (auto elim!: sorted_wrt_mono_rel[rotated])
  then show ?thesis using s g l e
    by (auto simp: io_sorted_append gap_at_def) (auto simp: io_sorted_def insert_region_fields)
qed

lemma remove_region_ok:
  assumes c: "io_chain R h (us @ a # vs)" "distinct (h # us @ a # vs)" and s: "io_sorted R (us @ a # vs)"
  shows "io_chain (remove_region a R) h (us @ vs)" "io_sorted (remove_region a R) (us @ vs)"
    and "io_base (remove_region a R x) = io_base (R x)" "io_limit (remove_region a R x) = io_limit (R x)"
proof -
  have d: "dlist (\<lambda>x. io_nextAlloc (R x)) (\<lambda>x. io_prevAlloc (R x)) h ((h # us) @ a # vs)" using c(1) by simp
  note l = dlist_links[OF d, unfolded last_or_last]
  have p: "last (h # us) \<noteq> a" "last (h # us) \<noteq> NIL" "first_or NIL vs \<noteq> a"
    using c(2) dseg_NIL[OF d] last_in_set[of "h # us"] l(3) by (cases vs; auto)+
  have "(\<lambda>x. io_nextAlloc (remove_region a R x)) = (\<lambda>x. io_nextAlloc (R x))(last (h # us) := first_or NIL vs)"
    "(\<lambda>x. io_prevAlloc (remove_region a R x)) = (if first_or NIL vs \<noteq> NIL then (\<lambda>x. io_prevAlloc (R x))(first_or NIL vs := last (h # us))
       else (\<lambda>x. io_prevAlloc (R x)))"
    using p by (auto simp: remove_region_def Let_def l(1,2) fun_eq_iff)
  then show "io_chain (remove_region a R) h (us @ vs)"
    using dlist_remove[OF d] c(2) unfolding l(1,2) if_P[OF p(2)] by (simp only: append_Cons)
  show f: "io_base (remove_region a R x) = io_base (R x)" "io_limit (remove_region a R x) = io_limit (R x)" for x
    by (simp_all add: remove_region_def Let_def)
  show "io_sorted (remove_region a R) (us @ vs)"
    using s unfolding io_sorted_def f by (auto simp: sorted_wrt_append)
qed

section \<open>The lists of an owner's resources\<close>

interpretation res: linked_headers r_prev r_next "\<lambda>x r. r\<lparr>r_prev := x\<rparr>" "\<lambda>x r. r\<lparr>r_next := x\<rparr>"
  by unfold_locales simp_all

abbreviation resources :: "(addr \<Rightarrow> CKResource) \<Rightarrow> addr \<Rightarrow> addr list \<Rightarrow> bool" where
  "resources C head rs \<equiv> dlist (\<lambda>x. r_prev (C x)) (\<lambda>x. r_next (C x)) head rs"

lemma link_resource_ok:
  assumes "resources C head rs" "distinct rs" "a \<notin> set rs" "a \<noteq> NIL"
  shows "resources (link_resource a head C) a (a # rs)"
proof -
  have e: "link_resource a head C = dll_link (\<lambda>x r. r\<lparr>r_next := x\<rparr>) a head (C(a := (C a)\<lparr>r_next := NIL, r_prev := head\<rparr>))"
    by (simp add: link_resource_def dll_link_def)
  show ?thesis unfolding e by (rule res.link_ok[OF assms]) simp_all
qed

lemma link_resource_fields:
  "r_sig (link_resource a head C x) = r_sig (C x)" "r_owner (link_resource a head C x) = r_owner (C x)"
  "r_flags (link_resource a head C x) = r_flags (C x)"
  by (simp_all add: link_resource_def Let_def)

lemma unlink_resource_ok:
  assumes "resources C head (us @ a # vs)" "distinct (us @ a # vs)" "unlink_resource a (head, C) = (head', C')"
  shows "resources C' head' (us @ vs)"
proof -
  have e: "unlink_resource a = dll_unlink r_prev r_next (\<lambda>x r. r\<lparr>r_prev := x\<rparr>) (\<lambda>x r. r\<lparr>r_next := x\<rparr>) a"
    by (simp add: unlink_resource_def dll_unlink_def)
  show ?thesis using res.unlink_ok(1)[OF assms(1,2) assms(3)[unfolded e]] .
qed

section \<open>Allocating a region\<close>

definition io_entered :: "'a RKERNEL_scheme \<Rightarrow> addr \<Rightarrow> addr \<Rightarrow> u32 \<Rightarrow> addr list \<Rightarrow> addr list \<Rightarrow> 'a RKERNEL_scheme \<Rightarrow> bool" where
  "io_entered s resource owner flags xs rs s' \<longleftrightarrow>
     (let a = res_0 (uresources s' resource); R = ioregions s' in
      (\<exists>ps qs. xs = ps @ qs \<and> io_wf s' (ps @ a # qs)) \<and> unat a \<in> CKmem_avail (ckmem s)
      \<and> io_base (R a) = res_0 (uresources s resource) \<and> io_limit (R a) = res_1 (uresources s resource)
      \<and> (\<forall>x \<in> set xs. io_base (R x) = io_base (ioregions s x) \<and> io_limit (R x) = io_limit (ioregions s x))
      \<and> r_sig (cres s' a) = SIGIOREGION \<and> r_owner (cres s' a) = owner \<and> r_flags (cres s' a) = flags
      \<and> resources (cres s') (ioregion_res (threads s' owner)) (a # rs)
      \<and> IOAllocLock s' = 0 \<and> resourceAllocLock s' = 0 \<and> CKmem_ok (ckmem s')
      \<and> unat a + unat sizeof_CKIOregionAlloc \<le> 2 ^ 32 \<and> bytes a sizeof_CKIOregionAlloc \<inter> CKmem_avail (ckmem s') = {}
      \<and> CKmem_avail (ckmem s) = CKmem_avail (ckmem s') \<union> bytes a sizeof_CKIOregionAlloc)"

lemma fresh_block:
  assumes "CKmem_ok m" "CKmem_sound n" "CKmemAlloc n m = Some (a, m')" "a \<noteq> NIL"
  shows "unat a \<in> CKmem_avail m" "unat a \<notin> CKmem_avail m'" "CKmem_ok m'"
proof -
  have "unat a \<in> bytes a (AdjustSize n)" using AdjustSize_pos[OF assms(2)] by (simp add: bytes_def word_less_nat_alt)
  then show "unat a \<in> CKmem_avail m" "unat a \<notin> CKmem_avail m'" using ck.alloc_block[OF assms] by blast+
  show "CKmem_ok m'" using ck.alloc_ok[OF assms(1-3)] .
qed

lemma io_head_live:
  assumes "io_wf s (ps @ qs)"
  shows "last (IOfirstAlloc s # ps) \<noteq> NIL"
proof -
  have "NIL \<notin> set ((IOfirstAlloc s # ps) @ qs)" using assms dseg_NIL unfolding io_wf_def by fastforce
  then show ?thesis using last_in_set[of "IOfirstAlloc s # ps"] by auto
qed

lemma alloc_io_enters:
  fixes s :: "'a RKERNEL_scheme"
  assumes w: "io_wf s xs" and m: "CKmem_ok (ckmem s)" and v: "CKvalidThread owner s"
    and lk: "IOAllocLock s = 0" "resourceAllocLock s = 0"
    and b: "res_0 (uresources s resource) = base" "res_1 (uresources s resource) = limit"
    and l: "limit \<noteq> 0" "unat base + unat limit < 2 ^ 32"
    and rs: "resources (cres s) (ioregion_res (threads s owner)) rs" "distinct rs"
    and live: "\<forall>x \<in> set (IOfirstAlloc s # xs @ rs). unat x \<notin> CKmem_avail (ckmem s)"
    and g: "xs = ps @ qs" "gap_at (ioregions s) (IOfirstAlloc s) base limit ps qs g" "CKIOfindGap base limit s = Some g"
    and al: "CKmemAlloc sizeof_CKIOregionAlloc (ckmem s) = Some (a, m')" "a \<noteq> NIL"
  shows "\<exists>s'. CKallocIORegion resource owner flags s = Some (CK_OK, s') \<and> io_entered s resource owner flags xs rs s'"
proof -
  have n: "CKmem_sound sizeof_CKIOregionAlloc" by (simp add: CKmem_sound_def sizeof_CKIOregionAlloc_def)
  note f = fresh_block[OF m n al]
  have ad: "AdjustSize sizeof_CKIOregionAlloc = sizeof_CKIOregionAlloc" by (simp add: AdjustSize_def sizeof_CKIOregionAlloc_def)
  have bl: "unat a + unat sizeof_CKIOregionAlloc \<le> 2 ^ 32" "bytes a sizeof_CKIOregionAlloc \<inter> CKmem_avail m' = {}"
    "CKmem_avail (ckmem s) = CKmem_avail m' \<union> bytes a sizeof_CKIOregionAlloc"
    using ck.alloc_block[OF m n al] unfolding ad by blast+
  have an: "a \<notin> set (IOfirstAlloc s # xs @ rs)" using f(1) live by blast
  have gn: "g \<noteq> NIL" using g(1,2) w io_head_live[of s ps qs] by (simp add: gap_at_def)
  let ?R = "insert_region a g base limit (ioregions s)"
  let ?C = "(cres s)(a := (cres s a)\<lparr>r_sig := SIGIOREGION, r_owner := owner, r_flags := flags\<rparr>)"
  let ?h = "ioregion_res (threads s owner)"
  define s' where "s' = s\<lparr>ckmem := m', ioregions := ?R, cres := link_resource a ?h ?C,
    threads := (threads s)(owner := (threads s owner)\<lparr>ioregion_res := a\<rparr>),
    uresources := (uresources s)(resource := (uresources s resource)\<lparr>res_0 := a\<rparr>)\<rparr>"
  have r: "CKallocIORegion resource owner flags s = Some (CK_OK, s')"
    using v lk b g(3) gn al by (simp add: CKallocIORegion_def Let_def link_locked_def with_mem_def s'_def)
  have wf: "io_wf s' (ps @ a # qs)"
    unfolding io_wf_def s'_def
    using insert_region_chain[of "ioregions s" "IOfirstAlloc s" ps qs a g base limit]
      insert_region_sorted[OF _ _ g(2) l, of a] w g(1,2) an al(2) by (simp only: io_wf_def gap_at_def) auto
  have "resources (link_resource a ?h ?C) a (a # rs)"
  proof (rule link_resource_ok[OF _ rs(2) _ al(2)])
    have "(\<lambda>x. r_prev (?C x)) = (\<lambda>x. r_prev (cres s x))" "(\<lambda>x. r_next (?C x)) = (\<lambda>x. r_next (cres s x))" by auto
    then show "resources ?C ?h rs" using rs(1) by (simp only:)
  qed (use an in simp)
  moreover have "ioregion_res (threads s' owner) = a" "cres s' = link_resource a ?h ?C" by (simp_all add: s'_def)
  ultimately have rl: "resources (cres s') (ioregion_res (threads s' owner)) (a # rs)" by (simp only:)
  have "\<forall>x \<in> set xs. x \<noteq> a" using an by auto
  then have fs: "\<forall>x \<in> set xs. io_base (ioregions s' x) = io_base (ioregions s x) \<and> io_limit (ioregions s' x) = io_limit (ioregions s x)"
    "io_base (ioregions s' a) = base" "io_limit (ioregions s' a) = limit" "res_0 (uresources s' resource) = a"
    "r_sig (cres s' a) = SIGIOREGION" "r_owner (cres s' a) = owner" "r_flags (cres s' a) = flags"
    "IOAllocLock s' = 0" "resourceAllocLock s' = 0" "ckmem s' = m'"
    using lk by (simp_all add: s'_def insert_region_fields link_resource_fields)
  have "io_entered s resource owner flags xs rs s'"
    unfolding io_entered_def Let_def fs(4) b
    by (intro conjI exI[of _ ps] exI[of _ qs] g(1) wf rl f fs(1-3,5-9)) (use f(3) bl fs(10) in simp_all)
  then show ?thesis using r by blast
qed

text \<open>Freeing one.\<close>

lemma free_io_ok:
  fixes s :: "'a RKERNEL_scheme"
  assumes w: "io_wf s (us @ a # vs)" and lk: "IOAllocLock s = 0" "resourceAllocLock s = 0" and m: "CKmem_ok (ckmem s)"
    and o: "r_owner (cres s a) = owner"
    and rs: "resources (cres s) (ioregion_res (threads s owner)) (ps @ a # qs)" "distinct (ps @ a # qs)"
    and bl: "unat a + unat sizeof_CKIOregionAlloc \<le> 2 ^ 32" "bytes a sizeof_CKIOregionAlloc \<inter> CKmem_avail (ckmem s) = {}"
  shows "\<exists>s'. CKfreeIORegion a s = Some (CK_OK, s') \<and> io_wf s' (us @ vs)
    \<and> resources (cres s') (ioregion_res (threads s' owner)) (ps @ qs) \<and> CKmem_ok (ckmem s')
    \<and> CKmem_avail (ckmem s') = CKmem_avail (ckmem s) \<union> bytes a sizeof_CKIOregionAlloc
    \<and> (\<forall>x. io_base (ioregions s' x) = io_base (ioregions s x) \<and> io_limit (ioregions s' x) = io_limit (ioregions s x))"
proof -
  have n: "CKmem_sound sizeof_CKIOregionAlloc" by (simp add: CKmem_sound_def sizeof_CKIOregionAlloc_def)
  have ad: "AdjustSize sizeof_CKIOregionAlloc = sizeof_CKIOregionAlloc" by (simp add: AdjustSize_def sizeof_CKIOregionAlloc_def)
  have a: "a \<noteq> NIL" using dlist_links(3)[OF rs(1)] .
  obtain m' where m': "CKmemFree a sizeof_CKIOregionAlloc (ckmem s) = Some m'" "CKmem_ok m'"
    "CKmem_avail m' = CKmem_avail (ckmem s) \<union> bytes a sizeof_CKIOregionAlloc"
    using ck.free_block[OF m n a] bl unfolding ad by blast
  obtain h C where u: "unlink_resource a (ioregion_res (threads s owner), cres s) = (h, C)" by fastforce
  define s' where "s' = s\<lparr>ioregions := remove_region a (ioregions s), cres := C,
    threads := (threads s)(owner := (threads s owner)\<lparr>ioregion_res := h\<rparr>), ckmem := m'\<rparr>"
  have r: "CKfreeIORegion a s = Some (CK_OK, s')"
    using lk o u m'(1) by (simp add: CKfreeIORegion_def unlink_locked_def with_free_def Let_def s'_def)
  have "io_wf s' (us @ vs)"
    using remove_region_ok(1,2)[of "ioregions s" "IOfirstAlloc s" us a vs] w unfolding io_wf_def s'_def by (simp only:) auto
  moreover have "ioregion_res (threads s' owner) = h" "cres s' = C" "ckmem s' = m'" "ioregions s' = remove_region a (ioregions s)"
    by (simp_all add: s'_def)
  ultimately show ?thesis using r m'(2,3) unlink_resource_ok[OF rs u] by (auto simp: remove_region_def Let_def simp del: dseg.simps)
qed

section \<open>A small system with resources\<close>

text \<open>The threads and the memory of \<open>om_kernel\<close>; ports 0x60 to 0x6f are taken; no traps.\<close>

definition res_kernel :: RKERNEL where
  "res_kernel = KERNEL.extend om_kernel (RKERNEL.fields
     (\<lambda>_. \<lparr>r_sig = 0, r_owner = 0, r_next = 0, r_prev = 0, r_flags = 0\<rparr>)
     (\<lambda>a. if a = 0x800 then \<lparr>typeSignature = SIGIOREGION, res_0 = 0x3f8, res_1 = 8, res_2 = 0\<rparr>
        else \<lparr>typeSignature = SIGTRAP, res_0 = 0x80, res_1 = 1, res_2 = 5\<rparr>)
     0 0x600
     (\<lambda>a. if a = 0x600 then \<lparr>io_base = 0, io_limit = 0, io_prevAlloc = 0, io_nextAlloc = 0x700\<rparr>
        else \<lparr>io_base = 0x60, io_limit = 0x10, io_prevAlloc = 0x600, io_nextAlloc = 0\<rparr>)
     0 (replicate 8 0) (\<lambda>_. 0) (replicate 256 0)
     (\<lambda>_. \<lparr>tr_trap = 0, tr_sigThread = 0, tr_priority = 0, ntp = 0, tr_stub = 0, tr_stubsize = 0, tr_retrostub = 0\<rparr>)
     (\<lambda>_. \<lparr>ph_start = 0, ph_length = 0\<rparr>)
     (replicate 256 \<lparr>offset_low = 0, selector = 0, access = 0, offset_high = 0\<rparr>) (\<lambda>_. 0) 0xfb 0xff (0xfb, 0xff))"

lemma res_kernel_base [simp]:
  "ckmem res_kernel = ckmem om_kernel" "threads res_kernel = threads om_kernel" "headers res_kernel = headers om_kernel"
  "heaps res_kernel = heaps om_kernel" "currtask res_kernel = currtask om_kernel" "idleLoop res_kernel = idleLoop om_kernel"
  "odg res_kernel = odg om_kernel" "threadObjHead res_kernel = threadObjHead om_kernel" "schedLock res_kernel = schedLock om_kernel"
  by (simp_all add: res_kernel_def KERNEL.defs RKERNEL.defs)

lemma res_kernel_fields [simp]:
  "uresources res_kernel 0x800 = \<lparr>typeSignature = SIGIOREGION, res_0 = 0x3f8, res_1 = 8, res_2 = 0\<rparr>"
  "resourceAllocLock res_kernel = 0" "IOAllocLock res_kernel = 0" "IOfirstAlloc res_kernel = 0x600"
  "ioregions res_kernel = (\<lambda>a. if a = 0x600 then \<lparr>io_base = 0, io_limit = 0, io_prevAlloc = 0, io_nextAlloc = 0x700\<rparr>
        else \<lparr>io_base = 0x60, io_limit = 0x10, io_prevAlloc = 0x600, io_nextAlloc = 0\<rparr>)"
  "cres res_kernel = (\<lambda>_. \<lparr>r_sig = 0, r_owner = 0, r_next = 0, r_prev = 0, r_flags = 0\<rparr>)"
  by (simp_all add: res_kernel_def KERNEL.defs RKERNEL.defs)

lemma res_kernel_io: "io_wf res_kernel [0x700]"
  by (simp add: io_wf_def io_sorted_def)

lemma res_kernel_owner: "CKvalidThread 1 res_kernel" "ioregion_res (threads om_kernel 1) = 0"
  by (simp_all add: CKvalidThread_def om_kernel_def no_header_def two_threads_def thread_of_def)

section \<open>Properties\<close>

lemma io_alloc_cases:
  fixes s :: "'a RKERNEL_scheme"
  assumes "io_wf s xs" and "CKmem_ok (ckmem s)" and "CKvalidThread owner s"
    and "IOAllocLock s = 0" and "resourceAllocLock s = 0"
    and "res_0 (uresources s resource) = base" and "res_1 (uresources s resource) = limit"
    and "unat base + unat limit < 2 ^ 32"
    and "resources (cres s) (ioregion_res (threads s owner)) rs" and "distinct rs"
    and "\<forall>x \<in> set (IOfirstAlloc s # xs @ rs). unat x \<notin> CKmem_avail (ckmem s)"
  shows "\<exists>r s'. CKallocIORegion resource owner flags s = Some (r, s')
    \<and> (if limit = 0 \<or> io_overlap (ioregions s) xs base limit then r = Some ERESOURCEBUSY \<and> s' = s
       else r = Some ENOMEM \<and> s' = s\<lparr>IOAllocLock := 1\<rparr> \<or> r = CK_OK \<and> io_entered s resource owner flags xs rs s')"
proof (cases "limit = 0 \<or> io_overlap (ioregions s) xs base limit")
  case True
  have "CKIOfindGap base limit s = Some NIL"
    using CKIOfindGap_ok[OF assms(1) _ assms(8)] True gap_no_overlap
    unfolding gap_found_def by (cases "limit = 0") (auto simp: CKIOfindGap_def)
  then have "CKallocIORegion resource owner flags s = Some (Some ERESOURCEBUSY, s\<lparr>IOAllocLock := 0\<rparr>)"
    using assms(3,4,6,7) by (simp add: CKallocIORegion_def Let_def)
  then show ?thesis using True assms(4) by simp
next
  case False
  obtain g ps qs where g: "CKIOfindGap base limit s = Some g" "xs = ps @ qs" "gap_at (ioregions s) (IOfirstAlloc s) base limit ps qs g"
    using CKIOfindGap_ok[OF assms(1) _ assms(8)] False unfolding gap_found_def by blast
  have n: "CKmem_sound sizeof_CKIOregionAlloc" by (simp add: CKmem_sound_def sizeof_CKIOregionAlloc_def)
  obtain a m' where al: "CKmemAlloc sizeof_CKIOregionAlloc (ckmem s) = Some (a, m')"
    using ck.alloc_returns[OF assms(2) n] by blast
  show ?thesis
  proof (cases "a = NIL")
    case True
    have gn: "g \<noteq> NIL" using g(2,3) assms(1) io_head_live[of s ps qs] by (simp add: gap_at_def)
    have "m' = ckmem s" using ck.alloc_fail[OF assms(2) n] al True by blast
    then have "CKallocIORegion resource owner flags s = Some (Some ENOMEM, s\<lparr>IOAllocLock := 1\<rparr>)"
      using True assms(3,4,6,7) g(1) gn al by (simp add: CKallocIORegion_def Let_def with_mem_def)
    then show ?thesis using False by auto
  next
    case an: False
    show ?thesis
      using alloc_io_enters[OF assms(1-7) _ assms(8-11) g(2,3,1) al an, of flags] False by (auto simp del: dseg.simps)
  qed
qed


lemma res_kernel_live: "\<forall>x \<in> set (IOfirstAlloc res_kernel # [0x700] @ []). unat x \<notin> CKmem_avail (ckmem res_kernel)"
  by (simp add: om_kernel_mem)


text \<open>C30: A region that was allocated and is freed again leaves the list of regions, the owner's
  resources and the kernel's memory as they were before (resource.c, \<open>CKresourceAlloc\<close>,
  \<open>CKresourceFree\<close>, \<open>CKallocIORegion\<close>, \<open>CKfreeIORegion\<close>).\<close>

theorem io_region_alloc_free:
  fixes s :: "'a RKERNEL_scheme"
  assumes "io_wf s xs" and "CKmem_ok (ckmem s)" and "CKvalidThread owner s"
    and "IOAllocLock s = 0" and "resourceAllocLock s = 0"
    and "res_0 (uresources s resource) = base" and "res_1 (uresources s resource) = limit"
    and "unat base + unat limit < 2 ^ 32" and "typeSignature (uresources s resource) = SIGIOREGION"
    and "resources (cres s) (ioregion_res (threads s owner)) rs" and "distinct rs"
    and "\<forall>x \<in> set (IOfirstAlloc s # xs @ rs). unat x \<notin> CKmem_avail (ckmem s)"
    and "CKresourceAlloc T resource owner flags s = Some (CK_OK, s1)"
  shows "\<exists>s2. CKresourceFree T (res_0 (uresources s1 resource)) s1 = Some (CK_OK, s2) \<and> io_wf s2 xs
    \<and> resources (cres s2) (ioregion_res (threads s2 owner)) rs \<and> CKmem_avail (ckmem s2) = CKmem_avail (ckmem s)
    \<and> (\<forall>x \<in> set xs. io_base (ioregions s2 x) = io_base (ioregions s x) \<and> io_limit (ioregions s2 x) = io_limit (ioregions s x))"
proof -
  have sg: "SIGIOREGION \<noteq> SIGPHYSREGION" "SIGIOREGION \<noteq> SIGTRAP" "SIGIOREGION \<noteq> SIGDMA"
    by (simp_all add: SIGIOREGION_def SIGPHYSREGION_def SIGTRAP_def SIGDMA_def)
  have "CKallocIORegion resource owner flags s = Some (CK_OK, s1)"
    using assms(9,13) sg by (simp add: CKresourceAlloc_def Let_def)
  then have e: "io_entered s resource owner flags xs rs s1"
    using io_alloc_cases[OF assms(1-8,10-12), of flags] by (auto simp del: dseg.simps split: if_splits)
  define a where "a = res_0 (uresources s1 resource)"
  note e = e[unfolded io_entered_def Let_def, folded a_def]
  obtain ps qs where x: "xs = ps @ qs" "io_wf s1 (ps @ a # qs)" using e by blast
  have d: "distinct ([] @ a # rs)" using e assms(11,12) by auto
  obtain s2 where f: "CKfreeIORegion a s1 = Some (CK_OK, s2)" "io_wf s2 (ps @ qs)"
    "resources (cres s2) (ioregion_res (threads s2 owner)) ([] @ rs)"
    "CKmem_avail (ckmem s2) = CKmem_avail (ckmem s1) \<union> bytes a sizeof_CKIOregionAlloc"
    "\<forall>x. io_base (ioregions s2 x) = io_base (ioregions s1 x) \<and> io_limit (ioregions s2 x) = io_limit (ioregions s1 x)"
    using free_io_ok[OF x(2), of owner "[]" rs] e d by (auto simp del: dseg.simps)
  have "CKresourceFree T a s1 = Some (CK_OK, s2)" using f(1) e sg by (simp add: CKresourceFree_def Let_def)
  then show ?thesis using f x(1) e unfolding a_def[symmetric] by auto
qed

lemma om_kernel_alloc_io: "\<exists>m'. CKmemAlloc sizeof_CKIOregionAlloc (ckmem om_kernel) = Some (0x10000, m')"
proof -
  have u: "[0..<8] = [0, 1, 2, 3, 4, 5, 6, 7 :: nat]" by (rule upt_8)
  show ?thesis
    by (simp add: CKmemAlloc_def om_kernel_def one_block_def no_entry_def KLfreeListMemAlloc_def AdjustSize_def
      alloc_pass_def KLgetFastLookupToUse_def alloc_scan.simps u take_best_def Let_def nth_upd sizeof_CKIOregionAlloc_def
      KLfreeListRemove_def KLfreeListSizeRemove_def KLfreeListInsert_def KLfreeListSizeInsert_def)
qed

text \<open>Stubs of a few bytes.\<close>

definition small_stubs :: trap_stubs where
  "small_stubs = \<lparr>fwd_global_template = [0x68, 0xbb, 0xe9], fwd_global_irq_templ_bh = [0x68, 0xbb, 0xb0, 0x20],
     fwd_global_irq_templ_th = [0x68, 0xbb, 0xb0, 0x20, 0xe6], spurious_int = 0x9000\<rparr>"

lemma res_kernel_alloc:
  "\<exists>s'. CKresourceAlloc small_stubs 0x800 1 3 res_kernel = Some (CK_OK, s')"
proof -
  have w: "io_wf res_kernel ([0x700] @ [])" using res_kernel_io by simp
  have "\<not> io_overlap (ioregions res_kernel) [0x700] 0x3f8 8" by (simp add: io_overlap_def ports_def)
  then obtain g ps qs where g: "CKIOfindGap 0x3f8 8 res_kernel = Some g" "[0x700] = ps @ qs"
      "gap_at (ioregions res_kernel) (IOfirstAlloc res_kernel) 0x3f8 8 ps qs g"
    using CKIOfindGap_ok[OF res_kernel_io, of 8 "0x3f8"] unfolding gap_found_def by auto
  have "ioregion_res (threads res_kernel 1) = 0" using res_kernel_owner(2) by simp
  obtain a m' where al: "CKmemAlloc sizeof_CKIOregionAlloc (ckmem res_kernel) = Some (a, m')" "a \<noteq> NIL"
    using om_kernel_alloc_io by auto
  have "\<exists>s'. CKallocIORegion 0x800 1 3 res_kernel = Some (CK_OK, s') \<and> io_entered res_kernel 0x800 1 3 [0x700] [] s'"
    by (rule alloc_io_enters[OF res_kernel_io _ res_kernel_owner(1) _ _ _ _ _ _ _ _ res_kernel_live g(2,3,1) al])
      (simp_all add: om_kernel_mem res_kernel_owner)
  then show ?thesis
    by (auto simp: CKresourceAlloc_def SIGIOREGION_def SIGPHYSREGION_def SIGTRAP_def SIGDMA_def simp del: dseg.simps)
qed

theorem io_region_alloc_free_witness:
  "\<exists>s1 s2. CKresourceAlloc small_stubs 0x800 1 3 res_kernel = Some (CK_OK, s1)
    \<and> CKresourceFree small_stubs (res_0 (uresources s1 0x800)) s1 = Some (CK_OK, s2) \<and> io_wf s2 [0x700]
    \<and> CKmem_avail (ckmem s2) = {0x10000..<0x14000}"
proof -
  obtain s1 where s1: "CKresourceAlloc small_stubs 0x800 1 3 res_kernel = Some (CK_OK, s1)" using res_kernel_alloc by blast
  have "\<exists>s2. CKresourceFree small_stubs (res_0 (uresources s1 0x800)) s1 = Some (CK_OK, s2) \<and> io_wf s2 [0x700]
    \<and> resources (cres s2) (ioregion_res (threads s2 1)) [] \<and> CKmem_avail (ckmem s2) = CKmem_avail (ckmem res_kernel)
    \<and> (\<forall>x \<in> set [0x700]. io_base (ioregions s2 x) = io_base (ioregions res_kernel x)
         \<and> io_limit (ioregions s2 x) = io_limit (ioregions res_kernel x))"
    by (rule io_region_alloc_free[where base = "0x3f8" and limit = 8, OF res_kernel_io _ res_kernel_owner(1) _ _ _ _ _ _ _ _ res_kernel_live s1])
      (simp_all add: om_kernel_mem res_kernel_owner)
  then show ?thesis using s1 om_kernel_mem(2) by auto
qed

text \<open>A region that cannot be allocated for want of memory leaves \<open>IOAllocLock\<close> held: no
  region can be allocated or freed after it, the calls do not return (resource.c,
  \<open>CKallocIORegion\<close>, \<open>CKfreeIORegion\<close>).\<close>

theorem io_nomem_locks:
  fixes s :: "'a RKERNEL_scheme"
  assumes "CKallocIORegion resource owner flags s = Some (Some ENOMEM, s')" and "CKvalidThread owner' s'"
  shows "CKfreeIORegion res s' = None \<and> CKallocIORegion resource' owner' flags' s' = None"
proof -
  have "CKenterCritical (IOAllocLock s') = None"
    using assms(1) by (auto simp: CKallocIORegion_def Let_def CKenterCritical_Some bind_eq_Some_conv with_mem_def CKenterCritical_held
      split: if_splits)
  then show ?thesis using assms(2) by (simp add: CKfreeIORegion_def CKallocIORegion_def Let_def)
qed

theorem io_nomem_locks_witness:
  "\<exists>s'. CKallocIORegion 0x800 1 3 (res_kernel\<lparr>ckmem := \<lparr>CKFreeListLock = 0, CKFreeList = empty_freelist (one_block 0x1000 0x1000)\<rparr>\<rparr>) = Some (Some ENOMEM, s')
    \<and> CKallocIORegion 0x800 1 3 s' = None"
proof -
  let ?s = "res_kernel\<lparr>ckmem := \<lparr>CKFreeListLock = 0, CKFreeList = empty_freelist (one_block 0x1000 0x1000)\<rparr>\<rparr>"
  have m: "CKmemAlloc sizeof_CKIOregionAlloc \<lparr>CKFreeListLock = 0, CKFreeList = empty_freelist (one_block 0x1000 0x1000)\<rparr>
      = Some (NIL, \<lparr>CKFreeListLock = 0, CKFreeList = empty_freelist (one_block 0x1000 0x1000)\<rparr>)"
    by (simp add: CKmemAlloc_def empty_freelist_def one_block_def KLfreeListMemAlloc_def AdjustSize_def alloc_pass_def
      KLgetFastLookupToUse_def alloc_scan.simps upt_8 Let_def sizeof_CKIOregionAlloc_def)
  have v: "CKvalidThread 1 ?s" using res_kernel_owner(1) by (simp add: CKvalidThread_def)
  have "IOfindGap_loop 0x600 (ioregions res_kernel) 0x3f8 8 0x600 = Some 0x700"
    by (subst IOfindGap_loop.simps, simp, subst IOfindGap_loop.simps, simp)
  then have "CKallocIORegion 0x800 1 3 ?s = Some (Some ENOMEM, ?s\<lparr>IOAllocLock := 1\<rparr>)"
    using m v by (simp add: CKallocIORegion_def CKIOfindGap_def with_mem_def)
  moreover have "CKvalidThread 1 (?s\<lparr>IOAllocLock := 1\<rparr>)" using v by (simp add: CKvalidThread_def)
  ultimately show ?thesis using io_nomem_locks by blast
qed

end
