(* ===== verification/CK_Traps.thy ===== *)
theory CK_Traps
  imports CK_Ports
begin

text \<open>
  The traps of \<^verbatim>\<open>CK/resource.c\<close> and \<^verbatim>\<open>CK/architecture/I80X86/kernel.c\<close>: the chain of the
  allocators of a trap, forwarding an interrupt to all of them, and what \<open>CKfreeTrap\<close> does to the
  chain; the coprocessor contexts of \<^verbatim>\<open>math.c\<close>.
\<close>

section \<open>The chain of a trap's allocators\<close>

primrec chain :: "(addr \<Rightarrow> CKTrapAlloc) \<Rightarrow> addr \<Rightarrow> addr list \<Rightarrow> bool" where
  "chain R a [] \<longleftrightarrow> a = NIL"
| "chain R a (x # xs) \<longleftrightarrow> a = x \<and> x \<noteq> NIL \<and> chain R (ntp (R x)) xs"

lemma chain_cong: "(\<And>x. x \<in> set xs \<Longrightarrow> ntp (R' x) = ntp (R x)) \<Longrightarrow> chain R' a xs = chain R a xs"
  by (induction xs arbitrary: a) auto

lemma chain_append: "chain R a (us @ x # vs) \<longleftrightarrow> chain (R(x := (R x)\<lparr>ntp := NIL\<rparr>)) a (us @ [x]) \<and> chain R (ntp (R x)) vs"
  if "x \<notin> set us"
  using that by (induction us arbitrary: a) auto

lemma chain_suffix: "chain R a (us @ vs) \<Longrightarrow> \<exists>b. chain R b vs"
  by (induction us arbitrary: a) auto

lemma chain_NIL: "chain R a xs \<Longrightarrow> NIL \<notin> set xs"
  by (induction xs arbitrary: a) auto

section \<open>Forwarding an interrupt\<close>

lemma prioritise_inv:
  fixes s :: "'a SCHED_scheme"
  assumes i: "sched_inv s T" and a: "a \<in> T"
  shows "\<exists>s'. prioritise_thread a s = Some s' \<and> sched_inv s' T \<and> rest_kept s s'
    \<and> (\<forall>x. ts (threads s' x) = ts (threads s x) \<and> signals (threads s' x) = signals (threads s x))"
proof (cases "ts (threads s a) = ts_Running")
  case False
  then have "prioritise_thread a s = Some s" by (simp add: prioritise_thread_def on_heap_def CKprioritise_def)
  then show ?thesis using i by (simp add: rest_kept_def)
next
  case True
  have w: "sched_wf s T" using i by (simp add: sched_inv_def)
  let ?h = ht_timesharing
  have wk: "heap_wf (heaps s k) (threads s)" for k using sched_wf_heap(1)[OF w] .
  have e: "a \<in> set (events_of (heaps s ?h))" using sched_wf_heap(2)[OF w] a True by simp
  have dj: "x \<notin> set (events_of (heaps s k))" if "x \<in> set (events_of (heaps s ?h))" "k \<noteq> ?h" for x k
    using that sched_wf_heap(2)[OF w] by auto
  obtain H' ev' where c: "CKprioritise a (heaps s ?h, threads s) = Some (H', ev')" "heap_wf H' ev'"
    "mset (events_of H') = mset (events_of (heaps s ?h))"
    "same_but_heap ((threads s)(a := (threads s a)\<lparr>etime := CKgetNextTime (heaps s ?h) (threads s)\<rparr>)) ev'"
    "\<forall>x. x \<notin> set (events_of (heaps s ?h)) \<longrightarrow> ev' x = threads s x"
    using CKprioritise_ok[OF wk e True] by blast
  let ?s = "s\<lparr>heaps := (heaps s)(?h := H'), threads := ev'\<rparr>"
  have st: "set (events_of H') = set (events_of (heaps s ?h))" by (rule mset_eq_setD[OF c(3)])
  have t: "ts (ev' x) = ts (threads s x)" "signals (ev' x) = signals (threads s x)" for x
    using same_but_heap_fields[OF c(4), of x] by auto
  have "heap_wf (heaps s k) ev'" if "k \<noteq> ?h" for k
    using dj[OF _ that] c(5) by (intro heap_wf_frame[OF wk]) metis
  then have "sched_wf ?s T"
    using w c(2) st t by (auto simp: sched_wf_def sched_at_def heaps_ok_def)
  moreover have "idleLoop s \<notin> T" "ts (threads s (idleLoop s)) = ts_Idle" "runner_ok s T" using i by (simp_all add: sched_inv_def)
  ultimately have "sched_inv ?s T" by (simp add: sched_inv_def runner_ok_def t)
  moreover have "prioritise_thread a s = Some ?s" using c(1) by (simp add: prioritise_thread_def on_heap_def)
  ultimately show ?thesis using t by (simp add: rest_kept_def)
qed

lemma resource_fields:
  fixes s s' :: "'a RKERNEL_scheme"
  assumes "SCHED.more s' = SCHED.more s"
  shows "traps s' = traps s" "trapHeads s' = trapHeads s"
  using assms by (cases s; cases s'; simp)+

lemma sched_inv_irq_on [simp]: "sched_inv (CKlock s) T = sched_inv s T" "sched_inv (CKunlock s) T = sched_inv s T"
  by (simp_all add: CKlock_def CKunlock_def sched_inv_def sched_wf_def sched_at_def runner_ok_def)

text \<open>\<open>got_signal\<close>: the signal is in the thread's queue and the thread is awake.\<close>

definition got_signal :: "u32 \<Rightarrow> u32 \<Rightarrow> addr \<Rightarrow> 'a SCHED_scheme \<Rightarrow> bool" where
  "got_signal extra prio a s \<longleftrightarrow> ts (threads s a) \<noteq> ts_Blocked
     \<and> (\<exists>g \<in> set (signals (threads s a)). sig_signal g = SIGNLINT AND NOT SFBUSY \<and> sig_extra g = extra \<and> sig_priority g = prio)"

text \<open>No memory for another signal.\<close>

definition exhausted :: "CKMEM \<Rightarrow> bool" where
  "exhausted m \<longleftrightarrow> (case CKmemAlloc sizeof_SIGNAL m of Some (a, _) \<Rightarrow> a = NIL | None \<Rightarrow> False)"

lemma send_exhausted:
  assumes m: "CKmem_ok (ckmem s)"
  shows "(\<exists>s'. CKsendSignal a sig extra prio s = Some (Some ENOMEM, s')) \<longleftrightarrow> exhausted (ckmem s)"
proof -
  have n: "CKmem_sound sizeof_SIGNAL" by (simp add: CKmem_sound_def sizeofs)
  obtain r m' where al: "CKmemAlloc sizeof_SIGNAL (ckmem s) = Some (r, m')" using ck.alloc_returns[OF m n] by blast
  show ?thesis
    by (cases "r = NIL") (auto simp: CKsendSignal_def with_mem_def al exhausted_def Let_def)
qed

lemma set_sig_enqueue: "set (sig_enqueue new xs) = insert new (set xs)"
proof -
  have "set (takeWhile P xs) \<union> set (dropWhile P xs) = set xs" for P
    by (metis set_append takeWhile_dropWhile_id)
  then show ?thesis unfolding sig_enqueue_split by auto
qed

lemma signal_allocator_ok:
  fixes s :: "'a RKERNEL_scheme"
  assumes i: "sched_inv s T" and m: "CKmem_ok (ckmem s)" and t: "tr_sigThread t \<in> T"
  shows "\<exists>s'. signal_allocator intr t s = Some s' \<and> sched_inv s' T \<and> CKmem_ok (ckmem s')
    \<and> headers s' = headers s \<and> currtask s' = currtask s \<and> SCHED.more s' = SCHED.more s \<and> irq_on s'
    \<and> (got_signal intr (tr_priority t) (tr_sigThread t) s' \<or> exhausted (ckmem s'))
    \<and> (exhausted (ckmem s) \<longrightarrow> exhausted (ckmem s')) \<and> (\<forall>e p b. got_signal e p b s \<longrightarrow> got_signal e p b s')"
proof -
  let ?a = "tr_sigThread t"
  have i0: "sched_inv (CKlock s) T" "CKmem_ok (ckmem (CKlock s))" using i m by (simp, simp add: CKlock_def)
  obtain r s1 where s1: "CKsendSignal ?a SIGNLINT intr (tr_priority t) (CKlock s) = Some (r, s1)" "sched_inv s1 T"
    "CKmem_ok (ckmem s1)" "headers s1 = headers (CKlock s)" "currtask s1 = currtask (CKlock s)" "SCHED.more s1 = SCHED.more (CKlock s)"
    and c: "r = Some ENOMEM \<and> s1 = CKlock s \<or> r = CK_OK \<and> ts (threads s1 ?a) \<noteq> ts_Blocked
         \<and> (\<exists>new. signals (threads s1 ?a) = sig_enqueue \<lparr>sig_addr = new, sig_signal = SIGNLINT AND NOT SFBUSY,
              sig_extra = intr, sig_priority = tr_priority t, sig_sender = currtask (CKlock s)\<rparr> (signals (threads (CKlock s) ?a)))
         \<and> (\<forall>b. b \<noteq> ?a \<longrightarrow> signals (threads s1 b) = signals (threads (CKlock s) b) \<and> ts (threads s1 b) = ts (threads (CKlock s) b))"
    using CKsendSignal_some[OF i0(1) t i0(2), of SIGNLINT intr "tr_priority t"] by blast
  obtain s2 where s2: "prioritise_thread ?a s1 = Some s2" "sched_inv s2 T" "rest_kept s1 s2"
    "\<forall>x. ts (threads s2 x) = ts (threads s1 x) \<and> signals (threads s2 x) = signals (threads s1 x)"
    using prioritise_inv[OF s1(2) t] by blast
  have r: "signal_allocator intr t s = Some (CKunlock s2)" using s1(1) s2(1) by (simp add: signal_allocator_def)
  have f: "ckmem (CKunlock s2) = ckmem s1" "headers (CKunlock s2) = headers s" "currtask (CKunlock s2) = currtask s"
      "SCHED.more (CKunlock s2) = SCHED.more s" "irq_on (CKunlock s2)" "threads (CKunlock s2) = threads s2" "threads (CKlock s) = threads s"
    using s2(3) s1(4-6) by (simp_all add: rest_kept_def CKlock_def CKunlock_def)
  have ex: "r = Some ENOMEM \<longleftrightarrow> exhausted (ckmem s)"
    using send_exhausted[OF i0(2), of ?a SIGNLINT intr "tr_priority t"] s1(1) by (simp add: CKlock_def)
  have e1: "exhausted (ckmem s) \<longrightarrow> exhausted (ckmem s1)" using c ex by (auto simp: CKlock_def)
  have g: "got_signal intr (tr_priority t) ?a (CKunlock s2) \<or> exhausted (ckmem s1)"
  proof (cases "r = Some ENOMEM")
    case False
    then show ?thesis using c s2(4) unfolding got_signal_def f by (fastforce simp: set_sig_enqueue)
  qed (use e1 ex in simp)
  have k: "got_signal e p b (CKunlock s2)" if "got_signal e p b s" for e p b
  proof (cases "r = Some ENOMEM")
    case True
    then have "s1 = CKlock s" using c by auto
    then show ?thesis using that s2(4) unfolding got_signal_def f by (simp add: CKlock_def)
  next
    case False
    have q: "set (signals (threads s b)) \<subseteq> set (signals (threads s2 b))"
      using c False s2(4) by (cases "b = ?a") (auto simp: set_sig_enqueue f)
    have "ts (threads s2 b) \<noteq> ts_Blocked" using that c False s2(4) by (cases "b = ?a") (auto simp: got_signal_def f)
    then show ?thesis using that q unfolding got_signal_def f by blast
  qed
  show ?thesis using r s2(2) s1(3) f g e1 k by auto
qed

lemma forward_loop_ok:
  fixes s :: "'a RKERNEL_scheme"
  assumes "sched_inv s T" "CKmem_ok (ckmem s)" "chain (traps s) a xs" "\<forall>x \<in> set xs. tr_sigThread (traps s x) \<in> T"
  shows "\<exists>s'. forward_loop intr a s = Some s' \<and> sched_inv s' T \<and> CKmem_ok (ckmem s')
    \<and> headers s' = headers s \<and> currtask s' = currtask s \<and> SCHED.more s' = SCHED.more s \<and> (xs \<noteq> [] \<longrightarrow> irq_on s')
    \<and> ((\<forall>x \<in> set xs. got_signal intr (tr_priority (traps s x)) (tr_sigThread (traps s x)) s') \<or> exhausted (ckmem s'))
    \<and> (exhausted (ckmem s) \<longrightarrow> exhausted (ckmem s')) \<and> (\<forall>e p b. got_signal e p b s \<longrightarrow> got_signal e p b s')"
  using assms
proof (induction xs arbitrary: s a)
  case Nil
  then show ?case by (simp add: forward_loop.simps)
next
  case (Cons x xs)
  then have x: "a = x" "x \<noteq> NIL" "chain (traps s) (ntp (traps s x)) xs" and t: "tr_sigThread (traps s x) \<in> T" by simp_all
  obtain s1 where s1: "signal_allocator intr (traps s x) s = Some s1" "sched_inv s1 T" "CKmem_ok (ckmem s1)"
    "headers s1 = headers s" "currtask s1 = currtask s" "SCHED.more s1 = SCHED.more s" "irq_on s1"
    "got_signal intr (tr_priority (traps s x)) (tr_sigThread (traps s x)) s1 \<or> exhausted (ckmem s1)"
    "exhausted (ckmem s) \<longrightarrow> exhausted (ckmem s1)" "\<forall>e p b. got_signal e p b s \<longrightarrow> got_signal e p b s1"
    using signal_allocator_ok[OF Cons.prems(1,2) t] by blast
  note tr = resource_fields(1)[OF s1(6)]
  have f: "forward_loop intr a s = forward_loop intr (ntp (traps s x)) s1"
    using x(1,2) s1(1) tr by (subst forward_loop.simps) simp
  have c: "chain (traps s1) (ntp (traps s x)) xs" "\<forall>y \<in> set xs. tr_sigThread (traps s1 y) \<in> T"
    using x(3) Cons.prems(4) unfolding tr by simp_all
  obtain s' where s': "forward_loop intr (ntp (traps s x)) s1 = Some s'" "sched_inv s' T" "CKmem_ok (ckmem s')"
    "headers s' = headers s1" "currtask s' = currtask s1" "SCHED.more s' = SCHED.more s1" "xs \<noteq> [] \<longrightarrow> irq_on s'"
    "(\<forall>x \<in> set xs. got_signal intr (tr_priority (traps s1 x)) (tr_sigThread (traps s1 x)) s') \<or> exhausted (ckmem s')"
    "exhausted (ckmem s1) \<longrightarrow> exhausted (ckmem s')" "\<forall>e p b. got_signal e p b s1 \<longrightarrow> got_signal e p b s'"
    using Cons.IH[OF s1(2,3) c] by blast
  have "irq_on s'" using s'(1,7) s1(7) x(3) by (cases xs) (auto simp: forward_loop.simps)
  moreover have "(\<forall>y \<in> set (x # xs). got_signal intr (tr_priority (traps s y)) (tr_sigThread (traps s y)) s') \<or> exhausted (ckmem s')"
    using s'(8-10) s1(8) unfolding tr by auto
  ultimately show ?case unfolding f using s'(1-6,9,10) s1(4-6,9,10) by auto
qed

text \<open>C12: An interrupt reaches all its allocators: forwarding returns, keeps the scheduler's
  invariant and the kernel's memory, and afterwards the handler thread of every allocator is awake
  with the signal of its priority in its queue, unless the kernel is out of memory for
  signals; the scheduler is asked for when it may be (kernel.c, \<open>CKforwardGlobalInterrupt\<close>).\<close>

theorem interrupt_reaches_all:
  fixes s :: "'a RKERNEL_scheme"
  assumes "sched_inv s T" and "CKmem_ok (ckmem s)" and "chain (traps s) (trapHeads s ! unat intr) xs"
    and "\<forall>x \<in> set xs. tr_sigThread (traps s x) \<in> T"
  shows "\<exists>s'. CKforwardGlobalInterrupt ds intr s = Some s' \<and> sched_inv s' T \<and> CKmem_ok (ckmem s') \<and> currtask s' = currtask s
    \<and> ((\<forall>x \<in> set xs. got_signal intr (tr_priority (traps s x)) (tr_sigThread (traps s x)) s') \<or> exhausted (ckmem s'))
    \<and> (doingRealtime s' = 0 \<and> schedLock s' = 0 \<longrightarrow> soft_irq s') \<and> traps s' = traps s"
proof -
  obtain s1 where s1: "forward_loop intr (trapHeads s ! unat intr) s = Some s1" "sched_inv s1 T" "CKmem_ok (ckmem s1)"
    "currtask s1 = currtask s" "SCHED.more s1 = SCHED.more s"
    "(\<forall>x \<in> set xs. got_signal intr (tr_priority (traps s x)) (tr_sigThread (traps s x)) s1) \<or> exhausted (ckmem s1)"
    using forward_loop_ok[OF assms] by blast
  let ?s = "if doingRealtime s1 = 0 \<and> schedLock s1 = 0 then quantumDone s1 else s1"
  have "sched_inv ?s T" using s1(2) sched_inv_same[of "quantumDone s1" s1 T] by (simp add: quantumDone_def)
  moreover have "got_signal e p b ?s = got_signal e p b s1" "ckmem ?s = ckmem s1" "currtask ?s = currtask s1" "traps ?s = traps s1" for e p b
    by (simp_all add: got_signal_def quantumDone_def)
  moreover have "CKforwardGlobalInterrupt ds intr s = Some ?s" using s1(1) by (simp add: CKforwardGlobalInterrupt_def)
  moreover have "doingRealtime ?s = 0 \<and> schedLock ?s = 0 \<longrightarrow> soft_irq ?s" by (auto simp: quantumDone_def)
  ultimately show ?thesis using s1(3-6) resource_fields(1)[OF s1(5)] by (intro exI[of _ ?s]) (simp only: simp_thms)
qed

text \<open>Trap 0x80 with two allocators, whose handlers are the threads 2 and 1.\<close>

definition trap_kernel :: RKERNEL where
  "trap_kernel = res_kernel\<lparr>trapHeads := (replicate 256 0)[0x80 := 0xA00],
     traps := (\<lambda>a. \<lparr>tr_trap = 0x80, tr_sigThread = (if a = 0xA00 then 2 else 1), tr_priority = 4,
        ntp = (if a = 0xA00 then 0xB00 else 0), tr_stub = 0, tr_stubsize = 0, tr_retrostub = 0\<rparr>)\<rparr>"

lemma trap_kernel_inv: "sched_inv trap_kernel {1, 2}"
  using om_kernel_inv sched_inv_same[of trap_kernel om_kernel "{1, 2}"] by (simp add: om_inv_def trap_kernel_def)

theorem interrupt_reaches_all_witness:
  "\<exists>s'. CKforwardGlobalInterrupt 0x23 0x80 trap_kernel = Some s' \<and> sched_inv s' {1, 2}
    \<and> (got_signal 0x80 4 2 s' \<and> got_signal 0x80 4 1 s' \<or> exhausted (ckmem s'))"
proof -
  have "chain (traps trap_kernel) (trapHeads trap_kernel ! unat (0x80 :: u32)) [0xA00, 0xB00]"
    by (simp add: trap_kernel_def)
  from interrupt_reaches_all[OF trap_kernel_inv _ this, of "0x23"] show ?thesis
    using om_kernel_mem(1) by (auto simp: trap_kernel_def)
qed

section \<open>Freeing a trap\<close>

lemma chain_after:
  "chain R a ys \<Longrightarrow> r \<in> set ys \<Longrightarrow> chain R (ntp (R r)) (tl (dropWhile (\<lambda>z. z \<noteq> r) ys))"
  by (induction ys arbitrary: a) auto

lemma chain_first: "chain R a (x # xs) \<Longrightarrow> a = x" by simp

text \<open>The chain that \<open>CKfreeTrap\<close> leaves behind.\<close>

definition chain_left :: "addr \<Rightarrow> addr list \<Rightarrow> addr list" where
  "chain_left r xs = (case xs of
     h # x # ys \<Rightarrow> if r = h then x # ys
       else if r = x \<or> (ys \<noteq> [] \<and> hd ys = r) then xs
       else h # x # tl (dropWhile (\<lambda>z. z \<noteq> r) ys)
   | _ \<Rightarrow> [])"

lemma set_tl_dropWhile: "set (tl (dropWhile P ys)) \<subseteq> set ys"
  by (induction ys) auto

lemma trap_pos_stop: "ntp (R pos) \<noteq> r \<Longrightarrow> trap_pos R r pos = Some pos"
  by (subst trap_pos.simps) simp

lemma trap_pos_result:
  assumes c: "chain R a (x # ys)" "distinct (x # ys)" "r \<in> set (x # ys)"
  shows "trap_pos R r x = Some (if r \<noteq> x \<and> ys \<noteq> [] \<and> hd ys = r then r else x)"
proof -
  have own: "ntp (R r) \<noteq> r"
  proof
    assume e: "ntp (R r) = r"
    obtain us vs where "x # ys = us @ r # vs" using c(3) split_list by metis
    then obtain b where "chain R b (r # vs)" "r \<notin> set vs" using chain_suffix c(1,2) by (metis distinct.simps(2) distinct_append)
    then show False using e by (cases vs) auto
  qed
  show ?thesis
  proof (cases "ntp (R x) = r")
    case True
    then have "r \<noteq> x \<and> ys \<noteq> [] \<and> hd ys = r" using own c by (cases ys) auto
    then show ?thesis using True trap_pos_stop[of R r r, OF own] by (subst trap_pos.simps) simp
  next
    case False
    then have "\<not> (r \<noteq> x \<and> ys \<noteq> [] \<and> hd ys = r)" using c by (cases ys) auto
    then show ?thesis using trap_pos_stop[of R x r, OF False] by auto
  qed
qed

lemma unchain_trap_ok:
  assumes c: "chain (traps s) (trapHeads s ! unat (tr_trap (traps s r))) xs" "distinct xs" "r \<in> set xs"
    and n: "unat (tr_trap (traps s r)) < length (trapHeads s)"
  shows "\<exists>s'. unchain_trap r s = Some s' \<and> chain (traps s') (trapHeads s' ! unat (tr_trap (traps s r))) (chain_left r xs)"
proof -
  let ?R = "traps s" and ?i = "unat (tr_trap (traps s r))"
  obtain h zs where xs: "xs = h # zs" using c(3) by (cases xs) auto
  have h: "trapHeads s ! ?i = h" using c(1) xs by simp
  show ?thesis
  proof (cases "r = h")
    case True
    then show ?thesis using c(1) n xs h by (cases zs) (auto simp: unchain_trap_def Let_def chain_left_def)
  next
    case False
    then obtain x ys where zs: "zs = x # ys" using c(3) xs by (cases zs) auto
    have x: "chain ?R (ntp (?R h)) (x # ys)" "ntp (?R h) = x" "distinct (x # ys)" "r \<in> set (x # ys)"
      using c xs zs False by auto
    let ?p = "if r \<noteq> x \<and> ys \<noteq> [] \<and> hd ys = r then r else x"
    let ?s = "set_trap ?p (\<lambda>t. t\<lparr>ntp := ntp (?R r)\<rparr>) s"
    have u: "unchain_trap r s = Some ?s"
      using False h trap_pos_result[OF x(1,3,4)] by (simp add: unchain_trap_def Let_def x(2))
    have "chain (traps ?s) h (chain_left r xs)"
    proof (cases "r = x \<or> (ys \<noteq> [] \<and> hd ys = r)")
      case True
      then have e: "?p = r" "chain_left r xs = xs" using False xs zs by (auto simp: chain_left_def)
      have "ntp (traps ?s z) = ntp (?R z)" for z unfolding e(1) by simp
      then show ?thesis unfolding e(2) using c(1) unfolding h by (subst chain_cong) auto
    next
      case no: False
      then have p: "?p = x" using x(4) by auto
      have r: "r \<in> set ys" "r \<noteq> x" using no x(4) by auto
      have l: "chain_left r xs = h # x # tl (dropWhile (\<lambda>z. z \<noteq> r) ys)" using no False xs zs by (auto simp: chain_left_def)
      have "set (tl (dropWhile (\<lambda>z. z \<noteq> r) ys)) \<subseteq> set ys" by (rule set_tl_dropWhile)
      then have nx: "z \<noteq> x" "z \<noteq> h" if "z \<in> set (tl (dropWhile (\<lambda>z. z \<noteq> r) ys))" for z using that c(2) xs zs by auto
      have "chain ?R (ntp (?R r)) (tl (dropWhile (\<lambda>z. z \<noteq> r) ys))" using chain_after x(1) r(1) by fastforce
      then have "chain (traps ?s) (ntp (?R r)) (tl (dropWhile (\<lambda>z. z \<noteq> r) ys))"
        unfolding p by (subst chain_cong) (use nx in auto)
      then show ?thesis unfolding l p using c(1,2) xs zs by auto
    qed
    moreover have "trapHeads ?s = trapHeads s" by simp
    ultimately show ?thesis using u h by (intro exI[of _ ?s]) simp
  qed
qed

text \<open>C31: Freeing a trap takes only the first allocator of its chain out as it should: the second
  and the third stay in the chain though they are freed, and for one further down every
  allocator between the second and it is lost as well (resource.c, \<open>CKfreeTrap\<close>; the
  condition of the loop is the wrong way round).\<close>

theorem free_trap_chain:
  assumes "chain (traps s) (trapHeads s ! unat (tr_trap (traps s r))) (h # x # ys)" and "distinct (h # x # ys)"
    and "r \<in> set (h # x # ys)" and "unat (tr_trap (traps s r)) < length (trapHeads s)"
  shows "\<exists>s'. unchain_trap r s = Some s' \<and> chain (traps s') (trapHeads s' ! unat (tr_trap (traps s r)))
    (if r = h then x # ys else if r = x \<or> (ys \<noteq> [] \<and> hd ys = r) then h # x # ys
     else h # x # tl (dropWhile (\<lambda>z. z \<noteq> r) ys))"
  using unchain_trap_ok[OF assms(1-4)] by (simp add: chain_left_def del: chain.simps)

theorem free_trap_chain_witness:
  "\<exists>s'. unchain_trap 0xB00 trap_kernel = Some s' \<and> chain (traps s') (trapHeads s' ! 0x80) [0xA00, 0xB00]"
proof -
  have c: "chain (traps trap_kernel) (trapHeads trap_kernel ! unat (tr_trap (traps trap_kernel 0xB00))) [0xA00, 0xB00]"
    by (simp add: trap_kernel_def)
  have n: "unat (tr_trap (traps trap_kernel 0xB00)) < length (trapHeads trap_kernel)" "unat (tr_trap (traps trap_kernel 0xB00)) = 0x80"
    by (simp_all add: trap_kernel_def)
  show ?thesis using free_trap_chain[OF c _ _ n(1)] by (simp add: n(2) del: chain.simps)
qed

section \<open>The coprocessor\<close>

text \<open>
  The abstract view: every thread has its own coprocessor context. The one of the last user is in
  the registers, that of another thread that has used the coprocessor in its task state.
\<close>

definition fpu_used :: "'a KERNEL_scheme \<Rightarrow> addr \<Rightarrow> bool" where
  "fpu_used s x \<longleftrightarrow> i387_used (taskState (threads s x)) \<noteq> 0"

definition fpu_context :: "u32 list \<Rightarrow> 'a KERNEL_scheme \<Rightarrow> addr \<Rightarrow> u32 list" where
  "fpu_context clean s x =
     (if x = lastFPUUser s \<and> x \<noteq> NIL then fpu s else if fpu_used s x then fpu_saved s x else clean)"

text \<open>C32: The lazy switch of the coprocessor implements a context for every thread: after the trap the
  registers hold the running thread's context, a clean one when it has none yet, and no
  thread's context has changed, whoever used the coprocessor last (math.c,
  \<open>CKi387SetupContext\<close>).\<close>

theorem fpu_contexts:
  assumes "currtask s \<noteq> NIL" and "lastFPUUser s \<noteq> NIL \<longrightarrow> fpu_used s (lastFPUUser s)"
  shows "fpu (CKi387SetupContext clean clex s) = fpu_context clean s (currtask s)
    \<and> (\<forall>x. fpu_context clean (CKi387SetupContext clean clex s) x = fpu_context clean s x)
    \<and> lastFPUUser (CKi387SetupContext clean clex s) = currtask s
    \<and> fpu_used (CKi387SetupContext clean clex s) (currtask s) \<and> \<not> cr0_ts (CKi387SetupContext clean clex s)"
proof (cases "fpu_used s (currtask s)")
  case True
  then show ?thesis using assms
    by (auto simp: CKi387SetupContext_def Let_def fpu_context_def fpu_used_def)
next
  case False
  then have n: "lastFPUUser s \<noteq> currtask s" using assms by metis
  have u: "fpu_used (CKi387SetupContext clean clex s) x \<longleftrightarrow> x = currtask s \<or> fpu_used s x" for x
    using False by (auto simp: CKi387SetupContext_def Let_def fpu_used_def)
  have f: "fpu (CKi387SetupContext clean clex s) = clean" "lastFPUUser (CKi387SetupContext clean clex s) = currtask s"
    "\<not> cr0_ts (CKi387SetupContext clean clex s)"
    "fpu_saved (CKi387SetupContext clean clex s) = (if lastFPUUser s \<noteq> NIL then (fpu_saved s)(lastFPUUser s := fpu s) else fpu_saved s)"
    using False by (simp_all add: CKi387SetupContext_def Let_def fpu_used_def)
  show ?thesis using False n assms f(3) unfolding fpu_context_def u f(1,2,4) by auto
qed

theorem fpu_contexts_witness:
  "fpu_context [0] (CKi387SetupContext [0] (\<lambda>r. r)
     (small_kernel\<lparr>lastFPUUser := 2, fpu := [3, 4], currtask := 1,
        threads := (\<lambda>_. (thread_of ts_Running 0 0)\<lparr>taskState := no_TSS\<lparr>i387_used := 1\<rparr>\<rparr>)\<rparr>)) 2 = [3, 4]"
proof -
  let ?s = "small_kernel\<lparr>lastFPUUser := 2, fpu := [3, 4], currtask := 1,
        threads := (\<lambda>_. (thread_of ts_Running 0 0)\<lparr>taskState := no_TSS\<lparr>i387_used := 1\<rparr>\<rparr>)\<rparr>"
  have "fpu_context [0] (CKi387SetupContext [0] (\<lambda>r. r) ?s) 2 = fpu_context [0] ?s 2"
    using fpu_contexts[of ?s "[0]" "\<lambda>r. r"] by (simp add: fpu_used_def thread_of_def)
  then show ?thesis by (simp add: fpu_context_def)
qed

end
