(* ===== verification/CK_System.thy ===== *)
theory CK_System
  imports CK_Traps
begin

text \<open>
  The Cache Kernel as a whole: scheduler, signals, interrupts and object manager as the steps of one
  transition relation \<open>kstep\<close> over the kernel's state and its list of threads, and the
  invariant \<open>sys_inv\<close> of every state it reaches. The first section shows what each scheduler
  operation leaves alone.
\<close>

section \<open>What the scheduler leaves alone\<close>

definition tasks :: "EVENTS \<Rightarrow> addr \<Rightarrow> TSS" where
  "tasks ev = (\<lambda>x. taskState (ev x))"

lemma tasks_upd [simp]: "taskState v = taskState (ev c) \<Longrightarrow> tasks (ev(c := v)) = tasks ev"
  by (auto simp: tasks_def)

lemma tasks_set_heap [simp]: "tasks (set_heap e i ev) = tasks ev"
  by (simp add: set_heap_def)

lemma tasks_siftup [simp]: "siftup_loop nxt e h ev = (h', ev') \<Longrightarrow> tasks ev' = tasks ev"
proof (induction nxt e h ev rule: siftup_loop.induct)
  case (1 nxt e h ev)
  show ?case
    using 1 siftup_loop.simps[of nxt e h ev] by (auto split: if_splits)
qed

lemma tasks_siftdown [simp]: "siftdown_loop n nxt e h ev = (h', ev') \<Longrightarrow> tasks ev' = tasks ev"
proof (induction n nxt e h ev rule: siftdown_loop.induct)
  case (1 n nxt e h ev)
  show ?case
    using 1 siftdown_loop.simps[of n nxt e h ev] by (auto simp: Let_def split: if_splits)
qed

definition keeps_tasks :: "(HeapSelector \<times> EVENTS \<Rightarrow> (HeapSelector \<times> EVENTS) option) \<Rightarrow> bool" where
  "keeps_tasks f \<longleftrightarrow> (\<forall>H ev H' ev'. f (H, ev) = Some (H', ev') \<longrightarrow> tasks ev' = tasks ev)"

lemma heap_ops_keep_tasks:
  "keeps_tasks (CKsiftup e)" "keeps_tasks (CKremoveEvent i)" "keeps_tasks (\<lambda>x. Some (CKsiftdown x))" "keeps_tasks (CKprioritise e)"
  by (auto simp: keeps_tasks_def CKsiftup_def CKremoveEvent_def CKsiftdown_def CKprioritise_def Let_def
    split: if_splits prod.splits)

definition fixed_part :: "'a SCHED_scheme \<Rightarrow> CKMEM \<times> VERTICES \<times> ODG \<times> addr \<times> (addr \<Rightarrow> TSS) \<times> 'a" where
  "fixed_part s = (ckmem s, headers s, odg s, idleLoop s, tasks (threads s), SCHED.more s)"

lemma fixed_upd [simp]:
  "tasks T = tasks (threads s) \<Longrightarrow> fixed_part (s\<lparr>threads := T\<rparr>) = fixed_part s"
  "fixed_part (s\<lparr>uthreads := x2\<rparr>) = fixed_part s"
  "fixed_part (s\<lparr>doingRealtime := x3\<rparr>) = fixed_part s" "fixed_part (s\<lparr>currtask := x4\<rparr>) = fixed_part s"
  "fixed_part (s\<lparr>lasttime := x5\<rparr>) = fixed_part s" "fixed_part (CKlock s) = fixed_part s" "fixed_part (CKunlock s) = fixed_part s"
  "fixed_part (CKsetTimerPeriod q s) = fixed_part s" "fixed_part (CKcontextSwitch a s) = fixed_part s"
  "fixed_part (quantumDone s) = fixed_part s" "fixed_part (CKupdateRealtime s) = fixed_part s"
  by (simp_all add: fixed_part_def CKlock_def CKunlock_def CKsetTimerPeriod_def CKcontextSwitch_def quantumDone_def
    CKupdateRealtime_def Let_def)

lemma threads_lock [simp]: "threads (CKlock s) = threads s" "threads (CKunlock s) = threads s"
  by (simp_all add: CKlock_def CKunlock_def)

lemma currtask_lock [simp]: "currtask (CKlock s) = currtask s" "currtask (CKunlock s) = currtask s"
  by (simp_all add: CKlock_def CKunlock_def)

lemma fixed_on_heap:
  "on_heap h f s = Some s' \<Longrightarrow> keeps_tasks f \<Longrightarrow> fixed_part s' = fixed_part s \<and> currtask s' = currtask s"
  by (auto simp: on_heap_def fixed_part_def keeps_tasks_def)

lemmas fixed_heap = fixed_on_heap[OF _ heap_ops_keep_tasks(1)] fixed_on_heap[OF _ heap_ops_keep_tasks(2)]
  fixed_on_heap[OF _ heap_ops_keep_tasks(3)] fixed_on_heap[OF _ heap_ops_keep_tasks(4)]

lemma fixed_unheap: "unheap a s = Some s' \<Longrightarrow> fixed_part s' = fixed_part s \<and> currtask s' = currtask s"
  by (auto simp: unheap_def dest: fixed_heap split: option.splits)

lemma fixed_enheap: "enheap h st u a s = Some s' \<Longrightarrow> fixed_part s' = fixed_part s \<and> currtask s' = currtask s"
  unfolding enheap_def Let_def by (drule fixed_heap) (cases u; simp)

lemma fixed_flush: "CKflushPrevTask s = Some s' \<Longrightarrow> fixed_part s' = fixed_part s"
  by (auto simp: CKflushPrevTask_def Let_def bind_eq_Some_conv dest!: fixed_heap split: ThreadState.splits if_splits)

lemma fixed_next: "CKgetNextTask s = (e, p, s') \<Longrightarrow> fixed_part s' = fixed_part s"
  by (auto simp: CKgetNextTask_def Let_def split: if_splits)

lemma fixed_schedule: "CKschedule s = Some s' \<Longrightarrow> fixed_part s' = fixed_part s"
proof -
  assume a: "CKschedule s = Some s'"
  then obtain s2 where 2: "CKflushPrevTask (set_thread (currtask s)
      (\<lambda>t. t\<lparr>etime := u_time (uthreads s (objectData (headers s (currtask s))))\<rparr>) s) = Some s2"
    by (auto simp: CKschedule_def Let_def bind_eq_Some_conv)
  obtain e p s3 where 3: "CKgetNextTask s2 = (e, p, s3)" by (cases "CKgetNextTask s2") auto
  show ?thesis using a fixed_flush[OF 2] fixed_next[OF 3] by (auto simp: CKschedule_def Let_def 2 3)
qed

lemma fixed_unblock: "CKunblockThread a s = Some s' \<Longrightarrow> fixed_part s' = fixed_part s \<and> currtask s' = currtask s"
  by (auto simp: CKunblockThread_def Let_def bind_eq_Some_conv dest!: fixed_heap split: ThreadState.splits)

lemma fixed_set_state:
  "CKsetThreadState a st s = Some (r, s') \<Longrightarrow> fixed_part s' = fixed_part s \<and> currtask s' = currtask s"
  by (auto simp: CKsetThreadState_def Let_def bind_eq_Some_conv dest!: fixed_unheap fixed_enheap
    split: option.splits ThreadState.splits if_splits)

lemma fixed_tunnel: "CKthreadTunnel a ty s = Some (r, s') \<Longrightarrow> fixed_part s' = fixed_part s"
  by (auto simp: CKthreadTunnel_def Let_def bind_eq_Some_conv dest!: fixed_unheap fixed_enheap fixed_unblock fixed_schedule
    split: option.splits TunnelType.splits if_splits)


text \<open>Signals take memory besides.\<close>

definition frame :: "'a SCHED_scheme \<Rightarrow> VERTICES \<times> ODG \<times> addr \<times> (addr \<Rightarrow> TSS) \<times> 'a" where
  "frame s = snd (fixed_part s)"

lemma frame_fields:
  assumes "frame s' = frame s"
  shows "headers s' = headers s" "odg s' = odg s" "idleLoop s' = idleLoop s" "SCHED.more s' = SCHED.more s"
    "taskState (threads s' x) = taskState (threads s x)"
  using assms by (auto simp: frame_def fixed_part_def tasks_def fun_eq_iff)

lemma frame_simps [simp]:
  "tasks T = tasks (threads s) \<Longrightarrow> frame (s\<lparr>threads := T\<rparr>) = frame s" "frame (s\<lparr>ckmem := m\<rparr>) = frame s"
  "frame (CKlock s) = frame s" "frame (CKunlock s) = frame s" "frame (quantumDone s) = frame s"
  by (simp_all add: frame_def) (simp add: fixed_part_def)

lemma fixed_frame: "fixed_part s' = fixed_part s \<Longrightarrow> frame s' = frame s \<and> ckmem s' = ckmem s"
  by (simp add: frame_def fixed_part_def)

lemma frame_signal:
  assumes "CKsendSignal a sig extra prio s = Some (r, s')"
  shows "frame s' = frame s"
  using assms fixed_frame[OF conjunct1[OF fixed_unblock]]
  by (fastforce simp: CKsendSignal_def with_mem_def bind_eq_Some_conv Let_def split: if_splits)

lemma signal_allocator_frame:
  fixes s :: "'a RKERNEL_scheme"
  assumes i: "sched_inv s T" and m: "CKmem_ok (ckmem s)" and t: "tr_sigThread t \<in> T"
    and r: "signal_allocator intr t s = Some s'"
  shows "frame s' = frame s \<and> CKmem_avail (ckmem s') \<subseteq> CKmem_avail (ckmem s)"
proof -
  obtain e s1 s2 where s1: "CKsendSignal (tr_sigThread t) SIGNLINT intr (tr_priority t) (CKlock s) = Some (e, s1)"
    and s2: "prioritise_thread (tr_sigThread t) s1 = Some s2" "s' = CKunlock s2"
    using r by (auto simp: signal_allocator_def bind_eq_Some_conv)
  have l: "sched_inv (CKlock s) T" "CKmem_ok (ckmem (CKlock s))" "ckmem (CKlock s) = ckmem s"
    using i m by (simp, simp_all add: CKlock_def)
  have "fixed_part s2 = fixed_part s1" by (rule conjunct1[OF fixed_heap(4)[OF s2(1)[unfolded prioritise_thread_def]]])
  from fixed_frame[OF this] show ?thesis
    using frame_signal[OF s1] CKsendSignal_avail[OF l(1) t l(2) s1] l(3) s2(2) by (simp add: CKunlock_def frame_def fixed_part_def CKlock_def)
qed

lemma forward_loop_frame:
  fixes s :: "'a RKERNEL_scheme"
  assumes "sched_inv s T" "CKmem_ok (ckmem s)" "chain (traps s) a xs" "\<forall>x \<in> set xs. tr_sigThread (traps s x) \<in> T"
    and "forward_loop intr a s = Some s'"
  shows "frame s' = frame s \<and> CKmem_avail (ckmem s') \<subseteq> CKmem_avail (ckmem s)"
  using assms
proof (induction xs arbitrary: a s)
  case Nil
  then show ?case by (simp add: forward_loop.simps)
next
  case (Cons x xs)
  then have x: "a = x" "x \<noteq> NIL" "chain (traps s) (ntp (traps s x)) xs" and t: "tr_sigThread (traps s x) \<in> T" by simp_all
  obtain s1 where s1: "signal_allocator intr (traps s x) s = Some s1" "sched_inv s1 T" "CKmem_ok (ckmem s1)" "SCHED.more s1 = SCHED.more s"
    using signal_allocator_ok[OF Cons.prems(1,2) t] by blast
  note tr = resource_fields(1)[OF s1(4)]
  have "forward_loop intr (ntp (traps s x)) s1 = Some s'"
    using Cons.prems(5) x(1,2) s1(1) tr by (subst (asm) forward_loop.simps) simp
  moreover have "chain (traps s1) (ntp (traps s x)) xs" "\<forall>y \<in> set xs. tr_sigThread (traps s1 y) \<in> T"
    using x(3) Cons.prems(4) by (simp_all add: tr)
  ultimately have "frame s' = frame s1 \<and> CKmem_avail (ckmem s') \<subseteq> CKmem_avail (ckmem s1)"
    using Cons.IH[OF s1(2,3)] by blast
  then show ?case using signal_allocator_frame[OF Cons.prems(1,2) t s1(1)] by auto
qed


section \<open>The invariant of the system\<close>

definition thread_blocks :: "addr \<Rightarrow> 'a SCHED_scheme \<Rightarrow> nat set" where
  "thread_blocks a s = bytes (thread_stack a s) KSTACKSIZE \<union> bytes a sizeof_CKThreadObject"

lemma own_blocksD:
  assumes "own_blocks a X s"
  shows "thread_blocks a s \<inter> CKmem_avail (ckmem s) = {}" "x \<in> X \<Longrightarrow> unat x \<notin> thread_blocks a s"
  using assms by (auto simp: own_blocks_def Let_def thread_blocks_def)

lemma own_blocks_mono:
  assumes "own_blocks a X s" "thread_stack a s' = thread_stack a s"
    and "thread_blocks a s \<inter> CKmem_avail (ckmem s') = {}" "\<And>x. x \<in> Y \<Longrightarrow> unat x \<notin> thread_blocks a s"
  shows "own_blocks a Y s'"
proof -
  have "\<forall>x \<in> Y. unat x \<notin> thread_blocks a s" using assms(4) by blast
  then show ?thesis using assms(1-3) by (simp add: own_blocks_def Let_def thread_blocks_def)
qed

lemma thread_blocks_self: "unat a \<in> thread_blocks a s"
  by (simp add: thread_blocks_def bytes_def sizeof_CKThreadObject_def)

text \<open>
  What holds of each listed thread: its header says what it is, and its two blocks hold nothing
  that is free, another thread's or the kernel's.
\<close>

definition thread_ok :: "'a SCHED_scheme \<Rightarrow> addr set \<Rightarrow> addr \<Rightarrow> bool" where
  "thread_ok s T a \<longleftrightarrow> CKvalidThread a s \<and> oflags (headers s a) AND OFLOCKED = 0
     \<and> own_blocks a (T - {a} \<union> {idleLoop s} \<union> parents (odg s)) s
     \<and> (\<forall>b \<in> T - {a}. thread_blocks a s \<inter> thread_blocks b s = {})"

definition sys_inv :: "'a KERNEL_scheme \<Rightarrow> addr list \<Rightarrow> bool" where
  "sys_inv s xs \<longleftrightarrow> om_inv s (set xs) xs \<and> sysObjManLock s = 0 \<and> (\<forall>a \<in> set xs. thread_ok s (set xs) a)"

lemma thread_ok_frame:
  assumes "thread_ok s T a" "frame s' = frame s" "CKmem_avail (ckmem s') \<subseteq> CKmem_avail (ckmem s)"
  shows "thread_ok s' T a"
proof -
  note f = frame_fields[OF assms(2)]
  have st: "thread_stack b s' = thread_stack b s" "thread_blocks b s' = thread_blocks b s" for b
    by (simp_all add: thread_stack_def thread_blocks_def f)
  have "own_blocks a (T - {a} \<union> {idleLoop s} \<union> parents (odg s)) s" using assms(1) by (simp add: thread_ok_def)
  from own_blocksD[OF this] own_blocks_mono[OF this st(1)]
  have "own_blocks a (T - {a} \<union> {idleLoop s} \<union> parents (odg s)) s'" using assms(3) by blast
  then show ?thesis using assms(1) by (simp add: thread_ok_def f st CKvalidThread_def)
qed

lemma kernel_fields:
  fixes s s' :: "'a KERNEL_scheme"
  assumes "SCHED.more s' = SCHED.more s"
  shows "threadObjHead s' = threadObjHead s" "sysObjManLock s' = sysObjManLock s"
  using assms by (cases s; cases s'; simp)+

lemma sys_inv_frame:
  fixes s s' :: "'a KERNEL_scheme"
  assumes "sys_inv s xs" "frame s' = frame s" "sched_inv s' (set xs)" "CKmem_ok (ckmem s')"
    "CKmem_avail (ckmem s') \<subseteq> CKmem_avail (ckmem s)"
  shows "sys_inv s' xs"
proof -
  note f = frame_fields[OF assms(2)]
  note k = kernel_fields[OF f(4)]
  have "om_inv s' (set xs) xs" using assms(1,3-5) by (auto simp: sys_inv_def om_inv_def f k)
  then show ?thesis using assms(1) thread_ok_frame[OF _ assms(2,5)] by (auto simp: sys_inv_def k)
qed

lemma sys_inv_fixed:
  fixes s s' :: "'a KERNEL_scheme"
  assumes "sys_inv s xs" "fixed_part s' = fixed_part s" "sched_inv s' (set xs)"
  shows "sys_inv s' xs"
  using sys_inv_frame[OF assms(1) _ assms(3)] fixed_frame[OF assms(2)] assms(1) by (simp add: sys_inv_def om_inv_def)

section \<open>Loading and unloading\<close>

text \<open>What a client must see to before it loads a thread: room in heap and graph, and an address
  space and a kernel that are in use and lie outside the threads' blocks.\<close>

definition loadable :: "'a KERNEL_scheme \<Rightarrow> addr list \<Rightarrow> addr \<Rightarrow> bool" where
  "loadable s xs object \<longleftrightarrow> length xs < MAXEVENTS \<and> oda_used (odg s) + 2 \<le> MAXDEPS
     \<and> (\<forall>x \<in> {u_addressSpace (uthreads s object), parent_for (u_parentKernel (uthreads s object)) s}.
          unat x \<notin> CKmem_avail (ckmem s) \<and> x \<noteq> oda_before (odg s) \<and> (\<forall>a \<in> set xs. unat x \<notin> thread_blocks a s))"

lemma cache_thread_in:
  fixes s :: "'a KERNEL_scheme"
  assumes i: "om_inv s T xs" and l: "sysObjManLock s = 0" and room: "card T < MAXEVENTS" "oda_used (odg s) + 2 \<le> MAXDEPS"
    and u: "u_addressSpace (uthreads s object) = as" "parent_for (u_parentKernel (uthreads s object)) s = p"
    and live: "unat as \<notin> CKmem_avail (ckmem s)" "unat p \<notin> CKmem_avail (ckmem s)" "oda_before (odg s) \<notin> {as, p}"
    and r: "CKcacheObject object SIGTHREAD sz flags s = Some (CK_OK, s1)"
  shows "\<exists>a. a \<noteq> NIL \<and> a \<notin> T \<and> thread_in s object flags a T xs s1 \<and> sysObjManLock s1 = 0 \<and> flags AND OFLOCKED = 0"
proof -
  let ?s = "s\<lparr>sysObjManLock := 1\<rparr>"
  obtain s0 where c: "CKloadThreadObject object sz flags ?s = Some (CK_OK, s0)" "s1 = s0\<lparr>sysObjManLock := 0\<rparr>"
    using r l by (auto simp: CKcacheObject_def bind_eq_Some_conv)
  have e: "thread_error object flags s = CK_OK"
  proof (rule ccontr)
    assume "thread_error object flags s \<noteq> CK_OK"
    then show False using load_thread_error[of object flags ?s sz] c(1) by auto
  qed
  have "\<exists>a. a \<noteq> NIL \<and> a \<notin> T \<and> thread_in ?s object flags a T xs s0"
    using load_thread_cases[where s = ?s and T = T and xs = xs and object = object and flags = flags and as = as and p = p
        and sz = sz] i room u live e c(1) by (auto split: if_splits)
  moreover have "flags AND OFLOCKED = 0" using e by (simp add: thread_error_def Let_def split: if_splits)
  ultimately show ?thesis using c(2) by auto
qed

lemma sys_inv_load:
  fixes s :: "'a KERNEL_scheme"
  assumes i: "sys_inv s xs" and l: "loadable s xs object" and r: "CKcacheObject object SIGTHREAD sz flags s = Some (CK_OK, s1)"
  shows "sys_inv s1 (threadObjHead s1 # xs)"
proof -
  have om: "om_inv s (set xs) xs" and ok: "\<And>b. b \<in> set xs \<Longrightarrow> thread_ok s (set xs) b" and d: "distinct xs"
    using i by (simp_all add: sys_inv_def om_inv_def)
  obtain a where a: "a \<noteq> NIL" "a \<notin> set xs" "thread_in s object flags a (set xs) xs s1" "sysObjManLock s1 = 0" "flags AND OFLOCKED = 0"
    using cache_thread_in[OF om _ _ _ refl refl _ _ _ r] i l distinct_card[OF d] by (auto simp: loadable_def sys_inv_def)
  note t = a(3)[unfolded thread_in_def Let_def]
  have own: "own_blocks a (set xs \<union> {idleLoop s1} \<union> parents (odg s1)) s1" and inv: "om_inv s1 (set (a # xs)) (a # xs)"
    and h: "threadObjHead s1 = a" "idleLoop s1 = idleLoop s" "objectSignature (headers s1 a) = SIGTHREAD" "oflags (headers s1 a) = flags"
    using t by auto
  have av: "CKmem_avail (ckmem s) = CKmem_avail (ckmem s1) \<union> thread_blocks a s1" using t by (simp add: thread_blocks_def)
  have same: "same_identity (headers s b) (headers s1 b)" "thread_stack b s1 = thread_stack b s" "thread_blocks b s1 = thread_blocks b s"
    if "b \<in> set xs" for b
  proof -
    have "b \<noteq> a" using that a(2) by blast
    then have "threads s1 b = threads s b" "same_identity (headers s b) (headers s1 b)" using t by blast+
    then show "same_identity (headers s b) (headers s1 b)" "thread_stack b s1 = thread_stack b s" "thread_blocks b s1 = thread_blocks b s"
      by (simp_all add: thread_stack_def thread_blocks_def)
  qed
  have apart: "thread_blocks a s1 \<inter> thread_blocks b s = {}" if "b \<in> set xs" for b
    using own_blocksD(1) ok[OF that] av unfolding thread_ok_def by blast
  have p: "unat x \<notin> thread_blocks b s" if "b \<in> set xs" "x \<in> {a} \<union> (set xs - {b}) \<union> {idleLoop s} \<union> parents (odg s1)" for b x
  proof -
    have "own_blocks b (set xs - {b} \<union> {idleLoop s} \<union> parents (odg s)) s" using ok[OF that(1)] by (simp add: thread_ok_def)
    note o = own_blocksD(2)[OF this]
    have "unat a \<notin> thread_blocks b s" using apart[OF that(1)] thread_blocks_self[of a s1] by blast
    moreover have "parents (odg s1) \<subseteq> insert (u_addressSpace (uthreads s object))
        (insert (parent_for (u_parentKernel (uthreads s object)) s) (parents (odg s)))" using t by blast
    ultimately show ?thesis using that o l by (auto simp: loadable_def)
  qed
  have "thread_ok s1 (set (a # xs)) b" if b: "b \<in> set xs" for b
  proof -
    have o: "own_blocks b (set xs - {b} \<union> {idleLoop s} \<union> parents (odg s)) s" using ok[OF b] by (simp add: thread_ok_def)
    have "own_blocks b (set (a # xs) - {b} \<union> {idleLoop s1} \<union> parents (odg s1)) s1"
      by (rule own_blocks_mono[OF o same(2)[OF b]]) (use own_blocksD(1)[OF o] av p[OF b] h(2) in auto)
    moreover have "thread_blocks b s1 \<inter> thread_blocks c s1 = {}" if "c \<in> set (a # xs) - {b}" for c
      using that ok[OF b] apart[OF b] same(3) b by (cases "c = a") (auto simp: thread_ok_def)
    ultimately show ?thesis using ok[OF b] same(1)[OF b] by (simp add: thread_ok_def CKvalidThread_def same_identity_def)
  qed
  moreover have "thread_ok s1 (set (a # xs)) a"
    using own a(2,5) h apart same(3) by (auto simp: thread_ok_def CKvalidThread_def)
  ultimately show ?thesis using inv a(4) h(1) by (simp add: sys_inv_def)
qed

lemma sys_inv_unload:
  fixes s :: "'a KERNEL_scheme"
  assumes i: "sys_inv s xs" and a: "a \<in> set xs" "a \<noteq> currtask s"
  shows "\<exists>s1. CKunCacheObject a s = Some (CK_OK, s1) \<and> sys_inv s1 (remove1 a xs)"
proof -
  let ?s = "s\<lparr>sysObjManLock := 1\<rparr>"
  have om: "om_inv ?s (set xs) xs" and ok: "\<And>b. b \<in> set xs \<Longrightarrow> thread_ok s (set xs) b"
    using i by (simp_all add: sys_inv_def)
  have d: "distinct xs" using i by (simp add: sys_inv_def om_inv_def)
  obtain us vs where xs: "xs = us @ a # vs" using split_list[OF a(1)] by blast
  have rem: "remove1 a xs = us @ vs" "set xs - {a} = set (us @ vs)" using d by (auto simp: xs remove1_append)
  note oka = ok[OF a(1), unfolded thread_ok_def]
  have own: "own_blocks a (set xs - {a} \<union> {idleLoop s} \<union> parents (odg s)) s" using oka by blast
  have np: "a \<notin> parents (odg s)" using own_blocksD(2)[OF own] thread_blocks_self[of a s] by blast
  have own': "own_blocks a (set xs - {a} \<union> set (us @ vs) \<union> {idleLoop ?s} \<union> parents (odg ?s)) ?s"
    using own by (simp add: rem own_blocks_def Let_def thread_stack_def)
  obtain s1 where s1: "CKunloadThreadObject a ?s = Some (CK_OK, s1)" "om_inv s1 (set xs - {a}) (us @ vs)"
    "CKmem_avail (ckmem s1) = CKmem_avail (ckmem s) \<union> thread_blocks a s"
    "idleLoop s1 = idleLoop s" "parents (odg s1) \<subseteq> parents (odg s)"
    "\<And>x. taskState (threads s1 x) = taskState (threads s x)" "\<And>x. same_identity (headers s x) (headers s1 x)"
    using unload_thread_ok[OF om[unfolded xs] _ _ _ own'[unfolded xs]] a np by (auto simp: xs thread_blocks_def thread_stack_def)
  have st: "thread_stack b s1 = thread_stack b s" "thread_blocks b s1 = thread_blocks b s" for b
    by (simp_all add: thread_stack_def thread_blocks_def s1(6))
  have "thread_ok s1 (set (us @ vs)) b" if b: "b \<in> set (us @ vs)" for b
  proof -
    have b': "b \<in> set xs" "b \<noteq> a" using b rem(2) by auto
    have o: "own_blocks b (set xs - {b} \<union> {idleLoop s} \<union> parents (odg s)) s" using ok[OF b'(1)] by (simp add: thread_ok_def)
    have "thread_blocks b s \<inter> thread_blocks a s = {}" using ok[OF b'(1)] a(1) b'(2) by (auto simp: thread_ok_def)
    then have e: "thread_blocks b s \<inter> CKmem_avail (ckmem s1) = {}" using own_blocksD(1)[OF o] s1(3) by blast
    have sub: "set (us @ vs) - {b} \<union> {idleLoop s1} \<union> parents (odg s1) \<subseteq> set xs - {b} \<union> {idleLoop s} \<union> parents (odg s)"
      using s1(4,5) by (auto simp: xs)
    have "own_blocks b (set (us @ vs) - {b} \<union> {idleLoop s1} \<union> parents (odg s1)) s1"
      by (rule own_blocks_mono[OF o st(1) e]) (rule own_blocksD(2)[OF o subsetD[OF sub]])
    then show ?thesis using ok[OF b'(1)] s1(7)[of b] by (auto simp: thread_ok_def CKvalidThread_def same_identity_def st xs)
  qed
  moreover have "CKunCacheObject a s = Some (CK_OK, s1\<lparr>sysObjManLock := 0\<rparr>)"
  proof -
    have "degree (edges (odg s)) a = 0" using no_edges[OF np] .
    then have "dependencies (headers s a) = 0" using i by (simp add: sys_inv_def om_inv_def odg_wf_def)
    then show ?thesis using uncache_no_deps[of s a] s1(1) oka i by (simp add: unload_kind_def Let_def CKvalidThread_def sys_inv_def)
  qed
  moreover have "thread_ok (s1\<lparr>sysObjManLock := 0\<rparr>) T b = thread_ok s1 T b" for T b
    by (simp add: thread_ok_def CKvalidThread_def own_blocks_def Let_def thread_blocks_def thread_stack_def)
  ultimately show ?thesis using s1(2) by (simp add: sys_inv_def rem)
qed


section \<open>The steps of the system\<close>

text \<open>
  A state is the kernel with the list of its threads. Time and the threads call the scheduler, the
  running thread tunnels, the object manager loads and unloads, and interrupts arrive, in any
  order. A load that fails behind its checks is not a step: it leaves a freed header in the list.
  The handlers of an interrupt have to be loaded, which \<open>CKunCacheObject\<close> does not see to.
\<close>

inductive kstep :: "RKERNEL \<times> addr list \<Rightarrow> RKERNEL \<times> addr list \<Rightarrow> bool" where
  tick: "CKschedule s = Some s' \<Longrightarrow> kstep (s, xs) (s', xs)"
| tunnel: "a \<in> set xs \<Longrightarrow> currtask s \<in> set xs \<Longrightarrow> CKthreadTunnel a (Some ty) s = Some (r, s') \<Longrightarrow> kstep (s, xs) (s', xs)"
| set_state: "a \<in> set xs \<Longrightarrow> CKsetThreadState a (Some st) s = Some (r, s') \<Longrightarrow> kstep (s, xs) (s', xs)"
| send: "a \<in> set xs \<Longrightarrow> CKsendSignal a sig extra prio s = Some (r, s') \<Longrightarrow> kstep (s, xs) (s', xs)"
| interrupt: "chain (traps s) (trapHeads s ! unat intr) hs \<Longrightarrow> \<forall>h \<in> set hs. tr_sigThread (traps s h) \<in> set xs
    \<Longrightarrow> CKforwardGlobalInterrupt ds intr s = Some s' \<Longrightarrow> kstep (s, xs) (s', xs)"
| load: "loadable s xs object \<Longrightarrow> CKcacheObject object SIGTHREAD sz flags s = Some (CK_OK, s')
    \<Longrightarrow> kstep (s, xs) (s', threadObjHead s' # xs)"
| unload: "a \<in> set xs \<Longrightarrow> a \<noteq> currtask s \<Longrightarrow> CKunCacheObject a s = Some (r, s') \<Longrightarrow> kstep (s, xs) (s', remove1 a xs)"

inductive_cases kstep_cases: "kstep (s, xs) (s', xs')"

lemma sys_invD:
  fixes s :: "'a KERNEL_scheme"
  assumes "sys_inv s xs"
  shows "sched_inv s (set xs)" "CKmem_ok (ckmem s)" "distinct xs" "a \<in> set xs \<Longrightarrow> CKvalidThread a s"
  using assms by (simp_all add: sys_inv_def om_inv_def thread_ok_def)

lemma sys_inv_set_state:
  fixes s :: "'a KERNEL_scheme"
  assumes i: "sys_inv s xs" and a: "a \<in> set xs" and r: "CKsetThreadState a (Some st) s = Some (r, s')"
  shows "sys_inv s' xs"
proof (rule sys_inv_fixed[OF i])
  note f = fixed_set_state[OF r]
  have k: "idleLoop s' = idleLoop s" using f by (simp add: fixed_part_def)
  note inv = sys_invD(1)[OF i, unfolded sched_inv_def]
  have "sched_wf s' (set xs) \<and> (threads s' = threads s \<or> (\<forall>b. b \<noteq> a \<longrightarrow> ts (threads s' b) = ts (threads s b)))"
    using set_thread_state[of s "set xs" a st] inv sys_invD(4)[OF i a] a r by (auto split: if_splits)
  moreover have "currtask s' = currtask s" using f by blast
  ultimately show "sched_inv s' (set xs)" using inv a k by (fastforce simp: sched_inv_def runner_ok_def)
qed (use fixed_set_state[OF r] in blast)

lemma kstep_sys_inv:
  assumes "kstep x y" "sys_inv (fst x) (snd x)"
  shows "sys_inv (fst y) (snd y)"
  using assms
proof (induction rule: kstep.induct)
  case (tick s s' xs)
  then show ?case using sys_inv_fixed[OF _ fixed_schedule] CKschedule_some[OF sys_invD(1)] by fastforce
next
  case (tunnel a xs s ty r s')
  have i: "sys_inv s xs" using tunnel(4) by simp
  show ?case
    using sys_inv_fixed[OF i fixed_tunnel[OF tunnel(3)]] tunnel(3)
      CKthreadTunnel_some[OF sys_invD(1)[OF i] tunnel(1) sys_invD(4)[OF i tunnel(1)] tunnel(2), of ty] by auto
next
  case (set_state a xs st s r s')
  then show ?case using sys_inv_set_state by auto
next
  case (send a xs sig extra prio s r s')
  have i: "sys_inv s xs" using send(3) by simp
  note d = sys_invD(1,2)[OF i]
  obtain r' s1 where "CKsendSignal a sig extra prio s = Some (r', s1)" "sched_inv s1 (set xs)" "CKmem_ok (ckmem s1)"
    using CKsendSignal_some[OF d(1) send(1) d(2)] by blast
  then show ?case
    using sys_inv_frame[OF i frame_signal[OF send(2)]] CKsendSignal_avail[OF d(1) send(1) d(2) send(2)] send(2) by auto
next
  case (interrupt s intr hs xs ds s')
  have i: "sys_inv s xs" using interrupt(4) by simp
  note d = sys_invD(1,2)[OF i]
  obtain s1 where s1: "forward_loop intr (trapHeads s ! unat intr) s = Some s1" "sched_inv s1 (set xs)" "CKmem_ok (ckmem s1)"
    using forward_loop_ok[OF d interrupt(1,2)] by blast
  have "sys_inv s1 xs"
    using sys_inv_frame[OF i _ s1(2,3)] forward_loop_frame[OF d interrupt(1,2) s1(1)] by blast
  moreover have "sched_inv (quantumDone s1) (set xs)" using s1(2) sched_inv_same[of "quantumDone s1" s1] by (simp add: quantumDone_def)
  ultimately have "sys_inv s1 xs \<and> sys_inv (quantumDone s1) xs" using sys_inv_fixed[of s1 xs "quantumDone s1"] by simp
  then show ?case using interrupt(3) s1(1) by (auto simp: CKforwardGlobalInterrupt_def split: if_splits)
next
  case (load s xs object sz flags s')
  then show ?case using sys_inv_load by auto
next
  case (unload a xs s r s')
  then show ?case using sys_inv_unload[of s xs a] by auto
qed

lemma ksteps_sys_inv: "rtranclp kstep x y \<Longrightarrow> sys_inv (fst x) (snd x) \<Longrightarrow> sys_inv (fst y) (snd y)"
  by (induction rule: rtranclp_induct) (auto dest: kstep_sys_inv)

section \<open>A small system\<close>

text \<open>Two threads, with their stacks behind them, and the address space and free pages of \<open>om_kernel\<close>.\<close>

definition sys_kernel :: RKERNEL where
  "sys_kernel = res_kernel\<lparr>
     headers := (\<lambda>a. no_header\<lparr>objectSignature := (if a = 0x1000 \<or> a = 0x2000 then SIGTHREAD else if a = 0x500 then SIGADDRSPC else 0),
       prevObject := (if a = 0x2000 then 0x1000 else 0), nextObject := (if a = 0x1000 then 0x2000 else 0)\<rparr>),
     threads := (\<lambda>a. if a = 0x1000 then (thread_of ts_Running 5 0)\<lparr>taskState := no_TSS\<lparr>tss_esp0 := 0x6000\<rparr>\<rparr>
       else if a = 0x2000 then (thread_of ts_Running 7 1)\<lparr>taskState := no_TSS\<lparr>tss_esp0 := 0x8000\<rparr>\<rparr> else thread_of ts_Idle 0 0),
     heaps := (\<lambda>h. if h = ht_timesharing then heap_of [0x1000, 0x2000] else heap_of []),
     threadObjHead := 0x2000, currtask := 0x1000\<rparr>"

lemma sys_kernel_sched: "sched_inv sys_kernel {0x1000, 0x2000}"
proof -
  have "heap_wf (heap_of [0x1000, 0x2000]) (threads sys_kernel)" "heap_wf (heap_of []) (threads sys_kernel)"
    by (simp_all add: heap_eval sys_kernel_def)
  then have "sched_wf sys_kernel {0x1000, 0x2000}"
    by (auto simp: sched_wf_def sched_at_def heaps_ok_def sys_kernel_def MAXEVENTS_def)
  then show ?thesis by (simp add: sched_inv_def runner_ok_def sys_kernel_def om_kernel_def)
qed

lemma sys_kernel_fields [simp]:
  "ckmem sys_kernel = ckmem om_kernel" "odg sys_kernel = odg om_kernel" "idleLoop sys_kernel = 9" "currtask sys_kernel = 0x1000"
  "thread_stack 0x1000 sys_kernel = 0x4000" "thread_stack 0x2000 sys_kernel = 0x6000"
  by (simp_all add: sys_kernel_def thread_stack_def) (simp add: om_kernel_def)

lemma sys_kernel_graph: "parents (odg om_kernel) = {}" "sysObjManLock sys_kernel = 0"
  by (simp_all add: om_kernel_def empty_odg_def edges_def) (simp add: sys_kernel_def res_kernel_def om_kernel_def KERNEL.defs RKERNEL.defs)

lemma sys_kernel_blocks:
  "thread_blocks 0x1000 sys_kernel = {0x4000..<0x6000} \<union> {0x1000..<0x1128}"
  "thread_blocks 0x2000 sys_kernel = {0x6000..<0x8000} \<union> {0x2000..<0x2128}"
  by (simp_all add: thread_blocks_def bytes_def sizeof_CKThreadObject_def)

lemma sys_kernel_inv: "sys_inv sys_kernel [0x2000, 0x1000]"
proof -
  have "odg_wf (odg sys_kernel) (headers sys_kernel)"
    by (simp add: om_kernel_def odg_wf_def empty_odg_def oda_sorted_def firsts_ok_def degree_def edges_def)
      (simp add: sys_kernel_def no_header_def)
  moreover have "objects (headers sys_kernel) (threadObjHead sys_kernel) [0x2000, 0x1000]" by (simp add: sys_kernel_def no_header_def)
  ultimately have "om_inv sys_kernel {0x2000, 0x1000} [0x2000, 0x1000]"
    using om_kernel_mem sys_kernel_sched sys_kernel_graph by (simp add: om_inv_def insert_commute)
  moreover have "own_blocks 0x1000 {0x2000, 9} sys_kernel" "own_blocks 0x2000 {0x1000, 9} sys_kernel"
    by (simp_all add: own_blocks_def Let_def om_kernel_mem(2) bytes_def sizeof_CKThreadObject_def) auto
  moreover have "CKvalidThread 0x1000 sys_kernel" "CKvalidThread 0x2000 sys_kernel" "oflags (headers sys_kernel a) = 0" for a
    by (simp_all add: sys_kernel_def CKvalidThread_def no_header_def)
  moreover have "thread_blocks 0x1000 sys_kernel \<inter> thread_blocks 0x2000 sys_kernel = {}" unfolding sys_kernel_blocks by auto
  moreover have "{0x2000, 0x1000} - {0x1000} = {0x2000 :: addr}" "{0x2000, 0x1000} - {0x2000} = {0x1000 :: addr}" by auto
  ultimately show ?thesis
    using sys_kernel_graph by (simp add: sys_inv_def thread_ok_def insert_commute Int_commute)
qed

lemma sys_kernel_step:
  "\<exists>s'. kstep (sys_kernel, [0x2000, 0x1000]) (s', [0x2000, 0x1000]) \<and> currtask s' = 0x1000"
proof -
  obtain r s' where "CKsendSignal 0x2000 5 0 1 sys_kernel = Some (r, s')" "currtask s' = currtask sys_kernel"
    using CKsendSignal_some[OF sys_invD(1)[OF sys_kernel_inv] _ sys_invD(2)[OF sys_kernel_inv], of "0x2000" 5 0 1] by auto
  moreover from this(1) have "kstep (sys_kernel, [0x2000, 0x1000]) (s', [0x2000, 0x1000])" by (rule kstep.send[rotated]) simp
  ultimately show ?thesis by auto
qed

section \<open>Properties\<close>





end
