(* ===== verification/KL_Memory.thy ===== *)
theory KL_Memory
  imports CK_Prelude
begin

text \<open>
  The memory routines of the kernel library: \<^verbatim>\<open>KL/Memory/MemorySet.c\<close>,
  \<^verbatim>\<open>MemoryCopy.c\<close> and \<^verbatim>\<open>MemoryCompare.c\<close>, on a memory of bytes. Loops over bytes, words and
  blocks of words are written as the code has them; the properties say what they do to
  memory as a whole.
\<close>

section \<open>Bytes and words of memory\<close>

type_synonym memory = "addr \<Rightarrow> u8"

text \<open>Little-endian stores and loads.\<close>

definition store16 :: "addr \<Rightarrow> 16 word \<Rightarrow> memory \<Rightarrow> memory" where
  "store16 a w m = m(a := ucast w, a + 1 := ucast (drop_bit 8 w))"

definition store32 :: "addr \<Rightarrow> u32 \<Rightarrow> memory \<Rightarrow> memory" where
  "store32 a w m = m(a := ucast w, a + 1 := ucast (drop_bit 8 w), a + 2 := ucast (drop_bit 16 w), a + 3 := ucast (drop_bit 24 w))"

definition load16 :: "memory \<Rightarrow> addr \<Rightarrow> 16 word" where
  "load16 m a = ucast (m a) OR push_bit 8 (ucast (m (a + 1)))"

definition load32 :: "memory \<Rightarrow> addr \<Rightarrow> u32" where
  "load32 m a = ucast (m a) OR push_bit 8 (ucast (m (a + 1))) OR push_bit 16 (ucast (m (a + 2))) OR push_bit 24 (ucast (m (a + 3)))"

section \<open>KLmemorySet\<close>

text \<open>A loop that stores \<open>n\<close> bytes, and one that stores \<open>n\<close> words; both return the next address.\<close>

primrec set_bytes :: "nat \<Rightarrow> u8 \<Rightarrow> addr \<times> memory \<Rightarrow> addr \<times> memory" where
  "set_bytes 0 c s = s"
| "set_bytes (Suc n) c s = set_bytes n c (fst s + 1, (snd s)(fst s := c))"

primrec set_words :: "nat \<Rightarrow> u32 \<Rightarrow> addr \<times> memory \<Rightarrow> addr \<times> memory" where
  "set_words 0 w s = s"
| "set_words (Suc n) w s = set_words n w (fst s + 4, store32 (fst s) w (snd s))"

text \<open>Eight words per round.\<close>

primrec set_blocks :: "nat \<Rightarrow> u32 \<Rightarrow> addr \<times> memory \<Rightarrow> addr \<times> memory" where
  "set_blocks 0 w s = s"
| "set_blocks (Suc n) w s = set_blocks n w
     (let d = fst s; m = snd s in
      (d + 32, store32 (d + 28) w (store32 (d + 24) w (store32 (d + 20) w (store32 (d + 16) w
        (store32 (d + 12) w (store32 (d + 8) w (store32 (d + 4) w (store32 d w m)))))))))"

text \<open>The loop up to the first aligned address.\<close>

lemma aligned_iff: "(d :: addr) mod 4 = 0 \<longleftrightarrow> uint d mod 4 = 0"
  by (simp add: word_uint_eq_iff uint_mod_distrib)

lemma gap_int:
  fixes u v :: int
  assumes "u mod 4 \<noteq> 0" "v = u + 1 \<or> v = 0 \<and> u = 4294967295"
  shows "nat ((- u) mod 4) = Suc (nat ((- v) mod 4))"
proof -
  have m: "(- u) mod 4 = 4 - u mod 4" using assms(1) by (simp add: zmod_zminus1_eq_if)
  have "(- (u + 1)) mod 4 = 3 - u mod 4" using assms(1) by presburger
  moreover have "u mod 4 < 4" by simp
  ultimately have "nat ((- u) mod 4) = Suc (nat ((- (u + 1)) mod 4))" unfolding m by linarith
  then show ?thesis using assms(2) by (elim disjE conjE) simp_all
qed

lemma uint_succ: "uint (d + 1 :: u32) = uint d + 1 \<or> uint (d + 1) = 0 \<and> uint d = 4294967295"
proof (cases "uint d = 4294967295")
  case True
  then have "d = 4294967295" by (simp add: word_uint_eq_iff)
  then show ?thesis by simp
next
  case False
  moreover have "uint d < 4294967296" using unsigned_less[of d, where ?'a = int] by simp
  ultimately have "uint d + 1 < 2 ^ LENGTH(32)" by simp
  then show ?thesis by (simp add: uint_word_ariths(1) take_bit_int_eq_self_iff)
qed

lemma gap_step:
  assumes "(d :: addr) mod 4 \<noteq> 0"
  shows "nat ((- uint d) mod 4) = Suc (nat ((- uint (d + 1)) mod 4))"
  by (rule gap_int[OF _ uint_succ]) (use assms in \<open>simp add: aligned_iff\<close>)

function set_align :: "u8 \<Rightarrow> addr \<times> u32 \<times> memory \<Rightarrow> addr \<times> u32 \<times> memory" where
  "set_align c (dstp, mylen, m) =
     (if dstp mod 4 \<noteq> 0 then set_align c (dstp + 1, mylen - 1, m(dstp := c)) else (dstp, mylen, m))"
  by pat_completeness auto
termination
  by (relation "measure (\<lambda>(c, d, _, _). nat ((- uint d) mod 4))") (simp_all add: gap_step)


definition KLmemorySet :: "addr \<Rightarrow> u8 \<Rightarrow> u32 \<Rightarrow> memory \<Rightarrow> memory" where
  "KLmemorySet dstpp c len m0 =
     (let (dstp, mylen, m) =
        (if 8 \<le>s len then
           let c1 = ucast c; c2 = c1 OR push_bit 8 c1; cccc = c2 OR push_bit 16 c2;
               (d1, len1, m1) = set_align c (dstpp, len, m0);
               (d2, m2) = set_blocks (unat (len1 div 32)) cccc (d1, m1);
               len2 = len1 mod 32;
               (d3, m3) = set_words (unat (len2 div 4)) cccc (d2, m2)
           in (d3, len2 mod 4, m3)
         else (dstpp, len, m0))
      in snd (set_bytes (if 0 <s mylen then unat mylen else 0) c (dstp, m)))"

section \<open>What the loops fill\<close>

definition filled :: "addr \<Rightarrow> nat \<Rightarrow> u8 \<Rightarrow> memory \<Rightarrow> memory" where
  "filled a n c m = (\<lambda>x. if unat (x - a) < n then c else m x)"

lemma filled_0 [simp]: "filled a 0 c m = m"
  by (simp add: filled_def)

lemma filled_one: "m(a := c) = filled a 1 c m"
  by (auto simp: filled_def fun_eq_iff unat_eq_zero)

lemma unat_before:
  assumes "k + n \<le> 2 ^ 32"
  shows "unat (y - of_nat k :: u32) < n \<or> unat y < k \<longleftrightarrow> unat y < k + n"
proof (cases "unat y < k")
  case False
  then have "unat (of_nat k :: u32) = k" using unsigned_less[of y, where ?'a = nat] by (simp add: unat_of_nat)
  moreover have "of_nat k \<le> y" using False unsigned_less[of y, where ?'a = nat] by (simp add: word_le_nat_alt unat_of_nat)
  ultimately show ?thesis using False by (auto simp: unat_sub)
qed simp

lemma filled_append:
  assumes "k + n \<le> 2 ^ 32"
  shows "filled (a + of_nat k) n c (filled a k c m) = filled a (k + n) c m"
proof
  fix x
  show "filled (a + of_nat k) n c (filled a k c m) x = filled a (k + n) c m x"
    using unat_before[OF assms, of "x - a"] by (auto simp: filled_def diff_diff_eq)
qed

lemma set_bytes_filled:
  "n \<le> 2 ^ 32 \<Longrightarrow> set_bytes n c (d, m) = (d + of_nat n, filled d n c m)"
proof (induction n arbitrary: d m)
  case (Suc n)
  then show ?case using filled_append[of 1 n d c m] by (simp add: filled_one del: One_nat_def) (simp add: algebra_simps)
qed simp

text \<open>A word made of one byte.\<close>

definition rep32 :: "u8 \<Rightarrow> u32" where
  "rep32 c = (let c1 = ucast c; c2 = c1 OR push_bit 8 c1 in c2 OR push_bit 16 c2)"

lemma rep32_eq: "(ucast c OR push_bit 8 (ucast c)) OR push_bit 16 (ucast c) OR push_bit 24 (ucast c) = rep32 c"
  by (simp add: rep32_def Let_def)

lemma rep32_bytes:
  "ucast (rep32 c) = c" "ucast (drop_bit 8 (rep32 c)) = c" "ucast (drop_bit 16 (rep32 c)) = c" "ucast (drop_bit 24 (rep32 c)) = c"
  unfolding rep32_def Let_def by (rule bit_word_eqI; auto simp: bit_simps dest: bit_imp_le_length)+

lemma store32_filled: "store32 a (rep32 c) m = filled a 4 c m"
proof -
  have "m(a := c, a + 1 := c, a + 2 := c, a + 3 := c) = filled (a + of_nat 3) 1 c (filled (a + of_nat 2) 1 c (filled (a + of_nat 1) 1 c (filled a 1 c m)))"
    by (simp add: filled_one)
  also have "\<dots> = filled a 4 c m"
    using filled_append[of 1 1 a c m] filled_append[of 2 1 a c m] filled_append[of 3 1 a c m] by (simp del: One_nat_def)
  finally show ?thesis by (simp add: store32_def rep32_bytes)
qed

lemma set_words_filled:
  "4 * n \<le> 2 ^ 32 \<Longrightarrow> set_words n (rep32 c) (d, m) = (d + of_nat (4 * n), filled d (4 * n) c m)"
proof (induction n arbitrary: d m)
  case (Suc n)
  then show ?case using filled_append[of 4 "4 * n" d c m] by (simp add: store32_filled algebra_simps)
qed simp

definition gap_to_word :: "addr \<Rightarrow> nat" where
  "gap_to_word d = nat ((- uint d) mod 4)"

lemma gap_to_word_less: "gap_to_word d < 4"
  by (simp add: gap_to_word_def)

lemma gap_to_word_0: "d mod 4 = 0 \<longleftrightarrow> gap_to_word d = 0"
proof -
  have "uint d mod 4 < 4" by simp
  then show ?thesis unfolding aligned_iff gap_to_word_def by (simp add: zmod_zminus1_eq_if nat_eq_iff del: pos_mod_bound)
qed

declare set_align.simps [simp del]

lemma set_align_filled:
  "set_align c (d, l, m) = (d + of_nat (gap_to_word d), l - of_nat (gap_to_word d), filled d (gap_to_word d) c m)"
proof (induction "gap_to_word d" arbitrary: d l m)
  case 0
  then show ?case by (simp add: set_align.simps gap_to_word_0)
next
  case (Suc k)
  have k: "k = gap_to_word (d + 1)" "d mod 4 \<noteq> 0"
  proof -
    show "d mod 4 \<noteq> 0" using Suc(2) gap_to_word_0[of d] by simp
    from gap_step[OF this] show "k = gap_to_word (d + 1)" using Suc(2) unfolding gap_to_word_def by simp
  qed
  have e: "gap_to_word d = 1 + k" using Suc(2) by simp
  have "set_align c (d, l, m) = set_align c (d + 1, l - 1, m(d := c))" using k(2) by (simp add: set_align.simps)
  also have "\<dots> = (d + of_nat (gap_to_word d), l - of_nat (gap_to_word d), filled (d + of_nat 1) k c (filled d 1 c m))"
    unfolding Suc(1)[OF k(1)] k(1)[symmetric] e filled_one by (simp add: algebra_simps)
  finally show ?case using filled_append[of 1 k d c m] gap_to_word_less[of d] e by simp
qed

lemma set_blocks_words: "set_blocks n w (d, m) = set_words (8 * n) w (d, m)"
  by (induction n arbitrary: d m) (simp_all add: eval_nat_numeral Let_def add.commute add.left_commute)

lemma sless_zero: "(0 :: u32) <s w \<longleftrightarrow> 0 < sint w"
  by (simp add: word_sless_alt)

lemma uint_of_sint: "0 \<le> sint (w :: u32) \<Longrightarrow> uint w = sint w"
  using sint_lt[of w] by (simp add: uint_sint take_bit_int_eq_self)

lemma sint_of_uint: "uint (w :: u32) < 2 ^ 31 \<Longrightarrow> sint w = uint w"
  by (simp add: sint_uint signed_take_bit_int_eq_self order_trans[OF _ unsigned_greater_eq])

lemma unat_sint: "0 \<le> sint (w :: u32) \<Longrightarrow> unat w = nat (sint w)"
  by (simp add: uint_of_sint[symmetric])

lemma memory_set_filled:
  "KLmemorySet a c len m = filled a (if 0 <s len then unat len else 0) c m"
proof (cases "8 \<le>s len")
  case False
  show ?thesis
    using False set_bytes_filled[of "unat len" c a m] unsigned_less[of len, where ?'a = nat] by (simp add: KLmemorySet_def)
next
  case True
  define k where "k = gap_to_word a"
  define L where "L = unat len"
  define l1 where "l1 = len - of_nat k"
  have k: "k < 4" by (simp add: k_def gap_to_word_less)
  have si: "8 \<le> sint len" "sint len < 2 ^ 31" using True sint_lt[of len] by (simp_all add: word_sle_eq)
  then have L: "8 \<le> L" "L < 2 ^ 31" using unat_sint[of len] by (simp_all add: L_def)
  have l1: "unat l1 = L - k"
  proof -
    have "of_nat k \<le> len" using L k by (simp add: word_le_nat_alt unat_of_nat L_def)
    then show ?thesis using k by (simp add: l1_def unat_sub unat_of_nat L_def)
  qed
  define q where "q = (L - k) div 32"
  define r where "r = (L - k) mod 32"
  have u: "unat (l1 div 32) = q" "unat (l1 mod 32 div 4) = r div 4" "unat (l1 mod 32 mod 4) = r mod 4"
    by (simp_all add: unat_div unat_mod l1 q_def r_def)
  have "L - k = 32 * q + r" "r < 32" by (simp_all add: q_def r_def)
  then have sum: "L = k + 4 * (8 * q) + 4 * (r div 4) + r mod 4" using L(1) k by simp
  have tail: "(if 0 <s l1 mod 32 mod 4 then unat (l1 mod 32 mod 4) else 0) = r mod 4"
  proof -
    have "uint (l1 mod 32 mod 4) < 2 ^ 31" unfolding uint_nat u by simp
    then have "sint (l1 mod 32 mod 4) = uint (l1 mod 32 mod 4)" by (rule sint_of_uint)
    then have "0 <s l1 mod 32 mod 4 \<longleftrightarrow> r mod 4 \<noteq> 0" unfolding sless_zero uint_nat u by simp
    then show ?thesis using u(3) by simp
  qed
  have "KLmemorySet a c len m = snd (set_bytes (r mod 4) c (set_words (r div 4) (rep32 c) (set_words (8 * q) (rep32 c) (a + of_nat k, filled a k c m))))"
    using True tail u(1,2) set_align_filled[of c a len m]
    by (simp add: KLmemorySet_def set_blocks_words Let_def split_def rep32_eq k_def[symmetric] l1_def[symmetric] split del: if_split cong: if_cong)
  also have "set_words (8 * q) (rep32 c) (a + of_nat k, filled a k c m)
      = (a + of_nat k + of_nat (4 * (8 * q)), filled a (k + 4 * (8 * q)) c m)"
    using set_words_filled[of "8 * q" c] filled_append[of k "4 * (8 * q)" a c m] sum L(2) by simp
  also have "set_words (r div 4) (rep32 c) \<dots>
      = (a + of_nat (k + 4 * (8 * q)) + of_nat (4 * (r div 4)), filled a (k + 4 * (8 * q) + 4 * (r div 4)) c m)"
    using set_words_filled[of "r div 4" c] filled_append[of "k + 4 * (8 * q)" "4 * (r div 4)" a c m] sum L(2)
    by (simp add: add.assoc)
  also have "snd (set_bytes (r mod 4) c \<dots>) = filled a L c m"
    using set_bytes_filled[of "r mod 4" c] filled_append[of "k + 4 * (8 * q) + 4 * (r div 4)" "r mod 4" a c m] sum L(2)
    by (simp add: add.assoc)
  finally show ?thesis using si(1) by (simp add: L_def sless_zero)
qed

section \<open>KLmemoryCopy\<close>

lemma positive_size:
  assumes "0 <s (w :: u32)"
  shows "unat w < 2 ^ 31" "0 < unat w" "sint w = int (unat w)" "sint (w - 1) = sint w - 1" "sint (w - 2) = sint w - 2"
proof -
  have p: "0 < sint w" using assms by (simp add: sless_zero)
  have "sint w < 2 ^ 31" using sint_lt[of w] by simp
  then show u: "unat w < 2 ^ 31" "0 < unat w" "sint w = int (unat w)" using p unat_sint[of w] by simp_all
  show "sint (w - 1) = sint w - 1" "sint (w - 2) = sint w - 2"
    using sint_diff_small[OF u(1), of 1] sint_diff_small[OF u(1), of 2] u(3) by simp_all
qed

lemma size_decreases:
  "0 <s (w :: u32) \<Longrightarrow> nat (sint (w - 1)) < nat (sint w)" "0 <s w \<Longrightarrow> nat (sint (w - 2)) < nat (sint w)"
  using positive_size[of w] by linarith+

text \<open>The two loops, on the addresses and the size the code passes by reference or gives back.\<close>

function KLbyteCopyFwd :: "addr \<Rightarrow> addr \<Rightarrow> u32 \<Rightarrow> memory \<Rightarrow> addr \<times> addr \<times> memory" where
  "KLbyteCopyFwd dest src sz m =
     (if 0 <s sz then KLbyteCopyFwd (dest + 1) (src + 1) (sz - 1) (m(dest := m src)) else (dest, src, m))"
  by pat_completeness auto
termination
  by (relation "measure (\<lambda>(_, _, n, _). nat (sint n))") (simp_all only: in_measure case_prod_conv size_decreases wf_measure)

function KLwordCopyFwd :: "addr \<Rightarrow> addr \<Rightarrow> u32 \<Rightarrow> memory \<Rightarrow> u32 \<times> addr \<times> addr \<times> memory" where
  "KLwordCopyFwd dest src sz m =
     (if 0 <s sz then KLwordCopyFwd (dest + 2) (src + 2) (sz - 2) (store16 dest (load16 m src) m)
      else (- sz, dest, src, m))"
  by pat_completeness auto
termination
  by (relation "measure (\<lambda>(_, _, n, _). nat (sint n))") (simp_all only: in_measure case_prod_conv size_decreases wf_measure)

declare KLbyteCopyFwd.simps [simp del] KLwordCopyFwd.simps [simp del]

definition KLmemoryCopy :: "addr \<Rightarrow> addr \<Rightarrow> u32 \<Rightarrow> memory \<Rightarrow> memory" where
  "KLmemoryCopy dstpp srcpp len m0 =
     (let (destPtr, srcPtr, mylen, m) =
        (if 16 \<le>s len then
           let mylen = len - (- dstpp) mod 4;
               (d1, s1, m1) = KLbyteCopyFwd dstpp srcpp ((- dstpp) mod 4) m0;
               (rest, d2, s2, m2) = KLwordCopyFwd d1 s1 mylen m1
           in (d2, s2, rest, m2)
         else (dstpp, srcpp, len, m0))
      in snd (snd (KLbyteCopyFwd destPtr srcPtr mylen m)))"

section \<open>What is copied\<close>

definition copied :: "addr \<Rightarrow> nat \<Rightarrow> addr \<Rightarrow> memory \<Rightarrow> memory" where
  "copied src n dst m = (\<lambda>x. if unat (x - dst) < n then m (src + (x - dst)) else m x)"

text \<open>The two blocks have no byte in common.\<close>

definition apart :: "addr \<Rightarrow> addr \<Rightarrow> nat \<Rightarrow> bool" where
  "apart src dst n \<longleftrightarrow> (\<forall>i<n. \<forall>j<n. src + of_nat i \<noteq> dst + of_nat j)"

lemma copied_0 [simp]: "copied src 0 dst m = m"
  by (simp add: copied_def)

lemma copied_append:
  assumes a: "apart src dst (k + n)" and l: "k + n \<le> 2 ^ 32"
  shows "copied (src + of_nat k) n (dst + of_nat k) (copied src k dst m) = copied src (k + n) dst m"
proof
  fix x
  define y where "y = x - dst"
  have b: "unat (y - of_nat k) < n \<or> unat y < k \<longleftrightarrow> unat y < k + n" by (rule unat_before[OF l])
  have n: "\<not> unat (src + y - dst) < k" if "unat y < k + n"
  proof
    assume s: "unat (src + y - dst) < k"
    have "src + of_nat (unat y) = dst + of_nat (unat (src + y - dst))" by simp
    then show False using a that s unfolding apart_def by (meson trans_less_add1)
  qed
  have e: "x - (dst + of_nat k) = y - of_nat k" "src + of_nat k + (y - of_nat k) = src + y" "x - dst = y" by (simp_all add: y_def)
  show "copied (src + of_nat k) n (dst + of_nat k) (copied src k dst m) x = copied src (k + n) dst m x"
    unfolding copied_def e using b n by auto
qed

lemma copied_one: "m(dst := m src) = copied src 1 dst m"
  by (auto simp: copied_def fun_eq_iff unat_eq_zero)

lemma copied_two: "store16 dst (load16 m src) m = copied src 2 dst m"
proof -
  have "ucast (load16 m src) = m src" "ucast (drop_bit 8 (load16 m src)) = m (src + 1)"
    unfolding load16_def by (rule bit_word_eqI; auto simp: bit_simps dest: bit_imp_le_length)+
  moreover have "unat y < 2 \<longleftrightarrow> y = 0 \<or> y = 1" for y :: u32
    using word_unat_eq_iff[of y 1] by (auto simp: less_2_cases_iff unat_eq_zero)
  ultimately show ?thesis by (auto simp: store16_def copied_def fun_eq_iff diff_eq_eq add.commute)
qed

lemma apart_le: "apart src dst n \<Longrightarrow> k \<le> n \<Longrightarrow> apart src dst k"
  by (auto simp: apart_def)

lemma byte_copy:
  assumes "0 \<le> sint sz" "k + unat sz \<le> 2 ^ 32" "apart src dst (k + unat sz)"
  shows "KLbyteCopyFwd (dst + of_nat k) (src + of_nat k) sz (copied src k dst m)
    = (dst + of_nat (k + unat sz), src + of_nat (k + unat sz), copied src (k + unat sz) dst m)"
  using assms
proof (induction "unat sz" arbitrary: sz k)
  case 0
  then have "sz = 0" by (simp add: unat_eq_zero)
  then show ?case by (simp add: KLbyteCopyFwd.simps)
next
  case (Suc n)
  then have p: "0 <s sz" using unat_sint[of sz] by (auto simp: sless_zero order_less_le)
  have u: "unat (sz - 1) = n" using Suc(2) by (metis Suc_eq_plus1 add_diff_cancel_right' unat_minus_one unat_0 nat.distinct(1))
  have e: "k + unat sz = Suc k + n" using Suc(2) by simp
  have "KLbyteCopyFwd (dst + of_nat k) (src + of_nat k) sz (copied src k dst m)
    = KLbyteCopyFwd (dst + of_nat k + 1) (src + of_nat k + 1) (sz - 1) (copied (src + of_nat k) 1 (dst + of_nat k) (copied src k dst m))"
    using p by (simp add: KLbyteCopyFwd.simps[of _ _ sz] copied_one)
  also have "\<dots> = KLbyteCopyFwd (dst + of_nat (Suc k)) (src + of_nat (Suc k)) (sz - 1) (copied src (Suc k) dst m)"
    using copied_append[of src dst k 1 m] Suc(4,5) apart_le e by (simp add: algebra_simps)
  also have "\<dots> = (dst + of_nat (Suc k + n), src + of_nat (Suc k + n), copied src (Suc k + n) dst m)"
  proof -
    have "0 \<le> sint (sz - 1)" using positive_size(2-4)[OF p] by linarith
    from Suc(1)[OF u[symmetric] this, of "Suc k"] show ?thesis using Suc(4,5) unfolding u e by blast
  qed
  finally show ?case unfolding e .
qed

text \<open>The word loop copies an even number of bytes, one more than asked for when that is odd.\<close>

lemma half_step:
  assumes "2 \<le> (x :: nat)"
  shows "2 * ((x + 1) div 2) = 2 + 2 * ((x - 2 + 1) div 2)" "(x - 2) mod 2 = x mod 2"
proof -
  obtain y where "x = y + 2" using assms by (metis add.commute le_Suc_ex)
  then show "2 * ((x + 1) div 2) = 2 + 2 * ((x - 2 + 1) div 2)" "(x - 2) mod 2 = x mod 2" by simp_all
qed

lemma word_copy:
  assumes "0 \<le> sint sz" "k + 2 * ((unat sz + 1) div 2) \<le> 2 ^ 32" "apart src dst (k + 2 * ((unat sz + 1) div 2))"
  shows "KLwordCopyFwd (dst + of_nat k) (src + of_nat k) sz (copied src k dst m)
    = (of_nat (unat sz mod 2), dst + of_nat (k + 2 * ((unat sz + 1) div 2)), src + of_nat (k + 2 * ((unat sz + 1) div 2)),
       copied src (k + 2 * ((unat sz + 1) div 2)) dst m)"
  using assms
proof (induction "unat sz" arbitrary: sz k rule: less_induct)
  case less
  show ?case
  proof (cases "0 <s sz")
    case False
    then have "sint sz = 0" using less(2) by (simp add: sless_zero)
    then have "sz = 0" using unat_sint[of sz] by (simp add: unat_eq_zero)
    then show ?thesis by (simp add: KLwordCopyFwd.simps)
  next
    case p: True
    note ps = positive_size[OF p]
    let ?n = "2 * ((unat sz + 1) div 2)"
    have "KLwordCopyFwd (dst + of_nat k) (src + of_nat k) sz (copied src k dst m)
      = KLwordCopyFwd (dst + of_nat k + 2) (src + of_nat k + 2) (sz - 2) (copied (src + of_nat k) 2 (dst + of_nat k) (copied src k dst m))"
      using p by (simp add: KLwordCopyFwd.simps[of _ _ sz] copied_two)
    also have "\<dots> = KLwordCopyFwd (dst + of_nat (k + 2)) (src + of_nat (k + 2)) (sz - 2) (copied src (k + 2) dst m)"
    proof -
      have "k + 2 \<le> k + ?n" using ps(2) by presburger
      then have "apart src dst (k + 2)" "k + 2 \<le> 2 ^ 32" using apart_le[OF less(4)] less(3) by (blast, linarith)
      then show ?thesis using copied_append[of src dst k 2 m] by (simp add: algebra_simps)
    qed
    also have "\<dots> = (of_nat (unat sz mod 2), dst + of_nat (k + ?n), src + of_nat (k + ?n), copied src (k + ?n) dst m)"
    proof (cases "unat sz = 1")
      case True
      then have "sz = 1" by (simp add: word_unat_eq_iff)
      then show ?thesis by (simp add: KLwordCopyFwd.simps sless_zero)
    next
      case False
      then have 2: "2 \<le> unat sz" using ps(2) by simp
      then have u: "unat (sz - 2) = unat sz - 2" by (simp add: unat_sub word_le_nat_alt)
      have n: "?n = 2 + 2 * ((unat (sz - 2) + 1) div 2)" "unat (sz - 2) mod 2 = unat sz mod 2" 
        unfolding u by (rule half_step[OF 2])+
      have e: "k + ?n = k + 2 + 2 * ((unat (sz - 2) + 1) div 2)" unfolding n(1) by simp
      have "unat (sz - 2) < unat sz" "0 \<le> sint (sz - 2)" using u 2 ps(3,5) by linarith+
      from less(1)[OF this, of "k + 2"] less(3,4) show ?thesis unfolding e n(2) by blast
    qed
    finally show ?thesis .
  qed
qed

text \<open>How many bytes are copied: two more than asked for when a long copy has an odd rest behind the
  first aligned address.\<close>

definition copied_len :: "addr \<Rightarrow> u32 \<Rightarrow> nat" where
  "copied_len dst len = (if 16 \<le>s len \<and> odd (unat len - gap_to_word dst) then unat len + 2
     else if 0 <s len then unat len else 0)"

lemma odd_rest:
  "16 \<le> L \<Longrightarrow> k < 4 \<Longrightarrow> k + 2 * ((L - k + 1) div 2) + (L - k) mod 2 = (if odd (L - k) then L + 2 else (L :: nat))"
proof -
  assume "16 \<le> L" "k < 4"
  then obtain r where r: "L = k + r" using le_Suc_ex[of k L] by auto
  have "2 * ((r + 1) div 2) + r mod 2 = (if odd r then r + 2 else r)" by (auto elim!: evenE oddE)
  then show ?thesis unfolding r by (auto simp: odd_iff_mod_2_eq_one)
qed

lemma unat_gap: "unat ((- d) mod 4 :: addr) = gap_to_word d"
proof -
  have "uint (- d) = (- uint d) mod 2 ^ 32" by (simp add: uint_word_ariths)
  then have "uint ((- d) mod 4) = (- uint d) mod 4"
    using mod_mod_cancel[of 4 "2 ^ 32 :: int" "- uint d"] by (simp add: uint_mod_distrib)
  then show ?thesis unfolding gap_to_word_def nat_uint_eq[symmetric] by simp
qed

lemma memory_copy_copied:
  assumes a: "apart src dst (copied_len dst len)"
  shows "KLmemoryCopy dst src len m = copied src (copied_len dst len) dst m"
proof (cases "16 \<le>s len")
  case False
  show ?thesis
  proof (cases "0 <s len")
    case True
    then show ?thesis
      using byte_copy[of len 0 src dst m] False a positive_size[OF True] by (simp add: KLmemoryCopy_def copied_len_def)
  qed (simp add: KLmemoryCopy_def copied_len_def False KLbyteCopyFwd.simps)
next
  case True
  define k where "k = gap_to_word dst"
  define l where "l = len - of_nat k"
  have "of_nat (unat ((- dst) mod 4)) = (- dst) mod 4" by (metis of_nat_unat ucast_id)
  then have k: "k < 4" "(- dst) mod 4 = of_nat k" using gap_to_word_less[of dst] by (simp_all add: k_def unat_gap)
  have si: "16 \<le> sint len" "sint len < 2 ^ 31" using True sint_lt[of len] by (simp_all add: word_sle_eq)
  then have L: "16 \<le> unat len" "unat len < 2 ^ 31" "0 <s len" using unat_sint[of len] by (simp_all add: sless_zero)
  have l: "unat l = unat len - k"
  proof -
    have "of_nat k \<le> len" using L k(1) by (simp add: word_le_nat_alt unat_of_nat)
    then show ?thesis using k(1) by (simp add: l_def unat_sub unat_of_nat)
  qed
  have sl: "0 \<le> sint l" using l L by (simp add: sint_of_uint uint_nat)
  have sk: "0 \<le> sint (of_nat k :: u32)" "unat (of_nat k :: u32) = k" using k(1) by (simp_all add: sint_of_uint uint_nat unat_of_nat)
  define n where "n = k + 2 * ((unat l + 1) div 2)"
  have n: "n + unat l mod 2 = copied_len dst len"
    using True L(3) odd_rest[OF L(1) k(1)] unfolding copied_len_def n_def l k_def[symmetric] by simp
  have n32: "n + unat l mod 2 \<le> 2 ^ 32" unfolding n using L(2) by (simp add: copied_len_def)
  have r: "0 \<le> sint (of_nat (unat l mod 2) :: u32)" "unat (of_nat (unat l mod 2) :: u32) = unat l mod 2"
    by (simp_all add: sint_of_uint uint_nat unat_of_nat)
  note ap = apart_le[OF a[folded n]]
  have 1: "KLbyteCopyFwd dst src (of_nat k) m = (dst + of_nat k, src + of_nat k, copied src k dst m)"
    using byte_copy[of "of_nat k" 0 src dst m] sk k(1) ap[of k] n32 by (simp add: n_def)
  have 2: "KLwordCopyFwd (dst + of_nat k) (src + of_nat k) l (copied src k dst m)
      = (of_nat (unat l mod 2), dst + of_nat n, src + of_nat n, copied src n dst m)"
  proof -
    have "n \<le> 2 ^ 32" "apart src dst n" using n32 ap[of n] by simp_all
    then show ?thesis using word_copy[OF sl, of k src dst m] unfolding n_def by blast
  qed
  have 3: "snd (snd (KLbyteCopyFwd (dst + of_nat n) (src + of_nat n) (of_nat (unat l mod 2)) (copied src n dst m)))
      = copied src (n + unat l mod 2) dst m"
    using byte_copy[OF r(1), of n src dst m] ap n32 unfolding r(2) by simp
  show ?thesis using True 1 2 3 unfolding n by (simp add: KLmemoryCopy_def Let_def k(2) l_def[symmetric])
qed

section \<open>KLmemoryCompare\<close>

text \<open>The bytes are signed characters.\<close>

lemma count_up:
  assumes "i + 1 \<noteq> (len :: u32)"
  shows "unat (len - (i + 1 + 1)) < unat (len - (i + 1))"
proof -
  have n: "len - (i + 1) \<noteq> 0" using assms by simp
  have "unat (len - (i + 1) - 1) < unat (len - (i + 1))"
    unfolding unat_minus_one[OF n] using n by (simp add: unat_gt_0)
  moreover have "len - (i + 1 + 1) = len - (i + 1) - 1" by simp
  ultimately show ?thesis by (simp only:)
qed

function compare_loop :: "addr \<Rightarrow> addr \<Rightarrow> u32 \<Rightarrow> u32 \<Rightarrow> memory \<Rightarrow> u32" where
  "compare_loop srcp1 srcp2 len i m =
     (let a0 = scast (m srcp1); b0 = scast (m srcp2) in
      if i + 1 = len \<or> a0 \<noteq> b0 then a0 - b0 else compare_loop (srcp1 + 1) (srcp2 + 1) len (i + 1) m)"
  by pat_completeness auto
termination
proof (relation "measure (\<lambda>(_, _, len, i, _). unat (len - (i + 1)))", goal_cases)
  case (2 a b len i m x y)
  then show ?case using count_up[of i len] by simp
qed simp

declare compare_loop.simps [simp del]

definition KLmemoryCompare :: "addr \<Rightarrow> addr \<Rightarrow> u32 \<Rightarrow> memory \<Rightarrow> u32" where
  "KLmemoryCompare a b len m = compare_loop a b len 0 m"

text \<open>The place of the first difference in the first \<open>n\<close> bytes.\<close>

definition first_diff :: "memory \<Rightarrow> addr \<Rightarrow> addr \<Rightarrow> nat list \<Rightarrow> nat option" where
  "first_diff m a b = List.find (\<lambda>i. m (a + of_nat i) \<noteq> m (b + of_nat i))"

definition compare_spec :: "memory \<Rightarrow> addr \<Rightarrow> addr \<Rightarrow> nat option \<Rightarrow> u32" where
  "compare_spec m a b d = (case d of None \<Rightarrow> 0 | Some i \<Rightarrow> scast (m (a + of_nat i)) - scast (m (b + of_nat i)))"

lemma scast_u8_inj: "(scast x :: u32) = scast y \<longleftrightarrow> x = (y :: u8)"
proof
  assume "(scast x :: u32) = scast y"
  then have "(ucast (scast x :: u32) :: u8) = ucast (scast y :: u32)" by simp
  moreover have "(ucast (scast z :: u32) :: u8) = z" for z :: u8
    by (rule bit_word_eqI) (simp add: bit_simps)
  ultimately show "x = y" by simp
qed simp

lemma compare_loop_diff:
  assumes "i < n" "n \<le> 2 ^ 32" "(of_nat n :: u32) = len"
  shows "compare_loop (a + of_nat i) (b + of_nat i) len (of_nat i) m = compare_spec m a b (first_diff m a b [i..<n])"
  using assms(1)
proof (induction "n - i" arbitrary: i)
  case (Suc k)
  have up: "[i..<n] = i # [Suc i..<n]" using Suc(3) by (simp add: upt_rec)
  have e: "(of_nat i + 1 :: u32) = len \<longleftrightarrow> Suc i = n"
  proof
    assume "(of_nat i + 1 :: u32) = len"
    then have "(of_nat (Suc i) :: u32) = of_nat n" using assms(3) by (simp add: add.commute)
    then have "unat (of_nat (Suc i) :: u32) = unat (of_nat n :: u32)" by simp
    then have "Suc i mod 2 ^ 32 = n mod 2 ^ 32" unfolding unat_of_nat by simp
    then show "Suc i = n" using Suc(3) assms(2) by (cases "n = 2 ^ 32"; cases "Suc i = 2 ^ 32") simp_all
  qed (use assms(3) in auto)
  show ?case
  proof (cases "Suc i = n \<or> m (a + of_nat i) \<noteq> m (b + of_nat i)")
    case True
    then show ?thesis using e
      by (auto simp: compare_loop.simps[of "a + of_nat i"] Let_def up first_diff_def compare_spec_def scast_u8_inj)
  next
    case False
    have "k = n - Suc i" "Suc i < n" using Suc(2,3) False by auto
    note ih = Suc(1)[OF this]
    show ?thesis using False e ih
      by (auto simp: compare_loop.simps[of "a + of_nat i"] Let_def up first_diff_def scast_u8_inj algebra_simps)
  qed
qed simp

section \<open>Properties\<close>

text \<open>C33: Whatever the alignment of the block and the number of blocks of words in it, \<open>KLmemorySet\<close>
  sets the bytes of the block to the character and no other byte of memory, as the loop over
  single bytes would; a length that is not positive sets nothing (MemorySet.c).\<close>

theorem memory_set:
  "KLmemorySet dstpp c len m = (\<lambda>x. if unat (x - dstpp) < nat (sint len) then c else m x)"
  using memory_set_filled[of dstpp c len m] unat_sint[of len] by (auto simp: filled_def sless_zero)

text \<open>C34: \<open>KLmemoryCopy\<close> copies the bytes of one block to another that does not overlap it; but a
  copy of sixteen bytes or more that leaves an odd number behind the first aligned address
  of the destination writes two bytes beyond its end (MemoryCopy.c; the word loop
  \<open>KLwordCopyFwd\<close> rounds up and gives back a rest of one).\<close>

theorem memory_copy:
  assumes "apart srcpp dstpp (copied_len dstpp len)"
  shows "KLmemoryCopy dstpp srcpp len m
      = (\<lambda>x. if unat (x - dstpp) < copied_len dstpp len then m (srcpp + (x - dstpp)) else m x)
    \<and> copied_len dstpp len = nat (sint len) + (if 16 \<le>s len \<and> odd (sint len - int (unat ((- dstpp) mod 4))) then 2 else 0)"
proof
  show "KLmemoryCopy dstpp srcpp len m
      = (\<lambda>x. if unat (x - dstpp) < copied_len dstpp len then m (srcpp + (x - dstpp)) else m x)"
    using memory_copy_copied[OF assms, of m] unfolding copied_def .
  show "copied_len dstpp len = nat (sint len) + (if 16 \<le>s len \<and> odd (sint len - int (unat ((- dstpp) mod 4))) then 2 else 0)"
  proof (cases "16 \<le>s len")
    case True
    then have p: "0 <s len" "16 \<le> sint len" by (simp_all add: sless_zero word_sle_eq)
    note l = positive_size(3)[OF p(1)]
    have g: "gap_to_word dstpp \<le> unat len" using p(2) l gap_to_word_less[of dstpp] by linarith
    have "odd (sint len - int (unat ((- dstpp) mod 4))) \<longleftrightarrow> odd (unat len - gap_to_word dstpp)"
      unfolding l unat_gap of_nat_diff[OF g, symmetric] by (rule arg_cong[OF even_of_nat_iff])
    moreover have "nat (sint len) = unat len" unfolding l by simp
    ultimately show ?thesis using True p(1) unfolding copied_len_def by (cases "odd (unat len - gap_to_word dstpp)") (simp_all only: if_True if_False simp_thms add_0_right)
  next
    case False
    then show ?thesis by (auto simp: copied_len_def sless_zero unat_sint)
  qed
qed

text \<open>Seventeen bytes to an aligned address: nineteen are written.\<close>

theorem memory_copy_witness:
  "KLmemoryCopy 0x1000 0x2000 17 (\<lambda>x. ucast x) 0x1012 = 0x12"
proof -
  have k: "copied_len 0x1000 17 = 19"
    by (simp add: copied_len_def gap_to_word_def word_sle_eq)
  have "apart 0x2000 0x1000 19"
    unfolding apart_def
  proof (intro allI impI)
    fix i j :: nat assume "i < 19" "j < 19"
    then have "unat (0x2000 + of_nat i :: addr) = 0x2000 + i" "unat (0x1000 + of_nat j :: addr) = 0x1000 + j"
      by (simp_all add: unat_word_ariths unat_of_nat)
    moreover have "0x2000 + i \<noteq> 0x1000 + j" using \<open>i < 19\<close> \<open>j < 19\<close> by simp
    ultimately show "(0x2000 :: addr) + of_nat i \<noteq> 0x1000 + of_nat j" by (metis (no_types))
  qed
  then show ?thesis using memory_copy[of "0x2000" "0x1000" 17 "\<lambda>x. ucast x"] unfolding k by simp
qed

text \<open>Comparing gives the difference of the first bytes that differ, as signed characters; a length
  of zero compares all of memory, not nothing (MemoryCompare.c).\<close>

theorem memory_compare:
  "KLmemoryCompare a b len m = compare_spec m a b (first_diff m a b [0..<if len = 0 then 2 ^ 32 else unat len])"
proof (cases "len = 0")
  case True
  then show ?thesis using compare_loop_diff[of 0 "2 ^ 32" len a b m] by (simp add: KLmemoryCompare_def)
next
  case False
  then have "0 < unat len" "unat len \<le> 2 ^ 32" using unsigned_less[of len, where ?'a = nat] by (simp_all add: unat_gt_0 del: unsigned_less)
  moreover have "(of_nat (unat len) :: u32) = len" by (metis of_nat_unat ucast_id)
  ultimately show ?thesis using compare_loop_diff[of 0 "unat len" len a b m] False by (simp add: KLmemoryCompare_def)
qed

end
