(* ===== verification/KL_String.thy ===== *)
theory KL_String
  imports KL_Memory
begin

text \<open>
  The string routines of the kernel library (\<^verbatim>\<open>KL/String\<close>): \<open>KLstringLength\<close>, \<open>KLstringCopy\<close>,
  \<open>KLstringAppend\<close>, \<open>KLstringCompare\<close> and \<open>KLstringNumCopy\<close> on a byte memory. A loop that may run
  on past every string is a partial function: \<open>None\<close> is not returning, and each theorem says that
  the routine returns. The theorems compare with lists of characters: the length of the list, the
  bytes copied (\<open>copied\<close>, \<open>padded\<close>), the lexicographic order.
\<close>

section \<open>Strings in memory\<close>

text \<open>\<open>str_at m p w\<close>: at \<open>p\<close> stand the characters of \<open>w\<close> and a zero byte behind them.\<close>

definition str_at :: "memory \<Rightarrow> addr \<Rightarrow> u8 list \<Rightarrow> bool" where
  "str_at m p w \<longleftrightarrow> length w < 2 ^ 32 \<and> (\<forall>i<length w. m (p + of_nat i) = w ! i \<and> w ! i \<noteq> 0) \<and> m (p + of_nat (length w)) = 0"

lemma str_at_Nil [simp]: "str_at m p [] \<longleftrightarrow> m p = 0"
  by (simp add: str_at_def)

lemma str_at_Cons [simp]: "str_at m p (c # w) \<longleftrightarrow> c \<noteq> 0 \<and> m p = c \<and> str_at m (p + 1) w \<and> Suc (length w) < 2 ^ 32"
  by (auto simp: str_at_def less_Suc_eq_0_disj algebra_simps all_conj_distrib)

section \<open>KLstringLength\<close>

text \<open>The loop up to the first aligned address: \<open>Inl\<close> the length, or \<open>Inr\<close> that address.\<close>

lemma and_3_mod: "(d :: addr) AND 3 = d mod 4"
proof -
  have "d AND 3 = take_bit 2 d" by (simp add: take_bit_eq_mask mask_eq_exp_minus_1)
  then show ?thesis by (simp add: take_bit_eq_mod)
qed

function length_align :: "addr \<Rightarrow> addr \<Rightarrow> memory \<Rightarrow> u32 + addr" where
  "length_align str charPtr m =
     (if charPtr AND 3 \<noteq> 0 then (if m charPtr = 0 then Inl (charPtr - str) else length_align str (charPtr + 1) m)
      else Inr charPtr)"
  by pat_completeness auto
termination
  by (relation "measure (\<lambda>(_, d, _). nat ((- uint d) mod 4))") (simp_all add: gap_step and_3_mod)

declare length_align.simps [simp del]

partial_function (option) length_words :: "addr \<Rightarrow> addr \<Rightarrow> memory \<Rightarrow> u32 option" where
  "length_words str longwordPtr m =
     (let longword = load32 m longwordPtr; cp = longwordPtr in
      if (longword - 0x01010101) AND 0x80808080 \<noteq> 0 then
        if m cp = 0 then Some (cp - str)
        else if m (cp + 1) = 0 then Some (cp - str + 1)
        else if m (cp + 2) = 0 then Some (cp - str + 2)
        else if m (cp + 3) = 0 then Some (cp - str + 3)
        else length_words str (longwordPtr + 4) m
      else length_words str (longwordPtr + 4) m)"

definition KLstringLength :: "addr \<Rightarrow> memory \<Rightarrow> u32 option" where
  "KLstringLength str m =
     (case length_align str str m of Inl n \<Rightarrow> Some n | Inr charPtr \<Rightarrow> length_words str charPtr m)"

text \<open>The test finds every zero byte.\<close>

lemma or_shifted:
  assumes "0 \<le> b" "b < (256 :: int)"
  shows "b OR push_bit 8 k = b + 256 * k"
proof -
  have b: "b = take_bit 8 b" using assms by (simp add: take_bit_int_eq_self)
  have "b AND push_bit 8 k = 0" by (subst b, rule bit_eqI) (auto simp: bit_simps)
  from disjunctive_add_eq_or[OF this] show ?thesis by (simp add: push_bit_eq_mult mult.commute)
qed

lemma u8_range: "0 \<le> uint (c :: u8)" "uint (c :: u8) < 256"
  using unsigned_less[of c, where ?'a = int] by simp_all

lemma uint_load32:
  "uint (load32 m a) = uint (m a) + 256 * (uint (m (a + 1)) + 256 * (uint (m (a + 2)) + 256 * uint (m (a + 3))))"
proof -
  have t: "take_bit 32 (push_bit n (uint c)) = push_bit n (uint c)" if "n \<le> 24" for n and c :: u8
    by (rule bit_eqI) (use that in \<open>auto simp: bit_simps dest: bit_imp_le_length\<close>)
  have "uint (load32 m a) = uint (m a) OR push_bit 8 (uint (m (a + 1)) OR push_bit 8 (uint (m (a + 2)) OR push_bit 8 (uint (m (a + 3)))))"
    unfolding load32_def uint_or unsigned_push_bit_eq
    by (simp add: t push_bit_or unsigned_ucast_eq take_bit_int_eq_self order_less_trans[OF u8_range(2)] or.assoc)
  then show ?thesis by (simp only: or_shifted u8_range)
qed

lemma detect:
  assumes b: "0 \<le> b" "b < (256 :: int)" and n: "\<not> bit (b + 256 * k - (1 + 256 * l)) 7"
  shows "b \<noteq> 0" "bit (b + 256 * k - (1 + 256 * l)) (8 + n) = bit (k - l) n"
proof -
  show b0: "b \<noteq> 0"
  proof
    assume "b = 0"
    then have e: "b + 256 * k - (1 + 256 * l) = 255 + 256 * (k - l - 1)" by simp
    have "(255 + 256 * j) div 128 = 2 * j + 1" for j :: int by (rule int_div_pos_eq[where r = 127]) simp_all
    then have "bit (255 + 256 * j :: int) 7" for j by (simp add: bit_int_def)
    then show False using n unfolding e by blast
  qed
  have e: "b + 256 * k - (1 + 256 * l) = (b - 1) OR push_bit 8 (k - l)" using or_shifted[of "b - 1" "k - l"] b b0 by simp
  have "b - 1 = take_bit 8 (b - 1)" using b b0 by (simp add: take_bit_int_eq_self)
  then have "\<not> bit (b - 1) (8 + n)" by (metis bit_take_bit_iff not_add_less1)
  then show "bit (b + 256 * k - (1 + 256 * l)) (8 + n) = bit (k - l) n" unfolding e by (simp add: bit_or_iff bit_push_bit_iff)
qed

lemma magic_finds_zero:
  assumes "(load32 m a - 0x01010101) AND 0x80808080 = 0"
  shows "m a \<noteq> 0" "m (a + 1) \<noteq> 0" "m (a + 2) \<noteq> 0" "m (a + 3) \<noteq> 0"
proof -
  let ?x = "uint (load32 m a) - 0x01010101"
  have "bit (0x80808080 :: u32) n \<Longrightarrow> \<not> bit (load32 m a - 0x01010101) n" for n
  proof -
    have "\<not> bit ((load32 m a - 0x01010101) AND 0x80808080) n" unfolding assms by simp
    then show "bit (0x80808080 :: u32) n \<Longrightarrow> \<not> bit (load32 m a - 0x01010101) n" by (simp only: bit_and_iff simp_thms)
  qed
  moreover have "bit (load32 m a - 0x01010101) n = (n < 32 \<and> bit ?x n)" for n
  proof -
    have "load32 m a - 0x01010101 = word_of_int (uint (load32 m a) - uint (0x01010101 :: u32))" by (rule word_sub_wi)
    then have "load32 m a - 0x01010101 = word_of_int ?x" by simp
    then show ?thesis by (simp only: bit_word_of_int_iff) simp
  qed
  moreover have "bit (0x80808080 :: u32) 7" "bit (0x80808080 :: u32) 15" "bit (0x80808080 :: u32) 23" "bit (0x80808080 :: u32) 31"
    by simp_all
  ultimately have n: "\<not> bit ?x 7" "\<not> bit ?x 15" "\<not> bit ?x 23" "\<not> bit ?x 31" by auto
  define k3 where "k3 = uint (m (a + 3))"
  define k2 where "k2 = uint (m (a + 2)) + 256 * k3"
  define k1 where "k1 = uint (m (a + 1)) + 256 * k2"
  have x: "?x = uint (m a) + 256 * k1 - (1 + 256 * 0x010101)" unfolding uint_load32 k1_def k2_def k3_def by simp
  note 0 = detect[OF u8_range n(1)[unfolded x]]
  show "m a \<noteq> 0" using 0(1) by auto
  have "\<not> bit (k1 - 0x010101) 7" "\<not> bit (k1 - 0x010101) 15" "\<not> bit (k1 - 0x010101) 23"
    using n(2-4) 0(2)[of 7] 0(2)[of 15] 0(2)[of 23] unfolding x by simp_all
  note n1 = this
  have x1: "k1 - 0x010101 = uint (m (a + 1)) + 256 * k2 - (1 + 256 * 0x0101)" by (simp add: k1_def)
  note 1 = detect[OF u8_range n1(1)[unfolded x1]]
  show "m (a + 1) \<noteq> 0" using 1(1) by auto
  have n2: "\<not> bit (k2 - 0x0101) 7" "\<not> bit (k2 - 0x0101) 15"
    using n1(2,3) 1(2)[of 7] 1(2)[of 15] unfolding x1 by simp_all
  have x2: "k2 - 0x0101 = uint (m (a + 2)) + 256 * k3 - (1 + 256 * 1)" by (simp add: k2_def)
  note 2 = detect[OF u8_range n2(1)[unfolded x2]]
  show "m (a + 2) \<noteq> 0" using 2(1) by auto
  have n3: "\<not> bit (k3 - 1) 7" using n2(2) 2(2)[of 7] unfolding x2 by simp
  show "m (a + 3) \<noteq> 0" using detect(1)[OF u8_range, of "m (a + 3)" 0 0] n3 by (auto simp: k3_def)
qed

lemma str_at_end:
  assumes "str_at m p w" "k \<le> length w"
  shows "m (p + of_nat k) = 0 \<longleftrightarrow> k = length w"
  using assms by (auto simp: str_at_def order_le_less)

lemma length_words_ok:
  assumes s: "str_at m p w" and k: "k \<le> length w"
  shows "length_words p (p + of_nat k) m = Some (of_nat (length w))"
  using k
proof (induction "length w - k" arbitrary: k rule: less_induct)
  case less
  let ?q = "p + of_nat k"
  have z: "m (?q + of_nat j) = 0 \<longleftrightarrow> k + j = length w" if "k + j \<le> length w" for j
    using str_at_end[OF s that] by (simp add: add.assoc)
  have z0: "m ?q = 0 \<longleftrightarrow> k = length w" and z1: "k < length w \<Longrightarrow> m (?q + 1) = 0 \<longleftrightarrow> k + 1 = length w"
    and z2: "k + 1 < length w \<Longrightarrow> m (?q + 2) = 0 \<longleftrightarrow> k + 2 = length w" and z3: "k + 2 < length w \<Longrightarrow> m (?q + 3) = 0 \<longleftrightarrow> k + 3 = length w"
    using z[of 0] z[of 1] z[of 2] z[of 3] less(2) by simp_all
  show ?case
  proof (cases "length w \<le> k + 3")
    case True
    then have len: "length w = k \<or> length w = k + 1 \<or> length w = k + 2 \<or> length w = k + 3" using less(2) by linarith
    then have "m ?q = 0 \<or> m (?q + 1) = 0 \<or> m (?q + 2) = 0 \<or> m (?q + 3) = 0" using z0 z1 z2 z3 by auto
    then have "(load32 m ?q - 0x01010101) AND 0x80808080 \<noteq> 0" using magic_finds_zero[of m ?q] by blast
    then have e: "length_words p ?q m = (if m ?q = 0 then Some (of_nat k) else if m (?q + 1) = 0 then Some (of_nat k + 1)
        else if m (?q + 2) = 0 then Some (of_nat k + 2) else if m (?q + 3) = 0 then Some (of_nat k + 3)
        else length_words p (?q + 4) m)"
      by (subst length_words.simps) (simp add: Let_def)
    from len show ?thesis
      using z0 z1 z2 z3 unfolding e by (elim disjE) (simp_all add: add.commute)
  next
    case False
    then have nz: "m ?q \<noteq> 0" "m (?q + 1) \<noteq> 0" "m (?q + 2) \<noteq> 0" "m (?q + 3) \<noteq> 0" using z0 z1 z2 z3 by auto
    have "length_words p (p + of_nat (k + 4)) m = Some (of_nat (length w))"
      by (rule less(1)) (use False in auto)
    then show ?thesis using nz by (subst length_words.simps) (simp add: Let_def algebra_simps)
  qed
qed

lemma length_align_ok:
  assumes s: "str_at m p w" and k: "k \<le> length w"
  shows "length_align p (p + of_nat k) m = Inl (of_nat (length w))
    \<or> (\<exists>j\<le>length w. length_align p (p + of_nat k) m = Inr (p + of_nat j))"
  using k
proof (induction "length w - k" arbitrary: k)
  case 0
  then have "k = length w" by simp
  then show ?case using str_at_end[OF s, of k] by (auto simp: length_align.simps[of p])
next
  case (Suc n)
  then have "m (p + of_nat k) \<noteq> 0" using str_at_end[OF s, of k] by auto
  then have "length_align p (p + of_nat k) m = (if (p + of_nat k) AND 3 \<noteq> 0 then length_align p (p + of_nat (Suc k)) m else Inr (p + of_nat k))"
    by (subst length_align.simps) (simp add: algebra_simps)
  then show ?case using Suc(1)[of "Suc k"] Suc(2,3) by auto
qed

text \<open>C35: \<open>KLstringLength\<close> reads four characters at a time and looks for a zero byte with
  \<open>(longword - 0x01010101) & 0x80808080\<close>. From any alignment it returns, and its result is the
  number of characters in front of the first zero byte.\<close>

theorem string_length:
  assumes "str_at m str w"
  shows "KLstringLength str m = Some (of_nat (length w))"
  using length_align_ok[OF assms, of 0] length_words_ok[OF assms] by (auto simp: KLstringLength_def)

theorem string_length_witness:
  "KLstringLength 0x1001 ((\<lambda>_. 0)(0x1001 := 0x61, 0x1002 := 0xFF, 0x1003 := 0x81, 0x1004 := 0x80, 0x1005 := 1, 0x1006 := 2)) = Some 6"
proof -
  have "KLstringLength 0x1001 ((\<lambda>_. 0)(0x1001 := 0x61, 0x1002 := 0xFF, 0x1003 := 0x81, 0x1004 := 0x80, 0x1005 := 1, 0x1006 := 2))
      = Some (of_nat (length [0x61, 0xFF, 0x81, 0x80, 1, 2 :: u8]))"
    by (rule string_length) simp
  then show ?thesis by simp
qed

section \<open>Loops over bytes\<close>

text \<open>\<open>off\<close> is the distance from the byte behind the one read to the one written.\<close>

partial_function (option) copy_loop :: "addr \<Rightarrow> u32 \<Rightarrow> memory \<Rightarrow> memory option" where
  "copy_loop s off m =
     (let c = m s; s' = s + 1; m' = m(s' + off := c)
      in if c \<noteq> 0 then copy_loop s' off m' else Some m')"

definition KLstringCopy :: "addr \<Rightarrow> addr \<Rightarrow> memory \<Rightarrow> memory option" where
  "KLstringCopy dest src m = copy_loop src (dest - src - 1) m"

partial_function (option) find_end :: "addr \<Rightarrow> memory \<Rightarrow> addr option" where
  "find_end s1 m = (if m s1 \<noteq> 0 then find_end (s1 + 1) m else Some (s1 + 1))"

partial_function (option) append_loop :: "addr \<Rightarrow> addr \<Rightarrow> memory \<Rightarrow> memory option" where
  "append_loop s1 s2 m =
     (let c = m s2; m' = m(s1 + 1 := c) in if c \<noteq> 0 then append_loop (s1 + 1) (s2 + 1) m' else Some m')"

definition KLstringAppend :: "addr \<Rightarrow> addr \<Rightarrow> memory \<Rightarrow> memory option" where
  "KLstringAppend dest src m = Option.bind (find_end dest m) (\<lambda>s1. append_loop (s1 - 2) src m)"

text \<open>The characters are unsigned here.\<close>

partial_function (option) string_compare_loop :: "addr \<Rightarrow> addr \<Rightarrow> memory \<Rightarrow> u32 option" where
  "string_compare_loop s1 s2 m =
     (let c1 = m s1; c2 = m s2 in
      if c1 = 0 then Some (ucast c1 - ucast c2)
      else if c1 = c2 then string_compare_loop (s1 + 1) (s2 + 1) m
      else Some (ucast c1 - ucast c2))"

definition KLstringCompare :: "addr \<Rightarrow> addr \<Rightarrow> memory \<Rightarrow> u32 option" where
  "KLstringCompare p1 p2 m = string_compare_loop p1 p2 m"

lemma copied_source:
  assumes "apart src dst n" "k \<le> n" "i < n"
  shows "copied src k dst m (src + of_nat i) = m (src + of_nat i)"
proof -
  have "\<not> unat (src + of_nat i - dst) < k"
  proof
    assume "unat (src + of_nat i - dst) < k"
    moreover have "src + of_nat i = dst + of_nat (unat (src + of_nat i - dst))" by simp
    ultimately show False using assms unfolding apart_def by (meson order_less_le_trans)
  qed
  then show ?thesis by (simp add: copied_def)
qed

text \<open>One character more.\<close>

lemma copied_next:
  assumes a: "apart src dst n" and k: "k < n" "n \<le> 2 ^ 32"
  shows "(copied src k dst m)(dst + of_nat k := m (src + of_nat k)) = copied src (Suc k) dst m"
proof -
  have "(copied src k dst m)(dst + of_nat k := copied src k dst m (src + of_nat k)) = copied src (k + 1) dst m"
    unfolding copied_one using copied_append[of src dst k 1 m] apart_le[OF a, of "k + 1"] k by simp
  then show ?thesis using copied_source[OF a _ k(1), of k m] k(1) by simp
qed

lemma str_at_less: "str_at m p w \<Longrightarrow> length w + 1 \<le> 2 ^ 32"
  by (simp add: str_at_def)

lemma copy_loop_ok:
  assumes s: "str_at m src w" and a: "apart src dst (length w + 1)" and k: "k \<le> length w"
  shows "copy_loop (src + of_nat k) (dst - src - 1) (copied src k dst m) = Some (copied src (length w + 1) dst m)"
  using k
proof (induction "length w - k" arbitrary: k)
  case 0
  then show ?case using str_at_end[OF s, of k] copied_next[OF a _ str_at_less[OF s], of k m] copied_source[OF a, of k k m]
    by (subst copy_loop.simps) (simp add: Let_def algebra_simps)
next
  case (Suc n)
  then have "copy_loop (src + of_nat (Suc k)) (dst - src - 1) (copied src (Suc k) dst m) = Some (copied src (length w + 1) dst m)" by (intro Suc(1)) auto
  moreover have "k \<noteq> length w" using Suc(2) by auto
  ultimately show ?case using Suc(2,3) str_at_end[OF s, of k] copied_next[OF a _ str_at_less[OF s], of k m] copied_source[OF a, of k k m]
    by (subst copy_loop.simps) (simp add: Let_def algebra_simps)
qed

lemma append_loop_ok:
  assumes s: "str_at m src w" and a: "apart src dst (length w + 1)" and k: "k \<le> length w"
  shows "append_loop (dst - 1 + of_nat k) (src + of_nat k) (copied src k dst m) = Some (copied src (length w + 1) dst m)"
  using k
proof (induction "length w - k" arbitrary: k)
  case 0
  then show ?case using str_at_end[OF s, of k] copied_next[OF a _ str_at_less[OF s], of k m] copied_source[OF a, of k k m]
    by (subst append_loop.simps) (simp add: Let_def algebra_simps)
next
  case (Suc n)
  then have "append_loop (dst - 1 + of_nat (Suc k)) (src + of_nat (Suc k)) (copied src (Suc k) dst m) = Some (copied src (length w + 1) dst m)" by (intro Suc(1)) auto
  moreover have "k \<noteq> length w" using Suc(2) by auto
  ultimately show ?case using Suc(2,3) str_at_end[OF s, of k] copied_next[OF a _ str_at_less[OF s], of k m] copied_source[OF a, of k k m]
    by (subst append_loop.simps) (simp add: Let_def algebra_simps)
qed

lemma find_end_ok:
  assumes s: "str_at m p w" and k: "k \<le> length w"
  shows "find_end (p + of_nat k) m = Some (p + of_nat (length w) + 1)"
  using k
proof (induction "length w - k" arbitrary: k)
  case 0
  then show ?case using str_at_end[OF s, of k] by (subst find_end.simps) simp
next
  case (Suc n)
  then have "find_end (p + of_nat (Suc k)) m = Some (p + of_nat (length w) + 1)" by (intro Suc(1)) auto
  moreover have "k \<noteq> length w" using Suc(2) by auto
  ultimately show ?case using Suc(2,3) str_at_end[OF s, of k] by (subst find_end.simps) (simp add: algebra_simps)
qed

theorem string_copy:
  assumes "str_at m src w" "apart src dest (length w + 1)"
  shows "KLstringCopy dest src m = Some (copied src (length w + 1) dest m)"
  using copy_loop_ok[OF assms, of 0] by (simp add: KLstringCopy_def)

theorem string_append:
  assumes "str_at m dest v" "str_at m src w" "apart src (dest + of_nat (length v)) (length w + 1)"
  shows "KLstringAppend dest src m = Some (copied src (length w + 1) (dest + of_nat (length v)) m)"
  using append_loop_ok[OF assms(2,3), of 0] find_end_ok[OF assms(1), of 0] by (simp add: KLstringAppend_def)

text \<open>The order of strings: the difference of the first characters that differ.\<close>

fun string_order :: "u8 list \<Rightarrow> u8 list \<Rightarrow> u32" where
  "string_order (c # v) (d # w) = (if c = d then string_order v w else ucast c - ucast d)"
| "string_order (c # v) [] = ucast c"
| "string_order [] (d # w) = - ucast d"
| "string_order [] [] = 0"

lemma string_compare_loop_ok:
  "str_at m p v \<Longrightarrow> str_at m q w \<Longrightarrow> string_compare_loop p q m = Some (string_order v w)"
proof (induction v w arbitrary: p q rule: string_order.induct)
  case (1 c v d w)
  then show ?case by (cases "c = d") (subst string_compare_loop.simps, simp add: Let_def)+
qed (subst string_compare_loop.simps, simp add: Let_def)+

lemma u8_diff_sign:
  fixes c d :: u8
  assumes "c \<noteq> d"
  shows "sint (ucast c - ucast d :: u32) < 0 \<longleftrightarrow> c < d" "(ucast c - ucast d :: u32) \<noteq> 0"
proof -
  have u: "uint (ucast c :: u32) = uint c" "uint (ucast d :: u32) = uint d"
    by (simp_all add: unsigned_ucast_eq take_bit_int_eq_self order_less_trans[OF u8_range(2)])
  have "unat (ucast c :: u32) < 2 ^ 31" "unat (ucast d :: u32) < 2 ^ 31"
    using u8_range(2)[of c] u8_range(2)[of d] u by (simp_all add: nat_less_iff flip: nat_uint_eq)
  from sint_diff_small[OF this] show "sint (ucast c - ucast d :: u32) < 0 \<longleftrightarrow> c < d" unfolding u by (simp add: word_less_def)
  have "uint (ucast c :: u32) \<noteq> uint (ucast d :: u32)" using assms unfolding u by (simp add: word_uint_eq_iff)
  then show "(ucast c - ucast d :: u32) \<noteq> 0" by auto
qed

lemma string_order_lexord:
  assumes "0 \<notin> set v" "0 \<notin> set w"
  shows "string_order v w = 0 \<longleftrightarrow> v = w" "sint (string_order v w) < 0 \<longleftrightarrow> (v, w) \<in> lexord {(c, d). c < d}"
proof -
  from assms have "(string_order v w = 0 \<longleftrightarrow> v = w) \<and> (sint (string_order v w) < 0 \<longleftrightarrow> (v, w) \<in> lexord {(c, d). c < d})"
  proof (induction v w rule: string_order.induct)
    case (1 c v d w)
    then show ?case using u8_diff_sign[of c d] by (cases "c = d") (auto simp: lexord_cons_cons)
  next
    case (2 c v)
    then show ?case using u8_diff_sign[of c 0] by auto
  next
    case (3 d w)
    then show ?case using u8_diff_sign[of 0 d] by (auto simp: word_gt_0)
  qed auto
  then show "string_order v w = 0 \<longleftrightarrow> v = w" "sint (string_order v w) < 0 \<longleftrightarrow> (v, w) \<in> lexord {(c, d). c < d}" by blast+
qed

lemma str_at_nonzero: "str_at m p w \<Longrightarrow> 0 \<notin> set w"
  by (auto simp: str_at_def in_set_conv_nth)

theorem string_compare:
  assumes "str_at m p1 v" "str_at m p2 w"
  shows "\<exists>r. KLstringCompare p1 p2 m = Some r \<and> (r = 0 \<longleftrightarrow> v = w) \<and> (sint r < 0 \<longleftrightarrow> (v, w) \<in> lexord {(c, d). c < d})"
  using string_compare_loop_ok[OF assms] string_order_lexord[OF str_at_nonzero str_at_nonzero, OF assms] by (simp add: KLstringCompare_def)

section \<open>KLstringNumCopy\<close>

text \<open>
  The state is the address to read next, the address written last, and memory. \<open>copy_chars\<close>
  copies up to \<open>n\<close> characters and tells whether it met the end of the string; the code's loop has
  four copies of its body. The count of the last two loops is the number of characters left.
\<close>

fun copy_chars :: "nat \<Rightarrow> addr \<times> addr \<times> memory \<Rightarrow> bool \<times> addr \<times> addr \<times> memory" where
  "copy_chars 0 st = (False, st)"
| "copy_chars (Suc n) (s2, s1, m) =
     (let c = m s2; st = (s2 + 1, s1 + 1, m(s1 + 1 := c)) in if c = 0 then (True, st) else copy_chars n st)"

fun copy_quads :: "nat \<Rightarrow> addr \<times> addr \<times> memory \<Rightarrow> bool \<times> addr \<times> addr \<times> memory" where
  "copy_quads 0 st = (False, st)"
| "copy_quads (Suc n4) st =
     (case copy_chars 4 st of (stop, st') \<Rightarrow> if stop then (True, st') else copy_quads n4 st')"

primrec zero_fill :: "nat \<Rightarrow> addr \<Rightarrow> memory \<Rightarrow> memory" where
  "zero_fill 0 s1 m = m"
| "zero_fill (Suc n) s1 m = zero_fill n (s1 + 1) (m(s1 + 1 := 0))"

fun last_chars :: "nat \<Rightarrow> addr \<times> addr \<times> memory \<Rightarrow> memory" where
  "last_chars 0 (s2, s1, m) = m"
| "last_chars (Suc n) (s2, s1, m) =
     (let c = m s2; m' = m(s1 + 1 := c) in
      if c \<noteq> 0 then last_chars n (s2 + 1, s1 + 1, m') else zero_fill n (s1 + 1) m')"

definition KLstringNumCopy :: "addr \<Rightarrow> addr \<Rightarrow> u32 \<Rightarrow> memory \<Rightarrow> memory" where
  "KLstringNumCopy s s2 num m =
     (if 4 \<le> num then
        (case copy_quads (unat (drop_bit 2 num)) (s2, s - 1, m) of
           (True, _, s1, m') \<Rightarrow> zero_fill (unat (num - (s1 - s) - 1)) s1 m'
         | (False, st) \<Rightarrow> last_chars (unat (num AND 3)) st)
      else last_chars (unat (num AND 3)) (s2, s - 1, m))"

definition padded :: "u8 list \<Rightarrow> nat \<Rightarrow> addr \<Rightarrow> memory \<Rightarrow> memory" where
  "padded w n dst m = (\<lambda>x. let i = unat (x - dst) in if i < n then (if i < length w then w ! i else 0) else m x)"

lemma padded_0 [simp]: "padded w 0 dst m = m"
  by (simp add: padded_def)

lemma padded_step:
  assumes "k < 2 ^ 32"
  shows "(padded w k dst m)(dst + of_nat k := (if k < length w then w ! k else 0)) = padded w (Suc k) dst m"
proof
  fix x
  have u: "unat (of_nat k :: u32) = k" using assms by (simp add: unat_of_nat)
  have "unat (x - dst) = k \<longleftrightarrow> x = dst + of_nat k"
  proof
    assume "unat (x - dst) = k"
    then have "x - dst = of_nat k" by auto
    then show "x = dst + of_nat k" by (simp add: algebra_simps)
  qed (simp add: u)
  then show "((padded w k dst m)(dst + of_nat k := (if k < length w then w ! k else 0))) x = padded w (Suc k) dst m x"
    by (auto simp: padded_def Let_def less_Suc_eq)
qed

text \<open>The string and the destination have no byte in common.\<close>

definition away :: "addr \<Rightarrow> nat \<Rightarrow> addr \<Rightarrow> nat \<Rightarrow> bool" where
  "away src k dst n \<longleftrightarrow> (\<forall>i<k. \<forall>j<n. src + of_nat i \<noteq> dst + of_nat j)"

lemma padded_source:
  assumes "away src l dst n" "i < l" "k \<le> n"
  shows "padded w k dst m (src + of_nat i) = m (src + of_nat i)"
proof -
  have "\<not> unat (src + of_nat i - dst) < k"
  proof
    assume "unat (src + of_nat i - dst) < k"
    moreover have "src + of_nat i = dst + of_nat (unat (src + of_nat i - dst))" by simp
    ultimately show False using assms unfolding away_def by (meson order_less_le_trans)
  qed
  then show ?thesis by (simp add: padded_def)
qed

lemma padded_char:
  assumes s: "str_at m src w" and a: "away src (length w + 1) dst n" and k: "k \<le> length w" "k < n"
  shows "padded w k dst m (src + of_nat k) = (if k < length w then w ! k else 0)"
    "(if k < length w then w ! k else 0) = 0 \<longleftrightarrow> k = length w"
  using padded_source[OF a, of k k w m] s k by (auto simp: str_at_def)


lemma padded_next:
  assumes s: "str_at m src w" and a: "away src (length w + 1) dst n" and k: "k \<le> length w" "k < n" "n \<le> 2 ^ 32"
  shows "padded w k dst m (src + of_nat k) = 0 \<longleftrightarrow> k = length w"
    "(padded w k dst m)(dst + of_nat k := padded w k dst m (src + of_nat k)) = padded w (Suc k) dst m"
proof -
  show "padded w k dst m (src + of_nat k) = 0 \<longleftrightarrow> k = length w"
    unfolding padded_char(1)[OF s a k(1,2)] by (rule padded_char(2)[OF s a k(1,2)])
  show "(padded w k dst m)(dst + of_nat k := padded w k dst m (src + of_nat k)) = padded w (Suc k) dst m"
    unfolding padded_char(1)[OF s a k(1,2)] by (rule padded_step) (use k in simp)
qed

text \<open>The state after \<open>k\<close> characters.\<close>

definition after :: "addr \<Rightarrow> u8 list \<Rightarrow> addr \<Rightarrow> memory \<Rightarrow> nat \<Rightarrow> addr \<times> addr \<times> memory" where
  "after src w dst m k = (src + of_nat k, dst + of_nat k - 1, padded w k dst m)"

lemma copy_chars_ok:
  assumes s: "str_at m src w" and a: "away src (length w + 1) dst n" and n: "n \<le> 2 ^ 32"
  shows "k \<le> length w \<Longrightarrow> k + i \<le> n \<Longrightarrow>
    copy_chars i (after src w dst m k) = (if k + i \<le> length w then (False, after src w dst m (k + i)) else (True, after src w dst m (length w + 1)))"
proof (induction i arbitrary: k)
  case (Suc i)
  then have "copy_chars (Suc i) (after src w dst m k) = (if k = length w then (True, after src w dst m (k + 1)) else copy_chars i (after src w dst m (Suc k)))"
    using padded_next[OF s a, of k] n by (cases "k = length w") (simp_all add: after_def Let_def algebra_simps)
  then show ?case using Suc(1)[of "Suc k"] Suc(2,3) by auto
qed simp

lemma copy_quads_ok:
  assumes s: "str_at m src w" and a: "away src (length w + 1) dst n" and n: "n \<le> 2 ^ 32"
  shows "k \<le> length w \<Longrightarrow> k + 4 * i \<le> n \<Longrightarrow>
    copy_quads i (after src w dst m k) = (if k + 4 * i \<le> length w then (False, after src w dst m (k + 4 * i)) else (True, after src w dst m (length w + 1)))"
proof (induction i arbitrary: k)
  case (Suc i)
  then show ?case using Suc(1)[of "k + 4"] copy_chars_ok[OF s a n, of k 4] by (auto simp: algebra_simps simp del: copy_chars.simps)
qed simp

lemma zero_fill_ok:
  assumes "length w < k" "k + i \<le> 2 ^ 32"
  shows "zero_fill i (dst + of_nat k - 1) (padded w k dst m) = padded w (k + i) dst m"
  using assms
proof (induction i arbitrary: k)
  case (Suc i)
  then show ?case using Suc(1)[of "Suc k"] padded_step[of k w dst m] by (simp add: algebra_simps)
qed simp

lemma last_chars_ok:
  assumes s: "str_at m src w" and a: "away src (length w + 1) dst n" and n: "n \<le> 2 ^ 32"
  shows "k \<le> length w \<Longrightarrow> k + i \<le> n \<Longrightarrow> last_chars i (after src w dst m k) = padded w (k + i) dst m"
proof (induction i arbitrary: k)
  case (Suc i)
  then have "last_chars (Suc i) (after src w dst m k)
      = (if k = length w then zero_fill i (dst + of_nat (Suc k) - 1) (padded w (Suc k) dst m) else last_chars i (after src w dst m (Suc k)))"
    using padded_next[OF s a, of k] n by (cases "k = length w") (simp_all add: after_def Let_def algebra_simps)
  then show ?case using Suc(1)[of "Suc k"] Suc(2,3) zero_fill_ok[of w "Suc k" i dst m] n by (simp split: if_splits)
qed (simp add: after_def)

text \<open>
  \<open>n\<close> bytes are written: the characters of the source and, when it is shorter, zeros. When the
  source has \<open>n\<close> characters or more no zero byte is written.
\<close>

theorem string_num_copy:
  assumes s: "str_at m s2 w" and a: "away s2 (length w + 1) s (unat n)"
  shows "KLstringNumCopy s s2 n m = padded w (unat n) s m"
proof -
  let ?n = "unat n"
  have n: "?n \<le> 2 ^ 32" using unsigned_less[of n, where ?'a = nat] by simp
  have st: "(s2, s - 1, m) = after s2 w s m 0" by (simp add: after_def)
  have q: "unat (drop_bit 2 n) = ?n div 4" by (simp add: drop_bit_eq_div unat_div)
  have r: "unat (n AND 3) = ?n mod 4" unfolding and_3_mod by (simp add: unat_mod)
  show ?thesis
  proof (cases "4 \<le> n")
    case True
    show ?thesis
    proof (cases "4 * (?n div 4) \<le> length w")
      case small: True
      then show ?thesis using True copy_quads_ok[OF s a n, of 0 "?n div 4"] last_chars_ok[OF s a n, of "4 * (?n div 4)" "?n mod 4"]
        by (simp add: KLstringNumCopy_def st q r)
    next
      case False
      let ?l = "length w + 1"
      have l: "?l \<le> ?n" using False by linarith
      have "unat (of_nat x :: u32) = x" if "x \<le> ?n" for x using that unsigned_less[of n, where ?'a = nat] by (simp add: unat_of_nat)
      from this[OF l] have "unat (n - of_nat ?l) = ?n - ?l" using l unat_sub[of "of_nat ?l" n] by (simp only: word_le_nat_alt)
      then have u: "unat (n - (s + of_nat ?l - 1 - s) - 1) = ?n - ?l" by (simp add: diff_diff_eq add.commute)
      have "copy_quads (?n div 4) (s2, s - 1, m) = (True, after s2 w s m ?l)"
        unfolding st using copy_quads_ok[OF s a n, of 0 "?n div 4"] False by simp
      then have "KLstringNumCopy s s2 n m = zero_fill (?n - ?l) (s + of_nat ?l - 1) (padded w ?l s m)"
        unfolding KLstringNumCopy_def q if_P[OF True] after_def u[symmetric] by (simp only: prod.case bool.case)
      also have "\<dots> = padded w (?l + (?n - ?l)) s m" by (rule zero_fill_ok) (use l n in linarith)+
      finally show ?thesis using l by simp
    qed
  next
    case False
    then have "?n < 4" by (simp add: word_le_nat_alt)
    then show ?thesis using False last_chars_ok[OF s a n, of 0 ?n] by (simp add: KLstringNumCopy_def st r)
  qed
qed

end
