(* ===== verification/KL_StringMatch.thy ===== *)
theory KL_StringMatch
  imports KL_String "HOL-Library.Sublist"
begin

text \<open>
  Two more string routines of the kernel library: \<open>KLstringCompareNoCase\<close> with its table of lower
  case letters, and \<open>KLstringMatch\<close>, a search for a substring written with jumps into a loop. The
  search returns the first place where the substring stands (\<open>first_match\<close>); the comparison is the
  order of the strings in lower case, for characters below 127.
\<close>

section \<open>KLstringCompareNoCase\<close>

text \<open>
  The table has no entry for the character 127, so what stands behind it is one place too low. Its
  entries and the characters are signed: a character from 128 on reads before the table.
\<close>

definition LowerCaseASCII :: "u8 list" where
  "LowerCaseASCII = List.map (\<lambda>i. of_nat (if 65 \<le> i \<and> i \<le> 90 then i + 32 else i)) [0..<127] @ List.map of_nat [128..<255]"

definition LOWERCASE :: "u8 \<Rightarrow> u8 option" where
  "LOWERCASE i = (if sint i < 0 then None else Some (LowerCaseASCII ! nat (sint i)))"

text \<open>\<open>Inl\<close>: a byte before the table is used.\<close>

partial_function (option) nocase_loop :: "addr \<Rightarrow> addr \<Rightarrow> memory \<Rightarrow> (unit + u32) option" where
  "nocase_loop p1 p2 m =
     (case LOWERCASE (m p1) of None \<Rightarrow> Some (Inl ()) | Some c1 \<Rightarrow>
      (case LOWERCASE (m p2) of None \<Rightarrow> Some (Inl ()) | Some c2 \<Rightarrow>
       (let ret = ucast c1 - scast c2 in
        if ret = 0 \<and> c1 \<noteq> 0 then nocase_loop (p1 + 1) (p2 + 1) m else Some (Inr ret))))"

definition KLstringCompareNoCase :: "addr \<Rightarrow> addr \<Rightarrow> memory \<Rightarrow> (unit + u32) option" where
  "KLstringCompareNoCase s1 s2 m = (if s1 = s2 then Some (Inr 0) else nocase_loop s1 s2 m)"

text \<open>Upper case letters become lower case ones.\<close>

definition lower :: "u8 \<Rightarrow> u8" where
  "lower c = (if 65 \<le> c \<and> c \<le> 90 then c + 32 else c)"

lemma sint_ascii: "c < 127 \<Longrightarrow> sint (c :: u8) = uint c"
  using order_trans[OF _ u8_range(1), of "- 128" c] unfolding sint_uint
  by (intro signed_take_bit_int_eq_self) (simp_all add: word_less_def)

lemma LOWERCASE_ascii:
  assumes "c < 127"
  shows "LOWERCASE c = Some (lower c)" "lower c < 127" "lower c = 0 \<longleftrightarrow> c = 0"
proof -
  have c: "unat c < 127" using assms by (simp add: word_less_nat_alt)
  have "sint c = int (unat c)" using sint_ascii[OF assms] by simp
  then show "LOWERCASE c = Some (lower c)"
    using c by (simp add: LOWERCASE_def LowerCaseASCII_def nth_append lower_def word_le_nat_alt)
  have "unat (c + 32) = unat c + 32" using c by (simp add: unat_word_ariths)
  then have l: "unat (lower c) < 127" "unat (lower c) = 0 \<longleftrightarrow> unat c = 0" using c by (auto simp: lower_def word_le_nat_alt)
  from l(1) show "lower c < 127" by (simp add: word_less_nat_alt)
  from l(2) show "lower c = 0 \<longleftrightarrow> c = 0" by (simp only: unat_eq_zero)
qed

lemma scast_ascii: "c < 127 \<Longrightarrow> (scast (c :: u8) :: u32) = ucast c"
  using sint_ascii[of c] by (metis of_int_sint of_int_uint)

lemma nocase_loop_ok:
  "str_at m p v \<Longrightarrow> str_at m q w \<Longrightarrow> \<forall>c\<in>set v. c < 127 \<Longrightarrow> \<forall>c\<in>set w. c < 127 \<Longrightarrow>
    nocase_loop p q m = Some (Inr (string_order (List.map lower v) (List.map lower w)))"
proof (induction v w arbitrary: p q rule: list_induct2')
  case 1
  then show ?case using LOWERCASE_ascii[of 0] by (subst nocase_loop.simps) (simp add: Let_def scast_ascii)
next
  case (2 c v)
  then show ?case using LOWERCASE_ascii[of c] LOWERCASE_ascii[of 0] u8_diff_sign(2)[of "lower c" 0]
    by (subst nocase_loop.simps) (auto simp: Let_def scast_ascii)
next
  case (3 d w)
  then show ?case using LOWERCASE_ascii[of d] LOWERCASE_ascii[of 0] u8_diff_sign(2)[of 0 "lower d"]
    by (subst nocase_loop.simps) (auto simp: Let_def scast_ascii)
next
  case (4 c v d w)
  then show ?case using LOWERCASE_ascii[of c] LOWERCASE_ascii[of d] u8_diff_sign(2)[of "lower c" "lower d"]
    by (subst nocase_loop.simps) (auto simp: Let_def scast_ascii)
qed

lemma str_at_unique: "str_at m p v \<Longrightarrow> str_at m p w \<Longrightarrow> v = w"
proof (induction v arbitrary: p w)
  case Nil
  then show ?case by (cases w) auto
next
  case (Cons c v)
  then show ?case by (cases w) auto
qed

theorem string_compare_nocase:
  assumes "str_at m s1 v" "str_at m s2 w" "\<forall>c\<in>set v. c < 127" "\<forall>c\<in>set w. c < 127"
  shows "\<exists>r. KLstringCompareNoCase s1 s2 m = Some (Inr r)
    \<and> (r = 0 \<longleftrightarrow> List.map lower v = List.map lower w)
    \<and> (sint r < 0 \<longleftrightarrow> (List.map lower v, List.map lower w) \<in> lexord {(c, d). c < d})"
proof -
  have "0 \<notin> set (List.map lower v)" "0 \<notin> set (List.map lower w)"
    using str_at_nonzero[OF assms(1)] str_at_nonzero[OF assms(2)] assms(3,4) LOWERCASE_ascii(3) by force+
  note o = string_order_lexord[OF this]
  show ?thesis
  proof (cases "s1 = s2")
    case True
    then have "v = w" using str_at_unique assms(1,2) by blast
    then show ?thesis using o True by (auto simp: KLstringCompareNoCase_def)
  next
    case False
    then show ?thesis using o nocase_loop_ok[OF assms] by (simp add: KLstringCompareNoCase_def)
  qed
qed

text \<open>Two strings that consist of the character 127 are not equal for the code.\<close>

theorem string_compare_del:
  assumes "str_at m s1 [127]" "str_at m s2 [127]" "s1 \<noteq> s2"
  shows "KLstringCompareNoCase s1 s2 m = Some (Inr 256)"
proof -
  have "LOWERCASE 127 = Some 128" by code_simp
  then show ?thesis using assms by (simp add: KLstringCompareNoCase_def) (subst nocase_loop.simps, simp add: Let_def)
qed

section \<open>KLstringMatch\<close>

text \<open>
  The code jumps into the loop that looks for the first two characters of the needle: \<open>Scan\<close> is
  the head of that loop, \<open>Shloop\<close> and \<open>Jin\<close> are its labels. \<open>needle\<close> points to the third
  character. The address returned is 0 when nothing is found.
\<close>

partial_function (option) first_char :: "addr \<Rightarrow> u8 \<Rightarrow> memory \<Rightarrow> addr option option" where
  "first_char haystack b m =
     (let h = haystack + 1; c = m h in
      if c = 0 then Some None else if c \<noteq> b then first_char h b m else Some (Some h))"

partial_function (option) compare_rest :: "addr \<Rightarrow> addr \<Rightarrow> u8 \<Rightarrow> memory \<Rightarrow> u8 option" where
  "compare_rest rhaystack needle a m =
     (if a = 0 then Some a
      else let a = m (needle + 1) in
        if m (rhaystack + 1) \<noteq> a then Some a
        else if a = 0 then Some a
        else let a = m (needle + 2) in
          if m (rhaystack + 2) = a then compare_rest (rhaystack + 2) (needle + 2) a m else Some a)"

datatype match_label = Scan | Shloop u8 | Jin

partial_function (option) match_loop :: "match_label \<Rightarrow> addr \<Rightarrow> u8 \<Rightarrow> u8 \<Rightarrow> addr \<Rightarrow> memory \<Rightarrow> addr option" where
  "match_loop l haystack b c needle m =
     (case l of
        Scan \<Rightarrow>
          (let a = m (haystack + 1) in
           if a = 0 then Some 0
           else if a = b then match_loop Jin (haystack + 1) b c needle m
           else let a = m (haystack + 2) in
             if a = 0 then Some 0 else match_loop (Shloop a) (haystack + 2) b c needle m)
      | Shloop a \<Rightarrow>
          (if a \<noteq> b then match_loop Scan haystack b c needle m else match_loop Jin haystack b c needle m)
      | Jin \<Rightarrow>
          (let a = m (haystack + 1) in
           if a = 0 then Some 0
           else if a \<noteq> c then match_loop (Shloop a) (haystack + 1) b c needle m
           else let rhaystack = haystack + 2; a = m needle in
             Option.bind (if m rhaystack = a then compare_rest rhaystack needle a m else Some a)
               (\<lambda>a. if a = 0 then Some haystack else match_loop Scan haystack b c needle m)))"

definition KLstringMatch :: "addr \<Rightarrow> addr \<Rightarrow> memory \<Rightarrow> addr option" where
  "KLstringMatch phaystack pneedle m =
     (let b = m pneedle in
      if b = 0 then Some phaystack
      else Option.bind (first_char (phaystack - 1) b m)
        (\<lambda>r. case r of
           None \<Rightarrow> Some 0
         | Some haystack \<Rightarrow>
             (let c = m (pneedle + 1) in
              if c = 0 then Some haystack else match_loop Jin haystack b c (pneedle + 2) m)))"

text \<open>The first place where \<open>w\<close> is a prefix of the rest of \<open>v\<close>.\<close>

fun first_match :: "u8 list \<Rightarrow> u8 list \<Rightarrow> nat option" where
  "first_match w [] = (if w = [] then Some 0 else None)"
| "first_match w (c # v) = (if prefix w (c # v) then Some 0 else map_option Suc (first_match w v))"

definition found_at :: "addr \<Rightarrow> nat option \<Rightarrow> addr" where
  "found_at h r = (case r of None \<Rightarrow> 0 | Some i \<Rightarrow> h + of_nat i)"

lemma found_at_simps [simp]:
  "found_at h None = 0" "found_at h (Some 0) = h" "found_at h (map_option Suc r) = found_at (h + 1) r"
  by (auto simp: found_at_def algebra_simps split: option.splits)

lemma str_at_head:
  assumes "str_at m p w"
  obtains "w = []" "m p = 0" | c w' where "w = c # w'" "m p = c" "c \<noteq> 0" "str_at m (p + 1) w'"
  using assms by (cases w) auto

lemma str_at_Cons2: "str_at m (p + 1) (c # w) \<Longrightarrow> m (p + 1) = c \<and> c \<noteq> 0 \<and> str_at m (p + 2) w"
  by (simp add: add.assoc)

lemma str_at_Nil2: "str_at m (p + 1) [] \<Longrightarrow> m (p + 1) = 0"
  by simp

lemma compare_rest_ok:
  "str_at m rh v \<Longrightarrow> str_at m nd w \<Longrightarrow> m rh = m nd \<Longrightarrow> \<exists>a. compare_rest rh nd (m nd) m = Some a \<and> (a = 0 \<longleftrightarrow> prefix w v)"
proof (induction w arbitrary: v rh nd rule: induct_list012)
  case 1
  then show ?case by (subst compare_rest.simps) simp
next
  case (2 x)
  then show ?case by (subst compare_rest.simps) (cases v; auto simp: Let_def)
next
  case (3 x y w)
  from "3.prems" obtain v' where v: "v = x # v'" by (cases v) auto
  have n: "x \<noteq> 0" "m nd = x" "m (nd + 1) = y" "y \<noteq> 0" "str_at m (nd + 2) w" using "3.prems"(2) by (auto simp: add.assoc)
  have h: "str_at m (rh + 1) v'" using "3.prems"(1) v by simp
  show ?case
  proof (cases "m (rh + 1) = y")
    case False
    then have "\<not> prefix (y # w) v'" using h n by (cases v') auto
    then show ?thesis using False n v by (subst compare_rest.simps) (simp add: Let_def)
  next
    case True
    then obtain v'' where v': "v' = y # v''" "str_at m (rh + 2) v''" using h n by (cases v') (auto simp: add.assoc)
    show ?thesis
    proof (cases "m (rh + 2) = m (nd + 2)")
      case eq: True
      then show ?thesis using "3.IH"(1)[OF v'(2) n(5) eq] n v v' True by (subst compare_rest.simps) (simp add: Let_def)
    next
      case False
      then have "m (nd + 2) = 0 \<longleftrightarrow> prefix w v''" using n(5) v'(2) by (cases w; cases v'') auto
      then show ?thesis using False n v v' True by (subst compare_rest.simps) (simp add: Let_def)
    qed
  qed
qed

lemma first_char_ok:
  assumes "str_at m (h + 1) v"
  shows "first_char h b m = Some None \<and> b \<notin> set v \<or>
    (\<exists>h' v'. first_char h b m = Some (Some h') \<and> str_at m h' (b # v') \<and> b \<noteq> 0
       \<and> (\<forall>w. found_at (h + 1) (first_match (b # w) v) = found_at h' (first_match (b # w) (b # v'))))"
  using assms
proof (induction v arbitrary: h)
  case Nil
  then show ?case by (subst (1 2) first_char.simps) (simp add: Let_def)
next
  case (Cons c v)
  then have c: "m (h + 1) = c" "c \<noteq> 0" "str_at m (h + 1 + 1) v" by simp_all
  show ?case
  proof (cases "c = b")
    case True
    have "first_char h b m = Some (Some (h + 1))" using c True by (subst first_char.simps) (simp add: Let_def)
    then show ?thesis using Cons(2) True c by blast
  next
    case False
    have e: "first_char h b m = first_char (h + 1) b m" using c False by (subst first_char.simps) (simp add: Let_def)
    show ?thesis using Cons(1)[OF c(3)] False unfolding e by (auto simp: add.assoc)
  qed
qed

lemma jin_step:
  assumes w: "str_at m nd w" and v: "str_at m h (b # v)" "c \<noteq> 0"
    and jin: "\<And>v'. v = b # v' \<Longrightarrow> match_loop Jin (h + 1) b c nd m = Some (found_at (h + 1) (first_match (b # c # w) v))"
    and scan: "\<And>x v'. v = x # v' \<Longrightarrow> match_loop Scan (h + 1) b c nd m = Some (found_at (h + 2) (first_match (b # c # w) v'))"
    and scan0: "match_loop Scan h b c nd m = Some (found_at (h + 1) (first_match (b # c # w) v))"
  shows "match_loop Jin h b c nd m = Some (found_at h (first_match (b # c # w) (b # v)))"
proof (cases v)
  case Nil
  then show ?thesis using v by (subst match_loop.simps) (simp add: Let_def)
next
  case (Cons x v')
  then have x: "m (h + 1) = x" "x \<noteq> 0" "str_at m (h + 2) v'" using v by (simp_all add: add.assoc)
  show ?thesis
  proof (cases "x = c")
    case False
    have "match_loop Jin h b c nd m = match_loop (Shloop x) (h + 1) b c nd m"
      using x False by (subst match_loop.simps) (simp add: Let_def)
    also have "\<dots> = (if x = b then match_loop Jin (h + 1) b c nd m else match_loop Scan (h + 1) b c nd m)"
      by (subst match_loop.simps) simp
    finally show ?thesis using jin scan Cons False by (simp add: add.assoc)
  next
    case True
    let ?a = "if m (h + 2) = m nd then compare_rest (h + 2) nd (m nd) m else Some (m nd)"
    have "\<exists>a. ?a = Some a \<and> (a = 0 \<longleftrightarrow> prefix w v')"
    proof (cases "m (h + 2) = m nd")
      case eq: True
      then show ?thesis using compare_rest_ok[OF x(3) w eq] by simp
    next
      case False
      then show ?thesis using w x(3) by (cases w; cases v') auto
    qed
    then obtain a where a: "?a = Some a" "a = 0 \<longleftrightarrow> prefix w v'" by blast
    have "match_loop Jin h b c nd m = (if a = 0 then Some h else match_loop Scan h b c nd m)"
      using x True a(1) v(2) by (subst match_loop.simps) (simp add: Let_def)
    then show ?thesis using a(2) scan0 True Cons by simp
  qed
qed

lemma scan_step:
  assumes v: "str_at m (h + 1) v"
    and jin: "\<And>v'. v = b # v' \<Longrightarrow> match_loop Jin (h + 1) b c nd m = Some (found_at (h + 1) (first_match (b # w) v))"
    and jin2: "\<And>x v'. v = x # b # v' \<Longrightarrow> match_loop Jin (h + 2) b c nd m = Some (found_at (h + 2) (first_match (b # w) (b # v')))"
    and scan2: "\<And>x y v'. v = x # y # v' \<Longrightarrow> match_loop Scan (h + 2) b c nd m = Some (found_at (h + 3) (first_match (b # w) v'))"
  shows "match_loop Scan h b c nd m = Some (found_at (h + 1) (first_match (b # w) v))"
proof (cases v)
  case Nil
  then show ?thesis using v by (subst match_loop.simps) (simp add: Let_def)
next
  case (Cons x v1)
  then have x: "m (h + 1) = x" "x \<noteq> 0" "str_at m (h + 2) v1" using v by (simp_all add: add.assoc)
  show ?thesis
  proof (cases "x = b")
    case True
    then show ?thesis using x jin[of v1] Cons by (subst match_loop.simps) (simp add: Let_def)
  next
    case False
    show ?thesis
    proof (cases v1)
      case Nil
      then show ?thesis using x False Cons by (subst match_loop.simps) (simp add: Let_def)
    next
      case (Cons y v2)
      then have y: "m (h + 2) = y" "y \<noteq> 0" using x by simp_all
      have "match_loop Scan h b c nd m = match_loop (Shloop y) (h + 2) b c nd m"
        using x y False by (subst match_loop.simps) (simp add: Let_def)
      also have "\<dots> = (if y = b then match_loop Jin (h + 2) b c nd m else match_loop Scan (h + 2) b c nd m)"
        by (subst match_loop.simps) simp
      finally show ?thesis using jin2 scan2 \<open>v = x # v1\<close> Cons False by (simp add: add.assoc)
    qed
  qed
qed

lemma match_loop_ok:
  assumes w: "str_at m nd w" and c: "c \<noteq> 0"
  shows "(\<forall>v h. length v = n \<longrightarrow> str_at m h (b # v) \<longrightarrow> match_loop Jin h b c nd m = Some (found_at h (first_match (b # c # w) (b # v))))
    \<and> (\<forall>v h. length v = n \<longrightarrow> str_at m (h + 1) v \<longrightarrow> match_loop Scan h b c nd m = Some (found_at (h + 1) (first_match (b # c # w) v)))"
proof (induction n rule: less_induct)
  case (less n)
  have jin: "match_loop Jin h b c nd m = Some (found_at h (first_match (b # c # w) (b # v)))"
    if "length v < n" "str_at m h (b # v)" for v h using less[OF that(1)] that(2) by blast
  have scan: "match_loop Scan h b c nd m = Some (found_at h' (first_match (b # c # w) v))"
    if "length v < n" "str_at m h' v" "h' = h + 1" for v h h' using less[OF that(1)] that(2,3) by blast
  have s: "match_loop Scan h b c nd m = Some (found_at (h + 1) (first_match (b # c # w) v))"
    if v: "length v = n" "str_at m (h + 1) v" for v h
  proof (rule scan_step[OF v(2)])
    show "match_loop Jin (h + 1) b c nd m = Some (found_at (h + 1) (first_match (b # c # w) v))" if "v = b # v'" for v'
      unfolding that by (rule jin) (use that v in auto)
    show "match_loop Jin (h + 2) b c nd m = Some (found_at (h + 2) (first_match (b # c # w) (b # v')))" if "v = x # b # v'" for x v'
      by (rule jin) (use that v in \<open>auto simp: add.assoc\<close>)
    show "match_loop Scan (h + 2) b c nd m = Some (found_at (h + 3) (first_match (b # c # w) v'))" if "v = x # y # v'" for x y v'
      by (rule scan) (use that v in \<open>auto simp: add.assoc\<close>)
  qed
  moreover have "match_loop Jin h b c nd m = Some (found_at h (first_match (b # c # w) (b # v)))"
    if v: "length v = n" "str_at m h (b # v)" for v h
  proof (rule jin_step[OF w v(2) c])
    show "match_loop Jin (h + 1) b c nd m = Some (found_at (h + 1) (first_match (b # c # w) v))" if "v = b # v'" for v'
      unfolding that by (rule jin) (use that v in auto)
    show "match_loop Scan (h + 1) b c nd m = Some (found_at (h + 2) (first_match (b # c # w) v'))" if "v = x # v'" for x v'
      by (rule scan) (use that v in \<open>auto simp: add.assoc\<close>)
    show "match_loop Scan h b c nd m = Some (found_at (h + 1) (first_match (b # c # w) v))" using v s[of v h] by simp
  qed
  ultimately show ?case by blast
qed

text \<open>C36: \<open>KLstringMatch\<close> returns for every two strings. Its result is the address of the first place
  of the haystack where the needle stands, the haystack itself for an empty needle, and \<open>NIL\<close>
  when the needle does not occur: the search with its jumps into the loop and its comparison two
  characters at a time equals the plain search \<open>first_match\<close>.\<close>

theorem string_match:
  assumes "str_at m phaystack v" "str_at m pneedle w"
  shows "KLstringMatch phaystack pneedle m = Some (found_at phaystack (first_match w v))"
proof (cases w)
  case Nil
  then show ?thesis using assms(2) by (cases v) (simp_all add: KLstringMatch_def)
next
  case (Cons b w')
  then have b: "m pneedle = b" "b \<noteq> 0" "str_at m (pneedle + 1) w'" using assms(2) by simp_all
  from assms(1) have "str_at m (phaystack - 1 + 1) v" by simp
  from first_char_ok[OF this, of b] show ?thesis
  proof (elim disjE exE conjE)
    assume n: "first_char (phaystack - 1) b m = Some None" "b \<notin> set v"
    from n(2) have "first_match (b # w') v = None" by (induction v) auto
    then show ?thesis using n(1) b Cons by (simp add: KLstringMatch_def)
  next
    fix h v'
    assume h: "first_char (phaystack - 1) b m = Some (Some h)" "str_at m h (b # v')"
      "\<forall>w. found_at (phaystack - 1 + 1) (first_match (b # w) v) = found_at h (first_match (b # w) (b # v'))"
    show ?thesis
    proof (cases w')
      case Nil
      then show ?thesis using h b Cons by (simp add: KLstringMatch_def)
    next
      case c: (Cons c w2)
      then have "m (pneedle + 1) = c" "c \<noteq> 0" "str_at m (pneedle + 2) w2" using b(3) by (simp_all add: add.assoc)
      then show ?thesis using h b Cons c match_loop_ok[of m "pneedle + 2" w2 c "length v'" b] by (simp add: KLstringMatch_def)
    qed
  qed
qed

theorem string_match_witness:
  "KLstringMatch 0x100 0x200 ((\<lambda>_. 0)(0x100 := 1, 0x101 := 1, 0x102 := 1, 0x103 := 2, 0x104 := 3, 0x200 := 1, 0x201 := 1, 0x202 := 2)) = Some 0x101"
proof -
  have "KLstringMatch 0x100 0x200 ((\<lambda>_. 0)(0x100 := 1, 0x101 := 1, 0x102 := 1, 0x103 := 2, 0x104 := 3, 0x200 := 1, 0x201 := 1, 0x202 := 2))
      = Some (found_at 0x100 (first_match [1, 1, 2] [1, 1, 1, 2, 3]))"
    by (rule string_match) simp_all
  then show ?thesis by (simp add: found_at_def)
qed

end
