(* ===== verification/KL_Bitmap.thy ===== *)
theory KL_Bitmap
  imports CK_Prelude "HOL-Library.Word"
begin

text \<open>
  The bitmap allocator of the kernel library (\<^verbatim>\<open>KL/Alloc/BitmapAlloc.c\<close>): its lookup tables, and
  the allocation, marking and release of bits. A bitmap of \<open>bm_size\<close> words is the list of its
  \<open>4 * bm_size\<close> bytes, which is how the code reads it but for the test for a full word. The
  indexes \<open>a\<close> (word) and \<open>b\<close> (byte of the word) of the code are one position \<open>q = 4 * a + b\<close> here. The
  number of bits of a bitmap fits \<open>DATA\<close>, so that bit numbers and positions never overflow.
\<close>

unbundle bit_operations_syntax

section \<open>The lookup tables\<close>

text \<open>
  The loops of \<open>KLbitmapCreateLookupTable\<close> for one byte \<open>a\<close>. The first leaves the entry as it is,
  which is 0, when no bit is free. The second carries \<open>free\<close>, \<open>maxfree\<close> and \<open>maxstpos\<close>.
\<close>

primrec first_free_bit :: "nat \<Rightarrow> u8 \<Rightarrow> nat" where
  "first_free_bit 0 a = 0"
| "first_free_bit (Suc n) a = (if \<not> bit a (7 - n) then 7 - n else first_free_bit n a)"

definition FastBitStTable :: "u8 \<Rightarrow> nat" where
  "FastBitStTable a = first_free_bit 8 a"

definition longer_run :: "nat \<Rightarrow> nat \<times> nat \<times> nat \<Rightarrow> nat \<times> nat \<times> nat" where
  "longer_run b = (\<lambda>(free, maxfree, maxstpos).
     if free > maxfree then (free, free, b + 1 - free) else (free, maxfree, maxstpos))"

primrec bit_runs :: "nat \<Rightarrow> u8 \<Rightarrow> nat \<times> nat \<times> nat \<Rightarrow> nat \<times> nat \<times> nat" where
  "bit_runs 0 a st = st"
| "bit_runs (Suc n) a st =
     (let b = 7 - n;
          st = (if \<not> bit a b then (case st of (free, r) \<Rightarrow> (free + 1, r))
                else (case longer_run b st of (free, r) \<Rightarrow> (0, r)))
      in bit_runs n a (longer_run b st))"

definition FastBitList :: "u8 \<Rightarrow> nat" where
  "FastBitList a = fst (snd (bit_runs 8 a (0, 0, 0)))"

definition FastBitListSt :: "u8 \<Rightarrow> nat" where
  "FastBitListSt a = snd (snd (bit_runs 8 a (0, 0, 0)))"

primrec first_used_bit :: "nat \<Rightarrow> u8 \<Rightarrow> nat" where
  "first_used_bit 0 a = 8"
| "first_used_bit (Suc n) a = (if bit a (7 - n) then 7 - n else first_used_bit n a)"

definition FastBitEnList :: "u8 \<Rightarrow> nat" where
  "FastBitEnList a = first_used_bit 8 a"

text \<open>The last loop runs from 7 down to \<open>-1\<close>: its argument is one more than \<open>b\<close>.\<close>

primrec last_used_bit :: "nat \<Rightarrow> u8 \<Rightarrow> nat" where
  "last_used_bit 0 a = 0"
| "last_used_bit (Suc n) a = (if bit a n then Suc n else last_used_bit n a)"

definition FastBitStList :: "u8 \<Rightarrow> nat" where
  "FastBitStList a = 8 - last_used_bit 8 a"

section \<open>The allocator\<close>

record KLbitmapStruct =
  bm_size :: nat
  firstFree :: nat
  bytes :: "u8 list"

definition KLbitmapInitAlloc :: "nat \<Rightarrow> KLbitmapStruct" where
  "KLbitmapInitAlloc sz =
     (let words = (sz + 31) div 32 in \<lparr>bm_size = words, firstFree = 0, bytes = replicate (4 * words) 0\<rparr>)"

definition or_byte :: "nat \<Rightarrow> u8 \<Rightarrow> KLbitmapStruct \<Rightarrow> KLbitmapStruct" where
  "or_byte p x bs = bs\<lparr>bytes := (bytes bs)[p := bytes bs ! p OR x]\<rparr>"

text \<open>
  \<open>bytes_free t p k cnt\<close> is the loop over the bytes behind the first one: \<open>p\<close> has been advanced \<open>k\<close>
  times. It gives the number of steps and the count, or \<open>None\<close> when a step ran over the end (the
  function then returns \<open>-1\<close>). It does look at a byte only after a second step.
\<close>

function bytes_free :: "KLbitmapStruct \<Rightarrow> nat \<Rightarrow> nat \<Rightarrow> nat \<Rightarrow> nat \<Rightarrow> int \<Rightarrow> (nat \<times> int) option" where
  "bytes_free bs t b q k cnt =
     (if cnt > 8 then
        if q + k + 1 = 4 * bm_size bs then None
        else if bytes bs ! (4 * t + b + k + 1) = 0 then bytes_free bs t b q (k + 1) (cnt - 8)
        else Some (k + 1, cnt)
      else Some (k, cnt))"
  by pat_completeness auto
termination
  by (relation "measure (\<lambda>(_, _, _, _, _, cnt). nat cnt)") auto

declare bytes_free.simps [simp del]

text \<open>The bytes \<open>p\<close>, \<open>p + 1\<close>, ... are set, and the low bits of the last one.\<close>

function set_bytes_used :: "nat \<Rightarrow> int \<Rightarrow> KLbitmapStruct \<Rightarrow> KLbitmapStruct" where
  "set_bytes_used p cnt bs =
     (if cnt > 8 then set_bytes_used (p + 1) (cnt - 8) (bs\<lparr>bytes := (bytes bs)[p := 0xFF]\<rparr>)
      else or_byte p (of_int (2 ^ nat cnt - 1)) bs)"
  by pat_completeness auto
termination
  by (relation "measure (\<lambda>(_, cnt, _). nat cnt)") auto

declare set_bytes_used.simps [simp del]

text \<open>
  One byte of the search: \<open>Inl\<close> a result, \<open>Inr k\<close> goes on \<open>k\<close> bytes ahead, because \<open>stepforward\<close>
  advances the \<open>a\<close> and \<open>b\<close> of the search itself. \<open>t\<close> is the word \<open>temp\<close> points to. The word does not
  move with \<open>a\<close>, which \<open>t\<close> and \<open>q\<close> keep apart. A shift by \<open>-1\<close>, when the byte has no free bits at
  its end, is not defined: the machine shifts by 31, which sets the whole byte.
\<close>

definition alloc_in_byte :: "nat \<Rightarrow> nat \<Rightarrow> nat \<Rightarrow> KLbitmapStruct \<Rightarrow> (int \<times> KLbitmapStruct) + nat" where
  "alloc_in_byte nobits t q bs =
     (let b = q mod 4; bits = bytes bs ! (4 * t + b) in
      if bits = 0xFF then Inr 0
      else if nobits = 1 then
        Inl (int (8 * q + FastBitStTable bits), or_byte (4 * t + b) (push_bit (FastBitStTable bits) 1) bs)
      else if nobits < 8 \<and> nobits \<le> FastBitList bits then
        Inl (int (8 * q + FastBitListSt bits), or_byte (4 * t + b) (push_bit (FastBitListSt bits) (2 ^ nobits - 1)) bs)
      else
        let bitval = FastBitStList bits; cnt = int nobits - int bitval in
        if q + 1 = 4 * bm_size bs then Inl (- 1, bs)
        else case bytes_free bs t b q 1 cnt of
          None \<Rightarrow> Inl (- 1, bs)
        | Some (k, c) \<Rightarrow>
            if c < 8 \<and> c - int (FastBitEnList (bytes bs ! (4 * t + b + k))) \<le> 0 then
              Inl (int (8 * q + 8) - int bitval,
                   set_bytes_used (4 * t + b + 1) cnt
                     (or_byte (4 * t + b) (of_int (if bitval = 0 then - 1 else drop_bit (bitval - 1) (- 0x80))) bs))
            else Inr k)"

text \<open>
  Both \<open>for\<close> loops: a position at the begin of a word is the head of the outer one. \<open>q\<close> never passes
  the end but there.
\<close>

function bitmap_search :: "nat \<Rightarrow> nat \<Rightarrow> nat \<Rightarrow> KLbitmapStruct \<Rightarrow> int \<times> KLbitmapStruct" where
  "bitmap_search nobits q t bs =
     (if 4 * bm_size bs \<le> q then (- 1, bs)
      else if q mod 4 = 0 \<and> take 4 (drop q (bytes bs)) = [0xFF, 0xFF, 0xFF, 0xFF] then bitmap_search nobits (q + 4) t bs
      else let t = (if q mod 4 = 0 then q div 4 else t);
               bs = (if q mod 4 = 0 then bs\<lparr>firstFree := q div 4\<rparr> else bs) in
           case alloc_in_byte nobits t q bs of Inl r \<Rightarrow> r | Inr k \<Rightarrow> bitmap_search nobits (q + k + 1) t bs)"
  by pat_completeness auto
termination
  by (relation "measure (\<lambda>(_, q, _, bs). 4 * bm_size bs - q)") (auto split: if_splits)

declare bitmap_search.simps [simp del]

definition KLbitmapAlloc :: "nat \<Rightarrow> KLbitmapStruct \<Rightarrow> int \<times> KLbitmapStruct" where
  "KLbitmapAlloc nobits bs = bitmap_search nobits (4 * firstFree bs) (firstFree bs) bs"

definition lower_firstFree :: "nat \<Rightarrow> KLbitmapStruct \<Rightarrow> KLbitmapStruct" where
  "lower_firstFree a bs = (if firstFree bs > a div 4 then bs\<lparr>firstFree := a div 4\<rparr> else bs)"

definition KLbitmapMarkUsed :: "nat \<Rightarrow> KLbitmapStruct \<Rightarrow> KLbitmapStruct" where
  "KLbitmapMarkUsed b bs = lower_firstFree (b div 8) (or_byte (b div 8) (push_bit (b mod 8) 1) bs)"

definition KLbitmapFree :: "nat \<Rightarrow> KLbitmapStruct \<Rightarrow> KLbitmapStruct" where
  "KLbitmapFree b bs =
     lower_firstFree (b div 8)
       (bs\<lparr>bytes := (bytes bs)[b div 8 := bytes bs ! (b div 8) AND NOT (push_bit (b mod 8) 1)]\<rparr>)"


section \<open>One bit\<close>

text \<open>The bits in use, and bitmaps whose first free word is not behind a free bit.\<close>

definition used :: "KLbitmapStruct \<Rightarrow> nat \<Rightarrow> bool" where
  "used bs i = bit (bytes bs ! (i div 8)) (i mod 8)"

definition bitmap_ok :: "KLbitmapStruct \<Rightarrow> bool" where
  "bitmap_ok bs \<longleftrightarrow> length (bytes bs) = 4 * bm_size bs \<and> (\<forall>i<min (32 * firstFree bs) (32 * bm_size bs). used bs i)"

lemma used_firstFree [simp]: "used (bs\<lparr>firstFree := n\<rparr>) = used bs"
  by (simp add: used_def fun_eq_iff)

lemma first_free_bit_ok:
  assumes "n \<le> 8" "\<exists>j\<ge>8 - n. j < 8 \<and> \<not> bit a j"
  shows "first_free_bit n a < 8 \<and> \<not> bit a (first_free_bit n a) \<and> (\<forall>j\<ge>8 - n. j < first_free_bit n a \<longrightarrow> bit a j)"
  using assms
proof (induction n)
  case (Suc n)
  show ?case
  proof (cases "bit a (7 - n)")
    case True
    have s: "8 - Suc n = 7 - n" "7 - n \<le> j \<longleftrightarrow> j = 7 - n \<or> 8 - n \<le> j" for j using Suc(2) by auto
    then show ?thesis using Suc True by auto
  qed (use Suc(2) in auto)
qed auto

lemma free_bit:
  assumes "x \<noteq> (0xFF :: u8)"
  shows "FastBitStTable x < 8" "\<not> bit x (FastBitStTable x)" "j < FastBitStTable x \<Longrightarrow> bit x j"
proof -
  have "\<exists>j<8. \<not> bit x j"
  proof (rule ccontr)
    assume "\<not> (\<exists>j<8. \<not> bit x j)"
    then have "x = - 1" by (intro bit_word_eqI) simp
    then show False using assms by simp
  qed
  then have "\<exists>j\<ge>8 - 8. j < 8 \<and> \<not> bit x j" by auto
  from first_free_bit_ok[OF _ this]
  show "FastBitStTable x < 8" "\<not> bit x (FastBitStTable x)" "j < FastBitStTable x \<Longrightarrow> bit x j"
    by (auto simp: FastBitStTable_def)
qed

lemma used_or_byte:
  assumes "p < length (bytes bs)" "f < 8"
  shows "used (or_byte p (push_bit f 1) bs) i \<longleftrightarrow> used bs i \<or> i = 8 * p + f"
proof (cases "i div 8 = p")
  case True
  then have "bytes (or_byte p (push_bit f 1) bs) ! (i div 8) = bytes bs ! (i div 8) OR push_bit f 1"
    using assms by (simp add: or_byte_def)
  moreover have "i mod 8 = f \<longleftrightarrow> i = 8 * p + f" using True div_mult_mod_eq[of i 8] by linarith
  ultimately show ?thesis using assms(2) by (auto simp: used_def bit_simps)
next
  case False
  then show ?thesis using assms(2) by (auto simp: used_def or_byte_def)
qed

lemma full_byte:
  assumes "bytes bs ! p = 0xFF" "i div 8 = p"
  shows "used bs i"
proof -
  have "bytes bs ! p = - 1" using assms(1) by simp
  then show ?thesis using assms(2) by (simp only: used_def) simp
qed

definition takes_first_bit :: "KLbitmapStruct \<Rightarrow> int \<times> KLbitmapStruct \<Rightarrow> bool" where
  "takes_first_bit bs res \<longleftrightarrow> (case res of (r, bs') \<Rightarrow>
     bitmap_ok bs' \<and> bm_size bs' = bm_size bs
     \<and> (r = - 1 \<and> bytes bs' = bytes bs \<and> (\<forall>i<32 * bm_size bs. used bs i)
        \<or> (\<exists>i<32 * bm_size bs. r = int i \<and> \<not> used bs i \<and> (\<forall>j<i. used bs j) \<and> (\<forall>j. used bs' j \<longleftrightarrow> used bs j \<or> j = i))))"

lemma takes_first_bit_firstFree [simp]: "takes_first_bit (bs\<lparr>firstFree := n\<rparr>) res = takes_first_bit bs res"
  by (auto simp: takes_first_bit_def)

lemma byte_one:
  assumes l: "length (bytes bs) = 4 * bm_size bs" and q: "q < 4 * bm_size bs" and b: "bytes bs ! q \<noteq> 0xFF"
    and ok: "bitmap_ok bs" and u: "\<forall>i<8 * q. used bs i"
  shows "takes_first_bit bs (int (8 * q + FastBitStTable (bytes bs ! q)), or_byte q (push_bit (FastBitStTable (bytes bs ! q)) 1) bs)"
proof -
  let ?f = "FastBitStTable (bytes bs ! q)"
  note f = free_bit[OF b]
  have n: "used (or_byte q (push_bit ?f 1) bs) j \<longleftrightarrow> used bs j \<or> j = 8 * q + ?f" for j
    using l q f(1) by (intro used_or_byte) simp_all
  have free: "\<not> used bs (8 * q + ?f)" using f(1,2) by (simp add: used_def)
  have "used bs j" if "j < 8 * q + ?f" for j
  proof (cases "j < 8 * q")
    case False
    then have "j = q * 8 + (j - 8 * q)" "j - 8 * q < ?f" using that by linarith+
    then have "j div 8 = q" "j mod 8 < ?f" using f(1) by (metis div_mult_self3 div_less add.right_neutral less_trans zero_neq_numeral, metis mod_mult_self3 mod_less less_trans)
    then show ?thesis using f(3) by (auto simp: used_def)
  qed (use u in blast)
  moreover have "bitmap_ok (or_byte q (push_bit ?f 1) bs)"
    using ok n by (auto simp: bitmap_ok_def or_byte_def)
  moreover have "8 * q + ?f < 32 * bm_size bs" using q f(1) by simp
  ultimately show ?thesis using n free by (auto simp: takes_first_bit_def or_byte_def)
qed

lemma bitmap_search_one:
  assumes "bitmap_ok bs" "\<forall>i<8 * q. i < 32 * bm_size bs \<longrightarrow> used bs i" "q mod 4 \<noteq> 0 \<longrightarrow> t = q div 4"
  shows "takes_first_bit bs (bitmap_search 1 q t bs)"
  using assms
proof (induction "4 * bm_size bs - q" arbitrary: q bs t rule: less_induct)
  case less
  note ok = less(2) and u = less(3)
  then have l: "length (bytes bs) = 4 * bm_size bs" by (simp add: bitmap_ok_def)
  consider (over) "4 * bm_size bs \<le> q"
    | (full) "q < 4 * bm_size bs" "q mod 4 = 0 \<and> take 4 (drop q (bytes bs)) = [0xFF, 0xFF, 0xFF, 0xFF]"
    | (byte) "q < 4 * bm_size bs" "\<not> (q mod 4 = 0 \<and> take 4 (drop q (bytes bs)) = [0xFF, 0xFF, 0xFF, 0xFF])" by linarith
  then show ?case
  proof cases
    case over
    then have "bitmap_search 1 q t bs = (- 1, bs)" by (subst bitmap_search.simps) simp
    then show ?thesis using over ok u by (simp add: takes_first_bit_def)
  next
    case full
    have e: "bitmap_search 1 q t bs = bitmap_search 1 (q + 4) t bs" using full by (subst bitmap_search.simps) simp
    have "bytes bs ! (q + k) = 0xFF" if "k < 4" for k
      using arg_cong[OF conjunct2[OF full(2)], of "\<lambda>x. x ! k"] that l full(1) by (auto simp: less_Suc_eq numeral_eq_Suc)
    moreover have "i div 8 = q + (i div 8 - q)" if "8 * q \<le> i" for i using that by linarith
    ultimately have "used bs i" if "8 * q \<le> i" "i < 8 * (q + 4)" for i
      using that by (intro full_byte[of _ "i div 8"]) (metis add_less_cancel_left less_mult_imp_div_less mult.commute, simp)
    then show ?thesis unfolding e using u ok full(1,2) by (intro less(1)) (auto simp: not_less, meson not_less)
  next
    case byte
    let ?bs = "if q mod 4 = 0 then bs\<lparr>firstFree := q div 4\<rparr> else bs"
    let ?t = "if q mod 4 = 0 then q div 4 else t"
    have t: "?t = q div 4" "4 * (q div 4) + q mod 4 = q" using less(4) by auto
    have ok': "bitmap_ok ?bs" "length (bytes ?bs) = 4 * bm_size ?bs" "bm_size ?bs = bm_size bs" "bytes ?bs = bytes bs"
      "used ?bs = used bs" "takes_first_bit ?bs = takes_first_bit bs"
      using ok u by (auto simp: bitmap_ok_def fun_eq_iff)
    have e: "bitmap_search 1 q t bs = (case alloc_in_byte 1 (q div 4) q ?bs of Inl r \<Rightarrow> r | Inr k \<Rightarrow> bitmap_search 1 (q + k + 1) (q div 4) ?bs)"
      unfolding bitmap_search.simps[of 1 q t bs] if_not_P[OF byte(1)[folded not_le]] if_not_P[OF byte(2)] Let_def t(1) ..
    show ?thesis
    proof (cases "bytes bs ! q = 0xFF")
      case True
      then have "bitmap_search 1 q t bs = bitmap_search 1 (q + 1) (q div 4) ?bs" unfolding e by (simp add: alloc_in_byte_def t(2) ok'(4))
      moreover have "takes_first_bit ?bs (bitmap_search 1 (q + 1) (q div 4) ?bs)"
      proof (rule less(1))
        show "\<forall>i<8 * (q + 1). i < 32 * bm_size ?bs \<longrightarrow> used ?bs i"
        proof (intro allI impI)
          fix i
          assume i: "i < 8 * (q + 1)" "i < 32 * bm_size ?bs"
          show "used ?bs i"
          proof (cases "i < 8 * q")
            case False
            then have "i div 8 = q" using i(1) by auto
            then show ?thesis using full_byte[of ?bs q i] True ok'(4) by simp
          qed (use u i ok' in simp)
        qed
      qed (use byte(1) ok' in \<open>auto simp: div_Suc\<close>)
      ultimately show ?thesis using ok' by simp
    next
      case False
      then have "bitmap_search 1 q t bs = (int (8 * q + FastBitStTable (bytes bs ! q)), or_byte q (push_bit (FastBitStTable (bytes bs ! q)) 1) ?bs)"
        unfolding e by (simp add: alloc_in_byte_def Let_def t(2) ok'(4))
      then show ?thesis using byte_one[of ?bs q] False byte(1) u ok' by simp
    qed
  qed
qed

text \<open>C37: Allocating one bit. In a bitmap where no bit is free in front of the word \<open>firstFree\<close>,
  \<open>KLbitmapAlloc\<close> returns \<open>-1\<close> and changes no bit when every bit is in use; otherwise it returns the
  number of the first free bit, whatever the words and bytes in front of it, and takes this bit and
  no other. \<open>firstFree\<close> stays such a word.\<close>

theorem bitmap_alloc:
  assumes "bitmap_ok bs"
  shows "\<exists>r bs'. KLbitmapAlloc 1 bs = (r, bs') \<and> bitmap_ok bs' \<and> bm_size bs' = bm_size bs
    \<and> (if \<forall>i<32 * bm_size bs. used bs i then r = - 1 \<and> bytes bs' = bytes bs
       else \<exists>i<32 * bm_size bs. r = int i \<and> \<not> used bs i \<and> (\<forall>j<i. used bs j) \<and> (\<forall>j. used bs' j \<longleftrightarrow> used bs j \<or> j = i))"
proof -
  have "takes_first_bit bs (KLbitmapAlloc 1 bs)"
    unfolding KLbitmapAlloc_def by (rule bitmap_search_one[OF assms]) (use assms in \<open>auto simp: bitmap_ok_def\<close>)
  then show ?thesis by (cases "KLbitmapAlloc 1 bs") (auto simp: takes_first_bit_def)
qed

theorem bitmap_alloc_witness:
  "\<exists>bs'. KLbitmapAlloc 1 (KLbitmapMarkUsed 0 (KLbitmapInitAlloc 64)) = (1, bs')"
proof -
  let ?bs = "KLbitmapMarkUsed 0 (KLbitmapInitAlloc 64)"
  have "?bs = \<lparr>bm_size = 2, firstFree = 0, bytes = [1, 0, 0, 0, 0, 0, 0, 0]\<rparr>"
    by code_simp
  then have bs: "bitmap_ok ?bs" "bm_size ?bs = 2" "used ?bs 0" "\<not> used ?bs 1" by (simp_all add: bitmap_ok_def used_def)
  have n: "\<not> (\<forall>i<32 * bm_size ?bs. used ?bs i)" using bs(2,4) by (intro notI) (drule spec[of _ 1], simp)
  from bitmap_alloc[OF bs(1)] obtain r bs' i where "KLbitmapAlloc 1 ?bs = (r, bs')"
    "r = int i" "\<not> used ?bs i" "\<forall>j<i. used ?bs j" unfolding if_not_P[OF n] by blast
  moreover from this have "i = 1" using bs(3,4) by (metis less_one linorder_neqE_nat)
  ultimately show ?thesis by simp
qed

lemma used_free:
  assumes "length (bytes bs) = 4 * bm_size bs" "i < 32 * bm_size bs"
  shows "used (KLbitmapFree i bs) j \<longleftrightarrow> used bs j \<and> j \<noteq> i"
proof -
  have "i div 8 < length (bytes bs)" using assms by simp
  moreover have "j = i \<longleftrightarrow> j div 8 = i div 8 \<and> j mod 8 = i mod 8" by (metis div_mult_mod_eq)
  ultimately show ?thesis
    by (cases "j div 8 = i div 8") (auto simp: used_def KLbitmapFree_def lower_firstFree_def bit_simps)
qed

text \<open>Freeing keeps the bitmap well-formed, and the bit freed is free and the others as they were.\<close>

theorem bitmap_free:
  assumes "bitmap_ok bs" "i < 32 * bm_size bs"
  shows "bitmap_ok (KLbitmapFree i bs)" "used (KLbitmapFree i bs) j \<longleftrightarrow> used bs j \<and> j \<noteq> i"
proof -
  have u: "used (KLbitmapFree i bs) j \<longleftrightarrow> used bs j \<and> j \<noteq> i" for j
    by (rule used_free) (use assms in \<open>simp_all add: bitmap_ok_def\<close>)
  then show "used (KLbitmapFree i bs) j \<longleftrightarrow> used bs j \<and> j \<noteq> i" .
  have f: "firstFree (KLbitmapFree i bs) = min (firstFree bs) (i div 8 div 4)" "bm_size (KLbitmapFree i bs) = bm_size bs"
    "length (bytes (KLbitmapFree i bs)) = length (bytes bs)"
    by (auto simp: KLbitmapFree_def lower_firstFree_def)
  have "j \<noteq> i" if "j < 32 * (i div 8 div 4)" for j
    using that div_mult2_eq[of i 8 4] times_div_less_eq_dividend[of 32 i] by auto
  then show "bitmap_ok (KLbitmapFree i bs)" using assms u by (auto simp: bitmap_ok_def f min_def split: if_splits)
qed

section \<open>Several bits\<close>

text \<open>C38: A block of bits in several bytes may hold bits that are in use. With a first byte that is free
  the code steps over the second without looking at it: asked for 20 bits it takes them from bit 0,
  whatever the second byte \<open>x\<close> and the fourth byte \<open>y\<close> are, and of the third byte, which it has found
  to be free, it counts eight free bits twice.\<close>

theorem bitmap_alloc_overlap:
  "KLbitmapAlloc 20 \<lparr>bm_size = Suc n, firstFree = 0, bytes = 0 # x # 0 # y # zs\<rparr>
    = (0, \<lparr>bm_size = Suc n, firstFree = 0, bytes = 0xFF # 0xFF # 0x0F # y # zs\<rparr>)"
proof -
  let ?bs = "\<lparr>bm_size = Suc n, firstFree = 0, bytes = 0 # x # 0 # y # zs\<rparr>"
  have t: "FastBitList 0 = 8" "FastBitStList 0 = 8" "FastBitEnList 0 = 8" by code_simp+
  have f: "bytes_free ?bs 0 0 0 1 12 = Some (2, 4)"
    by (subst bytes_free.simps) (simp add: bytes_free.simps)
  have m: "set_bytes_used 1 12 (or_byte 0 (- 1) ?bs) = \<lparr>bm_size = Suc n, firstFree = 0, bytes = 0xFF # 0xFF # 0x0F # y # zs\<rparr>"
    by (subst set_bytes_used.simps) (simp add: or_byte_def set_bytes_used.simps)
  have "alloc_in_byte 20 0 0 ?bs = Inl (0, \<lparr>bm_size = Suc n, firstFree = 0, bytes = 0xFF # 0xFF # 0x0F # y # zs\<rparr>)"
    using t f m by (simp add: alloc_in_byte_def Let_def)
  then show ?thesis unfolding KLbitmapAlloc_def by (subst bitmap_search.simps) (simp add: Let_def)
qed

end
