(* ===== verification/KL_Queue.thy ===== *)
theory KL_Queue
  imports CK_Prelude
begin

text \<open>
  The queues of packets of the kernel library (\<^verbatim>\<open>KL/Queue\<close>): \<open>KLqueueInit\<close>, \<open>KLqueueAlloc\<close>,
  \<open>KLqueueInsert\<close>, \<open>KLqueueRemove\<close> and \<open>KLqueueFree\<close> on the table of queues and a memory of words
  that holds the arrays of a queue. \<open>KLmalloc\<close> is not part of the library: it is the parameter
  \<open>malloc\<close>, which gives the address of a block, or \<open>NIL\<close>, for the number of the call within the
  operation and the size. A queue refines a bounded
  first-in first-out list of packet sizes; the locale \<open>bounded_fifo\<close> states that contract.
\<close>

section \<open>State\<close>

record Queue =
  maxPackets :: u32
  maxSize :: u32
  currentSize :: u32
  q_r :: u32
  q_f :: u32
  buffer :: addr
  packetPtr :: addr
  packetSize :: addr

datatype QueueState = Q_NOQUEUE | Q_OVERFLOW | Q_UNDERFLOW | Q_WRITEERR | Q_READOK | Q_WRITEOK

record Packet =
  pk_data :: addr
  pk_size :: u32

text \<open>The table is \<open>None\<close> before \<open>KLqueueInit\<close>.\<close>

record Queues =
  qTable :: "Queue list option"
  maxQueues :: u32
  words :: "addr \<Rightarrow> u32"

definition QVALID_HANDLE :: u32 where
  "QVALID_HANDLE = 0xFFFF0000"

definition QNO_PACKETS :: u32 where
  "QNO_PACKETS = QVALID_HANDLE + 1"

definition empty_queue :: Queue where
  "empty_queue = \<lparr>maxPackets = 0, maxSize = 0, currentSize = 0, q_r = 0, q_f = 0, buffer = NIL, packetPtr = NIL, packetSize = NIL\<rparr>"

section \<open>Operations\<close>

text \<open>\<open>sizeof(Queue)\<close> is 32. The size may wrap around; the table is then shorter than \<open>maxQueues\<close>.\<close>

definition KLqueueInit :: "(nat \<Rightarrow> u32 \<Rightarrow> addr) \<Rightarrow> u32 \<Rightarrow> Queues \<Rightarrow> bool \<times> Queues" where
  "KLqueueInit malloc numOfQueues s =
     (case qTable s of
        None \<Rightarrow>
          if numOfQueues = 0 then (False, s)
          else let queueAllocatedSize = numOfQueues * 32 in
            if malloc 0 queueAllocatedSize \<noteq> NIL then
              (True, s\<lparr>qTable := Some (replicate (unat queueAllocatedSize div 32) empty_queue), maxQueues := numOfQueues\<rparr>)
            else (False, s)
      | Some _ \<Rightarrow> (False, s))"

text \<open>The search for a free queue: \<open>None\<close> when it reads behind the table.\<close>

fun free_queue :: "Queue list \<Rightarrow> nat option" where
  "free_queue [] = None"
| "free_queue (q # qs) = (if maxPackets q \<noteq> 0 then map_option Suc (free_queue qs) else Some 0)"

definition setup_queue :: "(nat \<Rightarrow> u32 \<Rightarrow> addr) \<Rightarrow> u32 \<Rightarrow> u32 \<Rightarrow> Queue \<Rightarrow> Queue" where
  "setup_queue malloc queueSize mp q =
     (let q = q\<lparr>maxPackets := mp + 1\<rparr>;
          q = (if queueSize \<noteq> 0 then q\<lparr>buffer := malloc 0 queueSize, packetPtr := NIL\<rparr>
               else q\<lparr>buffer := NIL, packetPtr := malloc 0 (4 * (mp + 1))\<rparr>)
      in q\<lparr>packetSize := malloc 1 (4 * maxPackets q), currentSize := 0\<rparr>)"

definition KLqueueAlloc :: "(nat \<Rightarrow> u32 \<Rightarrow> addr) \<Rightarrow> u32 \<Rightarrow> u32 \<Rightarrow> Queues \<Rightarrow> (u32 \<times> Queues) option" where
  "KLqueueAlloc malloc queueSize mp s =
     (if mp = 0 then Some (QNO_PACKETS, s)
      else do {
        table \<leftarrow> qTable s;
        qId \<leftarrow> free_queue table;
        Some (of_nat qId, s\<lparr>qTable := Some (table[qId := setup_queue malloc queueSize mp (table ! qId)])\<rparr>) })"

text \<open>The queue of a handle: the test for the table and the test for a queue in use.\<close>

definition valid_queue :: "u32 \<Rightarrow> Queues \<Rightarrow> Queue option" where
  "valid_queue qId s =
     (if qId < maxQueues s then
        let q = the (qTable s) ! unat qId in if maxPackets q = 0 then None else Some q
      else None)"

definition put_queue :: "u32 \<Rightarrow> Queue \<Rightarrow> Queues \<Rightarrow> Queues" where
  "put_queue qId q s = s\<lparr>qTable := map_option (\<lambda>t. t[unat qId := q]) (qTable s)\<rparr>"

definition next_index :: "Queue \<Rightarrow> u32 \<Rightarrow> u32" where
  "next_index q i = (if i = maxPackets q - 1 then 0 else i + 1)"

text \<open>The insertion into a queue in use.\<close>

definition insert_packet :: "Packet \<Rightarrow> Queue \<Rightarrow> (addr \<Rightarrow> u32) \<Rightarrow> QueueState \<times> Queue \<times> (addr \<Rightarrow> u32)" where
  "insert_packet packet q m =
     (let upperLimit = maxPackets q - 1;
          q = q\<lparr>q_r := next_index q (q_r q)\<rparr>
      in if q_r q = q_f q then
           (Q_OVERFLOW, q\<lparr>q_r := if q_r q \<noteq> 0 then q_r q - 1 else upperLimit\<rparr>, m)
         else if maxSize q \<noteq> 0 \<and> currentSize q + pk_size packet > maxSize q then (Q_WRITEERR, q, m)
         else
           let (q, m) = (if maxSize q \<noteq> 0 then (q\<lparr>currentSize := currentSize q + pk_size packet\<rparr>, m)
                         else (q, m(packetPtr q + 4 * q_r q := pk_data packet)))
           in (Q_WRITEOK, q, m(packetSize q + 4 * q_r q := pk_size packet)))"

definition KLqueueInsert :: "u32 \<Rightarrow> Packet \<Rightarrow> Queues \<Rightarrow> QueueState \<times> Queues" where
  "KLqueueInsert qId packet s =
     (case valid_queue qId s of
        None \<Rightarrow> (Q_NOQUEUE, s)
      | Some q \<Rightarrow> (case insert_packet packet q (words s) of (r, q', m) \<Rightarrow> (r, put_queue qId q' (s\<lparr>words := m\<rparr>))))"

text \<open>
  The table of packets \<open>ptrPacket\<close> is a local variable that is never set: it is a parameter.
\<close>

definition remove_packet :: "addr \<Rightarrow> Packet \<Rightarrow> Queue \<Rightarrow> (addr \<Rightarrow> u32) \<Rightarrow> QueueState \<times> Packet \<times> Queue" where
  "remove_packet ptrPacket packet q m =
     (if q_f q = q_r q then (Q_UNDERFLOW, packet, q)
      else let q = q\<lparr>q_f := next_index q (q_f q)\<rparr> in
        (Q_READOK, \<lparr>pk_data = m (ptrPacket + 4 * q_f q), pk_size = m (packetSize q + 4 * q_f q)\<rparr>, q))"

definition KLqueueRemove :: "addr \<Rightarrow> u32 \<Rightarrow> Packet \<Rightarrow> Queues \<Rightarrow> QueueState \<times> Packet \<times> Queues" where
  "KLqueueRemove ptrPacket qId packet s =
     (case valid_queue qId s of
        None \<Rightarrow> (Q_NOQUEUE, packet, s)
      | Some q \<Rightarrow> (case remove_packet ptrPacket packet q (words s) of (r, p, q') \<Rightarrow> (r, p, put_queue qId q' s)))"

text \<open>Releasing the blocks (\<open>KLfree\<close>) has no effect on this state.\<close>

definition KLqueueFree :: "u32 \<Rightarrow> Queues \<Rightarrow> bool \<times> Queues" where
  "KLqueueFree qId s =
     (case valid_queue qId s of
        None \<Rightarrow> (False, s)
      | Some q \<Rightarrow> (True, put_queue qId (q\<lparr>currentSize := 0, maxSize := 0, maxPackets := 0\<rparr>) s))"

section \<open>The contract of a bounded queue\<close>

text \<open>
  What a queue promises of its abstract list: an insertion appends while there is room, a removal
  takes the head. \<open>ok\<close> is the representation invariant.
\<close>

locale bounded_fifo =
  fixes put :: "'p \<Rightarrow> 'q \<Rightarrow> bool \<times> 'q"
    and get :: "'q \<Rightarrow> 'a option \<times> 'q"
    and view :: "'p \<Rightarrow> 'a"
    and items :: "'q \<Rightarrow> 'a list"
    and capacity :: "'q \<Rightarrow> nat"
    and ok :: "'q \<Rightarrow> bool"
  assumes put_room: "ok q \<Longrightarrow> length (items q) < capacity q \<Longrightarrow>
      \<exists>q'. put p q = (True, q') \<and> ok q' \<and> items q' = items q @ [view p] \<and> capacity q' = capacity q"
    and put_full: "ok q \<Longrightarrow> capacity q \<le> length (items q) \<Longrightarrow> put p q = (False, q)"
    and get_none: "ok q \<Longrightarrow> items q = [] \<Longrightarrow> get q = (None, q)"
    and get_some: "ok q \<Longrightarrow> items q = x # xs \<Longrightarrow>
      \<exists>q'. get q = (Some x, q') \<and> ok q' \<and> items q' = xs \<and> capacity q' = capacity q"
begin

lemma put_all:
  "ok q \<Longrightarrow> length (items q) + length ps \<le> capacity q \<Longrightarrow>
    ok (fold (\<lambda>p q. snd (put p q)) ps q) \<and> items (fold (\<lambda>p q. snd (put p q)) ps q) = items q @ List.map view ps"
proof (induction ps arbitrary: q)
  case (Cons p ps)
  then show ?case using put_room[of q p] by fastforce
qed simp

lemma get_nth:
  "ok q \<Longrightarrow> k < length (items q) \<Longrightarrow> fst (get (((\<lambda>q. snd (get q)) ^^ k) q)) = Some (items q ! k)"
proof (induction k arbitrary: q)
  case 0
  then show ?case using get_some[of q "hd (items q)" "tl (items q)"] by (cases "items q") auto
next
  case (Suc k)
  then obtain x xs where "items q = x # xs" by (cases "items q") auto
  with get_some[OF Suc(2) this] obtain q' where q': "get q = (Some x, q')" "ok q'" "items q' = xs" by blast
  with Suc(1)[OF q'(2)] Suc(3) \<open>items q = x # xs\<close> show ?case by (simp add: funpow_Suc_right del: funpow.simps)
qed

lemma fifo:
  assumes "ok q" "items q = []" "length ps \<le> capacity q" "k < length ps"
  shows "fst (get (((\<lambda>q. snd (get q)) ^^ k) (fold (\<lambda>p q. snd (put p q)) ps q))) = Some (view (ps ! k))"
  using put_all[of q ps] get_nth[of "fold (\<lambda>p q. snd (put p q)) ps q" k] assms by simp

lemma drops_when_full:
  assumes "ok q" "capacity q \<le> length (items q)"
  shows "fold (\<lambda>p q. snd (put p q)) ps q = q"
  using assms put_full by (induction ps) auto

end

section \<open>The queues keep it\<close>

text \<open>The packet sizes between front and rear, with the number of the places in use.\<close>

definition in_use :: "nat \<Rightarrow> nat \<Rightarrow> nat \<Rightarrow> nat" where
  "in_use n f r = (r + n - f) mod n"

definition queue_sizes :: "Queue \<times> (addr \<Rightarrow> u32) \<Rightarrow> u32 list" where
  "queue_sizes = (\<lambda>(q, m). List.map (\<lambda>i. m (packetSize q + 4 * of_nat ((unat (q_f q) + 1 + i) mod unat (maxPackets q))))
     [0..<in_use (unat (maxPackets q)) (unat (q_f q)) (unat (q_r q))])"

text \<open>One place of the arrays stays unused. The arrays fit the address space and are apart.\<close>

definition queue_capacity :: "Queue \<times> (addr \<Rightarrow> u32) \<Rightarrow> nat" where
  "queue_capacity = (\<lambda>(q, m). unat (maxPackets q) - 1)"

definition queue_ok :: "Queue \<times> (addr \<Rightarrow> u32) \<Rightarrow> bool" where
  "queue_ok = (\<lambda>(q, m). 1 < unat (maxPackets q) \<and> unat (maxPackets q) \<le> 2 ^ 30 \<and> maxSize q = 0
     \<and> q_r q < maxPackets q \<and> q_f q < maxPackets q
     \<and> (\<forall>i<unat (maxPackets q). \<forall>j<unat (maxPackets q). packetPtr q + 4 * of_nat i \<noteq> packetSize q + 4 * of_nat j))"

definition queue_put :: "Packet \<Rightarrow> Queue \<times> (addr \<Rightarrow> u32) \<Rightarrow> bool \<times> Queue \<times> (addr \<Rightarrow> u32)" where
  "queue_put p = (\<lambda>(q, m). case insert_packet p q m of (r, s) \<Rightarrow> (r = Q_WRITEOK, s))"

definition queue_get :: "addr \<Rightarrow> Queue \<times> (addr \<Rightarrow> u32) \<Rightarrow> u32 option \<times> Queue \<times> (addr \<Rightarrow> u32)" where
  "queue_get ptrPacket = (\<lambda>(q, m). case remove_packet ptrPacket \<lparr>pk_data = NIL, pk_size = 0\<rparr> q m of
     (r, p, q') \<Rightarrow> (if r = Q_READOK then Some (pk_size p) else None, q', m))"

lemma in_use_cases: "f < n \<Longrightarrow> r < n \<Longrightarrow> in_use n f r = (if f \<le> r then r - f else r + n - f)"
  by (auto simp: in_use_def mod_if)

lemma unat_next_index:
  assumes "i < maxPackets q"
  shows "unat (next_index q i) = (unat i + 1) mod unat (maxPackets q)" "next_index q i < maxPackets q"
proof -
  have i: "unat i < unat (maxPackets q)" "unat (maxPackets q) < 2 ^ 32"
    using assms unsigned_less[of "maxPackets q", where ?'a = nat] by (simp_all add: word_less_nat_alt)
  have "unat (maxPackets q - 1) = unat (maxPackets q) - 1" using i by (subst unat_sub) (auto simp: word_le_nat_alt)
  then have e: "i = maxPackets q - 1 \<longleftrightarrow> unat i + 1 = unat (maxPackets q)" unfolding word_unat_eq_iff[of i] using i(1) by linarith
  show *: "unat (next_index q i) = (unat i + 1) mod unat (maxPackets q)"
  proof (cases "i = maxPackets q - 1")
    case True
    then show ?thesis using e by (simp add: next_index_def)
  next
    case False
    then have "unat i + 1 < unat (maxPackets q)" using e i by linarith
    moreover from this have "unat (i + 1) = unat i + 1" using i by (simp add: unat_word_ariths)
    ultimately show ?thesis using False by (simp add: next_index_def)
  qed
  show "next_index q i < maxPackets q" unfolding word_less_nat_alt * using i by simp
qed

lemma next_eq_front:
  assumes "f < n" "r < n" "1 < n"
  shows "(r + 1) mod n = f \<longleftrightarrow> in_use n f r = n - 1"
  using assms by (auto simp: in_use_cases mod_if split: if_splits)

lemma in_use_next_r:
  assumes "f < n" "r < n" "in_use n f r < n - 1"
  shows "in_use n f ((r + 1) mod n) = in_use n f r + 1" "(f + 1 + in_use n f r) mod n = (r + 1) mod n"
    "i < in_use n f r \<Longrightarrow> (f + 1 + i) mod n \<noteq> (r + 1) mod n"
proof -
  have r: "(r + 1) mod n = (if r + 1 = n then 0 else r + 1)" "(r + 1) mod n < n" using assms(2) by auto
  show "in_use n f ((r + 1) mod n) = in_use n f r + 1"
    unfolding in_use_cases[OF assms(1) r(2)] r(1) using assms by (auto simp: in_use_cases split: if_splits)
  show "(f + 1 + in_use n f r) mod n = (r + 1) mod n"
    unfolding r(1) using assms by (auto simp: in_use_cases mod_if split: if_splits)
  assume i: "i < in_use n f r"
  have "(f + 1 + i) mod n = (if f + 1 + i < n then f + 1 + i else f + 1 + i - n)" using i assms by (auto simp: mod_if)
  then show "(f + 1 + i) mod n \<noteq> (r + 1) mod n" unfolding r(1) using i assms by (auto simp: in_use_cases split: if_splits)
qed

lemma in_use_next_f:
  assumes "f < n" "r < n" "f \<noteq> r"
  shows "in_use n f r = Suc (in_use n ((f + 1) mod n) r)"
proof -
  have f: "(f + 1) mod n = (if f + 1 = n then 0 else f + 1)" "(f + 1) mod n < n" using assms(1) by auto
  show ?thesis unfolding in_use_cases[OF f(2) assms(2)] f(1) using assms by (auto simp: in_use_cases split: if_splits)
qed

lemma of_nat_u32_eq: "(of_nat i :: u32) = of_nat j \<Longrightarrow> i mod 2 ^ 32 = j mod 2 ^ 32"
  by (drule arg_cong[of _ _ unat]) (simp add: unat_of_nat)

lemma slot_apart:
  assumes "i < n" "j < n" "i \<noteq> j" "n \<le> 2 ^ 30"
  shows "p + 4 * of_nat i \<noteq> p + 4 * (of_nat j :: u32)"
proof
  assume "p + 4 * of_nat i = p + 4 * (of_nat j :: u32)"
  then have "(of_nat (4 * i) :: u32) = of_nat (4 * j)" by simp
  from of_nat_u32_eq[OF this] have "4 * i mod 2 ^ 32 = 4 * j mod 2 ^ 32" .
  then show False using assms by simp
qed

lemma unat_index: "p + 4 * i = p + 4 * (of_nat (unat i) :: u32)"
  by simp

lemma put_room_ok:
  assumes "queue_ok s" "length (queue_sizes s) < queue_capacity s"
  shows "\<exists>s'. queue_put p s = (True, s') \<and> queue_ok s' \<and> queue_sizes s' = queue_sizes s @ [pk_size p] \<and> queue_capacity s' = queue_capacity s"
proof -
  obtain q m where s: "s = (q, m)" by fastforce
  let ?n = "unat (maxPackets q)" and ?f = "unat (q_f q)" and ?r = "unat (q_r q)"
  let ?i = "next_index q (q_r q)"
  let ?m = "m(packetPtr q + 4 * ?i := pk_data p, packetSize q + 4 * ?i := pk_size p)"
  have ok: "1 < ?n" "?n \<le> 2 ^ 30" "maxSize q = 0" "?r < ?n" "?f < ?n" "q_r q < maxPackets q"
    "\<forall>i<?n. \<forall>j<?n. packetPtr q + 4 * of_nat i \<noteq> packetSize q + 4 * of_nat j"
    using assms(1) by (simp_all add: s queue_ok_def word_less_nat_alt)
  have l: "in_use ?n ?f ?r < ?n - 1" using assms(2) by (simp add: s queue_sizes_def queue_capacity_def)
  note i = unat_next_index[OF ok(6)]
  have "unat ?i \<noteq> ?f" unfolding i using next_eq_front[OF ok(5,4,1)] l by simp
  then have put: "queue_put p s = (True, q\<lparr>q_r := ?i\<rparr>, ?m)"
    using ok(3) by (auto simp: s queue_put_def insert_packet_def Let_def)
  have idx: "of_nat (Suc ?r mod ?n) = ?i" using arg_cong[OF i(1), of "of_nat :: nat \<Rightarrow> u32"] by simp
  have old: "?m (packetSize q + 4 * of_nat ((?f + 1 + j) mod ?n)) = m (packetSize q + 4 * of_nat ((?f + 1 + j) mod ?n))"
    if "j < in_use ?n ?f ?r" for j
  proof -
    have n: "(?f + 1 + j) mod ?n \<noteq> unat ?i" "(?f + 1 + j) mod ?n < ?n" "unat ?i < ?n"
      using in_use_next_r(3)[OF ok(5,4) l that] ok(1) by (auto simp: i)
    let ?k = "(?f + 1 + j) mod ?n"
    have "packetSize q + 4 * of_nat ?k \<noteq> packetSize q + 4 * ?i" "packetPtr q + 4 * ?i \<noteq> packetSize q + 4 * of_nat ?k"
      using slot_apart[OF n(2,3,1) ok(2), of "packetSize q"] ok(7)[rule_format, OF n(3,2)] by simp_all
    then show ?thesis by (simp only: fun_upd_other not_sym simp_thms)
  qed
  have "queue_sizes (q\<lparr>q_r := ?i\<rparr>, ?m) = queue_sizes s @ [pk_size p]"
    using in_use_next_r(1,2)[OF ok(5,4) l] old idx by (simp add: s queue_sizes_def i)
  moreover have "queue_ok (q\<lparr>q_r := ?i\<rparr>, ?m)" using assms(1) i(2) by (simp add: s queue_ok_def)
  ultimately show ?thesis using put by (simp add: s queue_capacity_def)
qed

lemma put_full_ok:
  assumes "queue_ok s" "queue_capacity s \<le> length (queue_sizes s)"
  shows "queue_put p s = (False, s)"
proof -
  obtain q m where s: "s = (q, m)" by fastforce
  let ?n = "unat (maxPackets q)" and ?f = "unat (q_f q)" and ?r = "unat (q_r q)"
  have ok: "1 < ?n" "?r < ?n" "?f < ?n" "q_r q < maxPackets q"
    using assms(1) by (simp_all add: s queue_ok_def word_less_nat_alt)
  have "in_use ?n ?f ?r < ?n" using ok by (simp add: in_use_def)
  then have "in_use ?n ?f ?r = ?n - 1" using assms(2) by (simp add: s queue_sizes_def queue_capacity_def)
  then have "unat (next_index q (q_r q)) = ?f" using next_eq_front[OF ok(3,2,1)] unat_next_index(1)[OF ok(4)] by simp
  then have full: "next_index q (q_r q) = q_f q" by (simp add: word_unat_eq_iff)
  have "q_r q = (if next_index q (q_r q) \<noteq> 0 then next_index q (q_r q) - 1 else maxPackets q - 1)"
  proof (cases "q_r q = maxPackets q - 1")
    case False
    have "unat (q_r q) + 1 < ?n" using False ok by (cases "unat (q_r q) + 1 = ?n") (auto simp: word_unat_eq_iff unat_sub word_le_nat_alt)
    then have "unat (q_r q + 1) \<noteq> 0" using unsigned_less[of "maxPackets q", where ?'a = nat] by (simp add: unat_word_ariths)
    then have "q_r q + 1 \<noteq> 0" by (simp only: unat_eq_zero) simp
    then show ?thesis using False by (simp add: next_index_def)
  qed (simp add: next_index_def)
  then have "q\<lparr>q_r := if next_index q (q_r q) \<noteq> 0 then next_index q (q_r q) - 1 else maxPackets q - 1\<rparr> = q" by simp
  then show ?thesis using full by (cases "q_f q = 0") (simp_all add: s queue_put_def insert_packet_def Let_def)
qed

lemma get_some_ok:
  assumes "queue_ok s" "queue_sizes s = x # xs"
  shows "\<exists>s'. queue_get g s = (Some x, s') \<and> queue_ok s' \<and> queue_sizes s' = xs \<and> queue_capacity s' = queue_capacity s"
proof -
  obtain q m where s: "s = (q, m)" by fastforce
  let ?n = "unat (maxPackets q)" and ?f = "unat (q_f q)" and ?r = "unat (q_r q)" and ?q = "q\<lparr>q_f := next_index q (q_f q)\<rparr>"
  have ok: "1 < ?n" "?r < ?n" "?f < ?n" "q_f q < maxPackets q"
    using assms(1) by (simp_all add: s queue_ok_def word_less_nat_alt)
  note i = unat_next_index[OF ok(4)]
  have ne: "?f \<noteq> ?r" using assms(2) ok by (auto simp: s queue_sizes_def in_use_def)
  let ?g = "\<lambda>j. m (packetSize q + 4 * of_nat ((?f + 1 + j) mod ?n))"
  have "queue_sizes s = ?g 0 # List.map (\<lambda>j. ?g (Suc j)) [0..<in_use ?n ((?f + 1) mod ?n) ?r]"
    unfolding s queue_sizes_def prod.case in_use_next_f[OF ok(3,2) ne] by (simp add: upt_conv_Cons map_Suc_upt[symmetric] del: upt_Suc)
  also have "(\<lambda>j. ?g (Suc j)) = (\<lambda>j. m (packetSize q + 4 * of_nat (((?f + 1) mod ?n + 1 + j) mod ?n)))"
  proof
    fix j
    have "(?f + 1 + Suc j) mod ?n = ((?f + 1) mod ?n + 1 + j) mod ?n"
      using mod_add_left_eq[of "?f + 1" ?n "1 + j"] by (simp add: ac_simps)
    then show "?g (Suc j) = m (packetSize q + 4 * of_nat (((?f + 1) mod ?n + 1 + j) mod ?n))" by (simp only:)
  qed
  finally have "x = ?g 0" "xs = queue_sizes (?q, m)" using assms(2) by (simp_all add: queue_sizes_def i)
  moreover have "queue_get g s = (Some (?g 0), ?q, m)"
    using ne unat_index[of "packetSize q" "next_index q (q_f q)"]
    by (auto simp: s queue_get_def remove_packet_def Let_def i)
  ultimately show ?thesis using assms(1) i(2) by (simp add: s queue_ok_def queue_capacity_def)
qed

lemma get_none_ok:
  assumes "queue_ok s" "queue_sizes s = []"
  shows "queue_get g s = (None, s)"
proof -
  obtain q m where s: "s = (q, m)" by fastforce
  have "unat (q_f q) = unat (q_r q)"
    using assms by (auto simp: s queue_sizes_def queue_ok_def in_use_cases word_less_nat_alt split: if_splits)
  then show ?thesis by (simp add: s queue_get_def remove_packet_def word_unat_eq_iff)
qed

interpretation klq: bounded_fifo queue_put "queue_get g" pk_size queue_sizes queue_capacity queue_ok for g
  by unfold_locales (rule put_room_ok put_full_ok get_none_ok get_some_ok; assumption)+


definition sample_queue :: Queue where
  "sample_queue = \<lparr>maxPackets = 3, maxSize = 0, currentSize = 0, q_r = 2, q_f = 2, buffer = NIL, packetPtr = 0x100, packetSize = 0x200\<rparr>"

lemma sample_queue_ok: "queue_ok (sample_queue, \<lambda>_. 0)" "queue_sizes (sample_queue, \<lambda>_. 0) = []"
proof -
  have 3: "i < 3 \<longleftrightarrow> i = 0 \<or> i = 1 \<or> i = 2" for i :: nat by auto
  show "queue_ok (sample_queue, \<lambda>_. 0)" by (auto simp: sample_queue_def queue_ok_def 3)
  show "queue_sizes (sample_queue, \<lambda>_. 0) = []" by (simp add: sample_queue_def queue_sizes_def in_use_def)
qed


text \<open>A new queue is empty when its place in the table is new, and its arrays are apart.\<close>

theorem queue_alloc_empty:
  assumes "0 < mp" "mp < 2 ^ 30"
    and "\<forall>i\<le>unat mp. \<forall>j\<le>unat mp. malloc 0 (4 * (mp + 1)) + 4 * of_nat i \<noteq> malloc 1 (4 * (mp + 1)) + 4 * of_nat j"
  shows "queue_ok (setup_queue malloc 0 mp empty_queue, m)" "queue_sizes (setup_queue malloc 0 mp empty_queue, m) = []"
proof -
  have u: "unat (mp + 1) = unat mp + 1" "0 < unat mp" "unat mp < 2 ^ 30" using assms(1,2) by (simp_all add: word_less_nat_alt unat_word_ariths)
  show "queue_ok (setup_queue malloc 0 mp empty_queue, m)"
    using assms(3) u by (auto simp: queue_ok_def setup_queue_def empty_queue_def Let_def less_Suc_eq_le word_less_nat_alt)
  show "queue_sizes (setup_queue malloc 0 mp empty_queue, m) = []"
    by (simp add: queue_sizes_def setup_queue_def empty_queue_def Let_def in_use_def)
qed

text \<open>C40: \<open>KLqueueFree\<close> and \<open>KLqueueAlloc\<close> leave the front and the rear of a queue as they are. When the
  place of a queue that was not empty is used again, the new queue is not empty: the first removal
  returns \<open>Q_READOK\<close> for a packet nobody inserted. And its rear may be behind its end.\<close>

theorem queue_realloc_stale:
  assumes "qTable s = Some t" "unat qId < length t" "qId < maxQueues s"
    and "maxPackets (t ! unat qId) \<noteq> 0" "q_f (t ! unat qId) \<noteq> q_r (t ! unat qId)"
    and "\<forall>i<unat qId. maxPackets (t ! i) \<noteq> 0" "0 < mp" "mp + 1 \<noteq> 0"
  shows "\<exists>s'. KLqueueAlloc malloc queueSize mp (snd (KLqueueFree qId s)) = Some (qId, s') \<and> fst (KLqueueRemove g qId p s') = Q_READOK
    \<and> q_r (the (qTable s') ! unat qId) = q_r (t ! unat qId)"
proof -
  let ?i = "unat qId"
  let ?q = "(t ! ?i)\<lparr>currentSize := 0, maxSize := 0, maxPackets := 0\<rparr>"
  have f: "snd (KLqueueFree qId s) = s\<lparr>qTable := Some (t[?i := ?q])\<rparr>"
    using assms(1,3,4) by (simp add: KLqueueFree_def valid_queue_def Let_def put_queue_def)
  have "free_queue (t[i := q]) = Some i" if "i < length t" "maxPackets q = 0" "\<forall>j<i. maxPackets (t ! j) \<noteq> 0" for i q and t :: "Queue list"
    using that
  proof (induction t arbitrary: i)
    case (Cons a t)
    show ?case
    proof (cases i)
      case (Suc j)
      then have "\<forall>k<j. maxPackets (t ! k) \<noteq> 0" "maxPackets a \<noteq> 0" using Cons(4) by fastforce+
      then show ?thesis using Cons Suc by simp
    qed (use Cons in simp)
  qed simp
  from this[OF assms(2) _ assms(6), of ?q] have "free_queue (t[?i := ?q]) = Some ?i" by simp
  then have a: "KLqueueAlloc malloc queueSize mp (snd (KLqueueFree qId s)) = Some (qId, s\<lparr>qTable := Some (t[?i := setup_queue malloc queueSize mp ?q])\<rparr>)"
    using assms(2,7) by (auto simp: KLqueueAlloc_def f)
  have q: "q_f (setup_queue malloc queueSize mp ?q) = q_f (t ! ?i)" "q_r (setup_queue malloc queueSize mp ?q) = q_r (t ! ?i)"
    "maxPackets (setup_queue malloc queueSize mp ?q) \<noteq> 0"
    using assms(8) by (simp_all add: setup_queue_def Let_def)
  show ?thesis unfolding a using assms(2,3,5) q by (simp add: KLqueueRemove_def valid_queue_def remove_packet_def Let_def)
qed

theorem queue_realloc_stale_witness:
  "\<exists>s'. KLqueueAlloc (\<lambda>_ _. 0x100) 0 1 (snd (KLqueueFree 0 \<lparr>qTable = Some [sample_queue\<lparr>q_r := 0\<rparr>], maxQueues = 1, words = \<lambda>_. 0\<rparr>)) = Some (0, s')
    \<and> fst (KLqueueRemove NIL 0 \<lparr>pk_data = 0, pk_size = 0\<rparr> s') = Q_READOK"
  using queue_realloc_stale[of "\<lparr>qTable = Some [sample_queue\<lparr>q_r := 0\<rparr>], maxQueues = 1, words = \<lambda>_. 0\<rparr>" "[sample_queue\<lparr>q_r := 0\<rparr>]" 0 1
      "\<lambda>_ _. 0x100" 0 NIL "\<lparr>pk_data = 0, pk_size = 0\<rparr>"]
  by (auto simp: sample_queue_def)

text \<open>A queue by copy has no array of packets: its first packet is written to address 4.\<close>

theorem queue_by_copy:
  assumes "queueSize \<noteq> 0" "0 < mp" "mp + 1 \<noteq> 0"
  shows "\<exists>q' m'. insert_packet p (setup_queue malloc queueSize mp empty_queue) m = (Q_WRITEOK, q', m')
    \<and> m' = m(4 := pk_data p, malloc 1 (4 * (mp + 1)) + 4 := pk_size p)"
proof -
  have "next_index (setup_queue malloc queueSize mp empty_queue) 0 = 1" using assms by (auto simp: next_index_def setup_queue_def Let_def)
  then show ?thesis using assms by (simp add: insert_packet_def setup_queue_def empty_queue_def Let_def)
qed

end
