(* ===== verification/Spec2Isabelle.thy ===== *)
theory Spec2Isabelle
  imports CK_Prelude CK_Heap CK_Graph CK_Dll KL_Freelist KL_FreelistCorrect KL_FreelistAlign
    CK_Memory CK_Sched CK_SchedInv CK_State CK_Signal CK_Paging CK_Shmem CK_Objmgmt CK_ThreadObjects
    CK_Resource CK_Ports CK_Traps CK_System KL_Memory KL_String KL_StringMatch
    KL_Bitmap KL_Queue
begin

text \<open>
  Alliance OS: the Cache Kernel and the kernel library.

  The Cache Kernel (\<^verbatim>\<open>src/development/CK\<close>) is a small kernel that caches the objects of
  its client kernels: threads, address spaces, kernels and shared memory. The kernel library
  (\<^verbatim>\<open>src/development/KL\<close>) is linked into it and into the clients.
\<close>

end
